(* ===== verification/Midge_Prelude.thy ===== *)
theory Midge_Prelude
  imports Main "HOL-Library.Word" "HOL-Library.List_Lexorder"
begin

text \<open>
  Shared vocabulary of the development: the machine types of the Rust sources, the error
  type of \<^verbatim>\<open>src/src/common/error.rs\<close>, the \<^verbatim>\<open>?\<close> operator on results, checked and
  saturating arithmetic, little-endian integers, reading from the front of a slice, and
  the two interfaces most components share: a byte reader that undoes a writer, and a
  machine that applies edits and either accepts or refuses each of them.
\<close>

named_theorems wire_simps \<open>length and round-trip facts of wire encodings\<close>
named_theorems result_simps \<open>case analysis of results\<close>

section \<open>Machine types\<close>

text \<open>
  A slice of bytes is a list of 8-bit words; the comparison of slices is the
  lexicographic order of lists. Lengths and offsets (\<^verbatim>\<open>usize\<close>) are natural numbers
  and the target is a 64-bit one, so that \<^verbatim>\<open>usize::MAX = u64::MAX\<close>; where the source
  checks or saturates, the bound is written out.
\<close>

type_synonym byte = "8 word"
type_synonym bytes = "byte list"
type_synonym u32 = "32 word"
type_synonym u64 = "64 word"
type_synonym u128 = "128 word"

abbreviation u32_max :: nat where "u32_max \<equiv> 4294967295"
abbreviation u64_max :: nat where "u64_max \<equiv> 18446744073709551615"
abbreviation usize_max :: nat where "usize_max \<equiv> u64_max"

lemma unat_byte_less [simp]: "unat (w :: byte) < 256"
  using unsigned_less [of w, where ?'a = nat] by simp

lemma unat_u32_less: "unat (w :: u32) < 256 ^ 4"
  using unsigned_less [of w, where ?'a = nat] by simp

lemma unat_u64_less: "unat (w :: u64) < 256 ^ 8"
  using unsigned_less [of w, where ?'a = nat] by simp

lemma unat_u128_less: "unat (w :: u128) < 256 ^ 16"
  using unsigned_less [of w, where ?'a = nat] by simp

lemma unat_u64_le [simp]: "unat (w :: u64) \<le> u64_max"
  using unat_u64_less [of w] by simp

lemma unat_u32_le [simp]: "unat (w :: u32) \<le> u32_max"
  using unat_u32_less [of w] by simp

definition checked_add_u64 :: "u64 \<Rightarrow> u64 \<Rightarrow> u64 option" where
  "checked_add_u64 a b = (if unat a + unat b \<le> u64_max then Some (a + b) else None)"

definition checked_sub_u64 :: "u64 \<Rightarrow> u64 \<Rightarrow> u64 option" where
  "checked_sub_u64 a b = (if b \<le> a then Some (a - b) else None)"

definition saturating_add_u64 :: "u64 \<Rightarrow> u64 \<Rightarrow> u64" where
  "saturating_add_u64 a b = (if unat a + unat b \<le> u64_max then a + b else - 1)"

definition checked_add_usize :: "nat \<Rightarrow> nat \<Rightarrow> nat option" where
  "checked_add_usize a b = (if a + b \<le> usize_max then Some (a + b) else None)"

definition saturating_add_usize :: "nat \<Rightarrow> nat \<Rightarrow> nat" where
  "saturating_add_usize a b = min usize_max (a + b)"

definition saturating_mul_usize :: "nat \<Rightarrow> nat \<Rightarrow> nat" where
  "saturating_mul_usize a b = min usize_max (a * b)"

text \<open>The conversion \<^verbatim>\<open>u64::try_from(len).unwrap_or(u64::MAX)\<close> of a length.\<close>

definition u64_of_len :: "nat \<Rightarrow> u64" where
  "u64_of_len n = (if n \<le> u64_max then of_nat n else - 1)"

lemma unat_u64_max [simp]: "unat (- 1 :: u64) = u64_max"
proof -
  have "(- 1 :: u64) = of_nat u64_max" by simp
  then show ?thesis by (simp only: unat_of_nat) simp
qed

lemma unat_add_u64:
  "unat (a :: u64) + unat b \<le> u64_max \<Longrightarrow> unat (a + b) = unat a + unat b"
  by (subst unat_add_lem [THEN iffD1]) auto

lemma checked_add_u64_Some:
  "checked_add_u64 a b = Some c \<longleftrightarrow> unat a + unat b \<le> u64_max \<and> c = a + b"
  by (auto simp: checked_add_u64_def)

lemma checked_add_u64_unat:
  "checked_add_u64 a b = Some c \<Longrightarrow> unat c = unat a + unat b"
  by (simp add: checked_add_u64_Some unat_add_u64)

lemma unat_saturating_add_u64:
  "unat (saturating_add_u64 a b) = min u64_max (unat a + unat b)"
  by (simp add: saturating_add_u64_def unat_add_u64)

lemma unat_u64_of_len: "unat (u64_of_len n) = min u64_max n"
  by (simp add: u64_of_len_def unat_of_nat)

lemma saturating_add_u64_ge: "a \<le> saturating_add_u64 a b"
  by (simp add: word_le_nat_alt unat_saturating_add_u64)

section \<open>Errors and results\<close>

text \<open>
  The variants of \<^verbatim>\<open>MidgeError\<close> the modelled code raises. A message keeps the fixed text
  of the source's format string and drops the interpolated values.
\<close>

datatype midge_error =
    InvalidArgument string
  | Corruption string
  | NotSupported string
  | Internal string
  | RecoveryFailed string
  | CompatibilityError string
  | Fenced string
  | ResourceLimit string
  | Aborted string
  | NotFound

type_synonym 'a midge_result = "midge_error + 'a"

text \<open>\<open>try_with r f\<close> is \<^verbatim>\<open>f(r?)\<close>: an error returns at once.\<close>

definition try_with :: "'e + 'a \<Rightarrow> ('a \<Rightarrow> 'e + 'b) \<Rightarrow> 'e + 'b" where
  "try_with r f = (case r of Inl e \<Rightarrow> Inl e | Inr x \<Rightarrow> f x)"

definition map_err :: "('e \<Rightarrow> 'f) \<Rightarrow> 'e + 'a \<Rightarrow> 'f + 'a" where
  "map_err g r = (case r of Inl e \<Rightarrow> Inl (g e) | Inr x \<Rightarrow> Inr x)"

definition ok_or :: "'e \<Rightarrow> 'a option \<Rightarrow> 'e + 'a" where
  "ok_or e r = (case r of None \<Rightarrow> Inl e | Some x \<Rightarrow> Inr x)"

definition is_ok :: "'e + 'a \<Rightarrow> bool" where
  "is_ok r = (case r of Inl _ \<Rightarrow> False | Inr _ \<Rightarrow> True)"

lemma try_with_simps [simp, result_simps]:
  "try_with (Inl e) f = Inl e"
  "try_with (Inr x) f = f x"
  by (simp_all add: try_with_def)

lemma try_with_Inr [simp, result_simps]:
  "try_with r f = Inr y \<longleftrightarrow> (\<exists>x. r = Inr x \<and> f x = Inr y)"
  by (cases r) auto

lemma try_with_Inl [result_simps]:
  "try_with r f = Inl e \<longleftrightarrow> r = Inl e \<or> (\<exists>x. r = Inr x \<and> f x = Inl e)"
  by (cases r) auto

lemma map_err_simps [simp, result_simps]:
  "map_err g (Inl e) = Inl (g e)"
  "map_err g (Inr x) = Inr x"
  "map_err g r = Inr y \<longleftrightarrow> r = Inr y"
  by (simp_all add: map_err_def split: sum.splits)

lemma ok_or_simps [simp, result_simps]:
  "ok_or e None = Inl e"
  "ok_or e (Some x) = Inr x"
  "ok_or e r = Inr y \<longleftrightarrow> r = Some y"
  "ok_or e r = Inl d \<longleftrightarrow> r = None \<and> d = e"
  by (auto simp: ok_or_def split: option.splits)

lemma is_ok_simps [simp, result_simps]:
  "is_ok (Inl e) = False"
  "is_ok (Inr x) = True"
  by (simp_all add: is_ok_def)

lemma is_ok_iff: "is_ok r \<longleftrightarrow> (\<exists>x. r = Inr x)"
  by (cases r) auto

lemma try_with_cong [fundef_cong]:
  "r = r' \<Longrightarrow> (\<And>x. r' = Inr x \<Longrightarrow> f x = f' x) \<Longrightarrow> try_with r f = try_with r' f'"
  by (cases r') auto

text \<open>
  A call that may refuse to go on for a reason outside the modelled state (a byte budget, a
  cancellation flag, a file system) is a checkpoint. The refusals of a run are a tape: each
  checkpoint consumes one entry and fails with the error it holds, if any. A theorem over
  every tape therefore holds wherever the run is cut short.
\<close>

type_synonym interrupts = "midge_error option list"

fun checkpoint :: "interrupts \<Rightarrow> interrupts midge_result" where
  "checkpoint [] = Inr []"
| "checkpoint (None # t) = Inr t"
| "checkpoint (Some e # t) = Inl e"

section \<open>Little-endian integers\<close>

text \<open>
  \<^verbatim>\<open>to_le_bytes\<close> and \<^verbatim>\<open>from_le_bytes\<close>: the least significant byte comes first. The
  width is the number of bytes written.
\<close>

fun le_bytes :: "nat \<Rightarrow> nat \<Rightarrow> bytes" where
  "le_bytes 0 v = []"
| "le_bytes (Suc n) v = of_nat (v mod 256) # le_bytes n (v div 256)"

fun le_value :: "bytes \<Rightarrow> nat" where
  "le_value [] = 0"
| "le_value (b # bs) = unat b + 256 * le_value bs"

definition u32_to_le :: "u32 \<Rightarrow> bytes" where
  "u32_to_le w = le_bytes 4 (unat w)"

definition u64_to_le :: "u64 \<Rightarrow> bytes" where
  "u64_to_le w = le_bytes 8 (unat w)"

definition u32_from_le :: "bytes \<Rightarrow> u32" where
  "u32_from_le bs = of_nat (le_value bs)"

definition u64_from_le :: "bytes \<Rightarrow> u64" where
  "u64_from_le bs = of_nat (le_value bs)"

lemma le_bytes_numeral:
  "le_bytes (numeral k) v = of_nat (v mod 256) # le_bytes (pred_numeral k) (v div 256)"
  by (simp only: numeral_eq_Suc [of k] le_bytes.simps)

lemma length_le_bytes [simp, wire_simps]: "length (le_bytes n v) = n"
  by (induction n arbitrary: v) auto

lemma le_value_le_bytes: "le_value (le_bytes n v) = v mod 256 ^ n"
proof (induction n arbitrary: v)
  case 0
  then show ?case by simp
next
  case (Suc n)
  have "unat (of_nat (v mod 256) :: byte) = v mod 256"
    by (simp add: unat_of_nat)
  with Suc.IH [of "v div 256"] show ?case
    by (simp add: mod_mult2_eq)
qed

lemma le_value_bound: "le_value bs < 256 ^ length bs"
proof (induction bs)
  case (Cons b bs)
  have "unat b < 256" by simp
  with Cons show ?case
    by (simp only: le_value.simps length_Cons power_Suc)
qed simp

lemma le_bytes_le_value: "le_bytes (length bs) (le_value bs) = bs"
proof (induction bs)
  case (Cons b bs)
  have b: "unat b < 256" by simp
  have "(unat b + 256 * le_value bs) mod 256 = unat b"
    using b by simp
  moreover have "(unat b + 256 * le_value bs) div 256 = le_value bs"
    using b by simp
  ultimately show ?case using Cons by simp
qed simp

lemma length_u32_to_le [simp, wire_simps]: "length (u32_to_le w) = 4"
  by (simp add: u32_to_le_def)

lemma length_u64_to_le [simp, wire_simps]: "length (u64_to_le w) = 8"
  by (simp add: u64_to_le_def)

lemma u32_from_to_le [simp, wire_simps]: "u32_from_le (u32_to_le w) = w"
  using unat_u32_less [of w]
  by (simp add: u32_from_le_def u32_to_le_def le_value_le_bytes)

lemma u64_from_to_le [simp, wire_simps]: "u64_from_le (u64_to_le w) = w"
  using unat_u64_less [of w]
  by (simp add: u64_from_le_def u64_to_le_def le_value_le_bytes)

text \<open>
  A 16-byte array (a digest, a holder identity) is a 128-bit word read in little-endian
  order.
\<close>

definition u128_to_le :: "u128 \<Rightarrow> bytes" where
  "u128_to_le w = le_bytes 16 (unat w)"

definition u128_from_le :: "bytes \<Rightarrow> u128" where
  "u128_from_le bs = of_nat (le_value bs)"

lemma length_u128_to_le [simp, wire_simps]: "length (u128_to_le w) = 16"
  by (simp add: u128_to_le_def)

lemma u128_from_to_le [simp, wire_simps]: "u128_from_le (u128_to_le w) = w"
  using unat_u128_less [of w]
  by (simp add: u128_from_le_def u128_to_le_def le_value_le_bytes)

lemma u32_to_from_le: "length bs = 4 \<Longrightarrow> u32_to_le (u32_from_le bs) = bs"
  using le_value_bound [of bs] le_bytes_le_value [of bs]
  by (simp add: u32_from_le_def u32_to_le_def unat_of_nat)

lemma u64_to_from_le: "length bs = 8 \<Longrightarrow> u64_to_le (u64_from_le bs) = bs"
  using le_value_bound [of bs] le_bytes_le_value [of bs]
  by (simp add: u64_from_le_def u64_to_le_def unat_of_nat)

lemma u128_to_from_le: "length bs = 16 \<Longrightarrow> u128_to_le (u128_from_le bs) = bs"
  using le_value_bound [of bs] le_bytes_le_value [of bs]
  by (simp add: u128_to_le_def u128_from_le_def unat_of_nat)

lemma u32_to_le_inject [simp]: "u32_to_le a = u32_to_le b \<longleftrightarrow> a = b"
  by (metis u32_from_to_le)

lemma u64_to_le_inject [simp]: "u64_to_le a = u64_to_le b \<longleftrightarrow> a = b"
  by (metis u64_from_to_le)

section \<open>Slices\<close>

text \<open>
  \<open>slice bs i j\<close> is \<^verbatim>\<open>&bs[i..j]\<close>. The source panics when the range is out of bounds; every
  use in the model is guarded as in the source.
\<close>

definition slice :: "'a list \<Rightarrow> nat \<Rightarrow> nat \<Rightarrow> 'a list" where
  "slice bs i j = take (j - i) (drop i bs)"

lemma length_slice [simp]: "j \<le> length bs \<Longrightarrow> length (slice bs i j) = j - i"
  by (simp add: slice_def)

lemma slice_0 [simp]: "slice bs 0 j = take j bs"
  by (simp add: slice_def)

lemma slice_to_length [simp]: "slice bs i (length bs) = drop i bs"
  by (simp add: slice_def)

lemma slice_append_skip: "i = length xs \<Longrightarrow> slice (xs @ ys) (i + a) (i + b) = slice ys a b"
  by (simp add: slice_def)

lemma slice_append_left: "j \<le> length xs \<Longrightarrow> slice (xs @ ys) i j = slice xs i j"
  by (simp add: slice_def take_drop)

lemma slice_join:
  assumes "i \<le> j" "j \<le> k" "k \<le> length bs"
  shows "slice bs i j @ slice bs j k = slice bs i k"
proof -
  have "take (k - j) (drop j bs) = take (k - j) (drop (j - i) (drop i bs))"
    using assms by simp
  moreover have "k - i = (j - i) + (k - j)" using assms by simp
  ultimately show ?thesis unfolding slice_def by (simp only: take_add)
qed

text \<open>Whether a property holds of neighbouring elements: \<^verbatim>\<open>windows(2)\<close>.\<close>

fun adjacent_all :: "('a \<Rightarrow> 'a \<Rightarrow> bool) \<Rightarrow> 'a list \<Rightarrow> bool" where
  "adjacent_all p (x # y # zs) = (p x y \<and> adjacent_all p (y # zs))"
| "adjacent_all p _ = True"

lemma adjacent_all_sorted_wrt: "transp p \<Longrightarrow> adjacent_all p xs \<longleftrightarrow> sorted_wrt p xs"
  by (induction p xs rule: adjacent_all.induct) (auto dest: transpD)

section \<open>Readers that undo writers\<close>

text \<open>
  A reader consumes a prefix of its input and returns the rest. The interface \<open>wire\<close> is
  the contract between a writer and the reader of its bytes; from it the client gets that
  encodings are prefix free and that a counted list of items reads back.
\<close>

fun read_indexed :: "(nat \<Rightarrow> bytes \<Rightarrow> 'e + ('a \<times> bytes)) \<Rightarrow> nat \<Rightarrow> nat \<Rightarrow> bytes \<Rightarrow>
    'e + ('a list \<times> bytes)" where
  "read_indexed rd i 0 inp = Inr ([], inp)"
| "read_indexed rd i (Suc n) inp =
     try_with (rd i inp) (\<lambda>(x, inp').
       try_with (read_indexed rd (Suc i) n inp') (\<lambda>(xs, rest). Inr (x # xs, rest)))"

locale wire =
  fixes wr :: "'a \<Rightarrow> bytes"
    and rd :: "nat \<Rightarrow> bytes \<Rightarrow> 'e + ('a \<times> bytes)"
    and ok :: "nat \<Rightarrow> 'a \<Rightarrow> bool"
  assumes rd_wr: "ok i a \<Longrightarrow> rd i (wr a @ rest) = Inr (a, rest)"
begin

lemma prefix_free:
  assumes "ok i a" "ok i b" "wr a @ r = wr b @ s"
  shows "a = b \<and> r = s"
proof -
  have "Inr (a, r) = rd i (wr b @ s)"
    using rd_wr [OF assms(1)] by (simp only: assms(3) [symmetric])
  then show ?thesis by (simp add: rd_wr [OF assms(2)])
qed

lemma rd_wr_list:
  "(\<And>k. k < length xs \<Longrightarrow> ok (i + k) (xs ! k)) \<Longrightarrow>
   read_indexed rd i (length xs) (concat (map wr xs) @ rest) = Inr (xs, rest)"
proof (induction xs arbitrary: i)
  case Nil
  then show ?case by simp
next
  case (Cons x xs)
  have x: "ok i x" using Cons.prems [of 0] by simp
  have "ok (Suc i + k) (xs ! k)" if "k < length xs" for k
    using Cons.prems [of "Suc k"] that by simp
  then have "read_indexed rd (Suc i) (length xs) (concat (map wr xs) @ rest) = Inr (xs, rest)"
    by (rule Cons.IH)
  with rd_wr [OF x] show ?case by simp
qed

end

text \<open>A reader is exact when it also accepts nothing but what the writer writes.\<close>

locale exact_wire = wire +
  assumes rd_exact: "rd i inp = Inr (a, rest) \<Longrightarrow> ok i a \<and> inp = wr a @ rest"
begin

lemma rd_iff: "rd i inp = Inr (a, rest) \<longleftrightarrow> ok i a \<and> inp = wr a @ rest"
  using rd_exact rd_wr by blast

lemma rd_list_exact:
  "read_indexed rd i n inp = Inr (xs, rest) \<Longrightarrow>
   length xs = n \<and> inp = concat (map wr xs) @ rest \<and> (\<forall>k < n. ok (i + k) (xs ! k))"
proof (induction n arbitrary: i inp xs)
  case 0
  then show ?case by simp
next
  case (Suc n)
  then obtain x inp' ys where x: "rd i inp = Inr (x, inp')" and xs: "xs = x # ys"
    and ys: "read_indexed rd (Suc i) n inp' = Inr (ys, rest)" by fastforce
  from rd_exact [OF x] Suc.IH [OF ys] xs show ?case
    by (auto simp: nth_Cons split: nat.splits)
qed

end

section \<open>Machines that apply edits\<close>

text \<open>
  Several components are states with one mutator that either applies an edit whole or
  refuses it and leaves the state as it was. \<open>apply_edits\<close> runs a list of edits and stops
  at the first refusal.
\<close>

fun apply_edits :: "('s \<Rightarrow> 'e \<Rightarrow> 'r + 's) \<Rightarrow> 's \<Rightarrow> 'e list \<Rightarrow> 'r + 's" where
  "apply_edits f s [] = Inr s"
| "apply_edits f s (e # es) = try_with (f s e) (\<lambda>t. apply_edits f t es)"

lemma apply_edits_append:
  "apply_edits f s (es @ es') = try_with (apply_edits f s es) (\<lambda>t. apply_edits f t es')"
  by (induction es arbitrary: s) (auto simp: try_with_def split: sum.splits)

text \<open>Every edit satisfies the guard in the state it is applied to.\<close>

fun guarded :: "('s \<Rightarrow> 'e \<Rightarrow> 'r + 's) \<Rightarrow> ('s \<Rightarrow> 'e \<Rightarrow> bool) \<Rightarrow> 's \<Rightarrow> 'e list \<Rightarrow> bool" where
  "guarded f g s [] = True"
| "guarded f g s (e # es) =
     (g s e \<and> (case f s e of Inl _ \<Rightarrow> True | Inr t \<Rightarrow> guarded f g t es))"

locale edit_machine =
  fixes step :: "'s \<Rightarrow> 'e \<Rightarrow> 'r + 's"
    and guard :: "'s \<Rightarrow> 'e \<Rightarrow> bool"
    and inv :: "'s \<Rightarrow> bool"
  assumes step_inv: "inv s \<Longrightarrow> guard s e \<Longrightarrow> step s e = Inr t \<Longrightarrow> inv t"
begin

lemma run_inv:
  "inv s \<Longrightarrow> guarded step guard s es \<Longrightarrow> apply_edits step s es = Inr t \<Longrightarrow> inv t"
  by (induction es arbitrary: s) (auto, blast intro: step_inv)

lemma run_unguarded:
  assumes "\<And>s e. guard s e" "inv s" "apply_edits step s es = Inr t"
  shows "inv t"
proof -
  have "guarded step guard s es" for s
    using assms(1) by (induction es arbitrary: s) (auto split: sum.splits)
  then show ?thesis using assms(2,3) by (blast intro: run_inv)
qed

end

locale monotone_machine = edit_machine +
  fixes rank :: "'s \<Rightarrow> 'o :: preorder"
  assumes step_rank: "inv s \<Longrightarrow> guard s e \<Longrightarrow> step s e = Inr t \<Longrightarrow> rank s \<le> rank t"
begin

lemma run_rank:
  "inv s \<Longrightarrow> guarded step guard s es \<Longrightarrow> apply_edits step s es = Inr t \<Longrightarrow> rank s \<le> rank t"
proof (induction es arbitrary: s)
  case (Cons e es)
  then obtain s' where s': "step s e = Inr s'" "apply_edits step s' es = Inr t" by auto
  with Cons.prems have "inv s'" "guarded step guard s' es" "rank s \<le> rank s'"
    by (auto intro: step_inv step_rank)
  with Cons.IH s' show ?case by (blast intro: order_trans)
qed simp

end

end
