(* ===== verification/Codec.thy ===== *)
theory Codec
  imports Midge_Prelude
begin

text \<open>
  The shared block and WAL value compression of \<^verbatim>\<open>src/src/codec.rs\<close>: the policy that picks an
  algorithm, the checksummed block trailer, the bound on decoded sizes and the WAL value
  codec. The compressors (\<^verbatim>\<open>lz4_flex\<close>, \<^verbatim>\<open>zstd\<close>) and the checksum and digest (\<^verbatim>\<open>crc32c\<close>,
  \<^verbatim>\<open>xxh3\<close>) are other crates: they are the fields of the parameter \<open>codec_lib\<close>, and what the code relies on
  is the predicate \<open>codec_lib_ok\<close>.

  The floating-point ratio test of an adaptive policy is a field of the policy, a
  predicate on the original and the compressed size; no property depends on it.
\<close>

section \<open>The libraries the codec calls\<close>

text \<open>
  \<open>lz4_compress\<close> is \<^verbatim>\<open>lz4_flex::compress_prepend_size\<close>, \<open>lz4_decompress\<close> is
  \<^verbatim>\<open>lz4_flex::decompress_size_prepended\<close>, \<open>zstd_compress\<close> and \<open>zstd_decompress\<close> are
  \<^verbatim>\<open>zstd::bulk::compress\<close> (with its level) and \<^verbatim>\<open>zstd::bulk::decompress\<close> (with its capacity);
  \<open>None\<close> is their error. \<open>zstd_content_size\<close> is \<^verbatim>\<open>get_frame_content_size\<close>, whose error is
  \<open>Inl\<close>.
\<close>

record codec_lib =
  lz4_compress :: "bytes \<Rightarrow> bytes"
  lz4_decompress :: "bytes \<Rightarrow> bytes option"
  zstd_compress :: "nat \<Rightarrow> bytes \<Rightarrow> bytes option"
  zstd_decompress :: "nat \<Rightarrow> bytes \<Rightarrow> bytes option"
  zstd_content_size :: "bytes \<Rightarrow> unit + u64 option"
  crc32c :: "bytes \<Rightarrow> u32"
  xxh3_128 :: "bytes \<Rightarrow> u128"

text \<open>
  Documented behaviour of the compressors: LZ4 prepends the original length as a
  little-endian \<^verbatim>\<open>u32\<close> and decompression restores inputs of that size; the bulk zstd
  frame records its content size and decompresses within a sufficient capacity; no
  decoder returns more than its declared size or its capacity.
\<close>

definition lz4_ok :: "codec_lib \<Rightarrow> bool" where
  "lz4_ok lib \<longleftrightarrow>
     (\<forall>d. length d \<le> u32_max \<longrightarrow>
        lz4_decompress lib (lz4_compress lib d) = Some d \<and>
        4 \<le> length (lz4_compress lib d) \<and>
        take 4 (lz4_compress lib d) = u32_to_le (of_nat (length d)))"

definition zstd_ok :: "codec_lib \<Rightarrow> bool" where
  "zstd_ok lib \<longleftrightarrow>
     (\<forall>l d c. length d \<le> u64_max \<longrightarrow> zstd_compress lib l d = Some c \<longrightarrow>
        zstd_content_size lib c = Inr (Some (of_nat (length d))) \<and>
        (\<forall>n. length d \<le> n \<longrightarrow> zstd_decompress lib n c = Some d))"

definition decoders_bounded :: "codec_lib \<Rightarrow> bool" where
  "decoders_bounded lib \<longleftrightarrow>
     (\<forall>c d. lz4_decompress lib c = Some d \<longrightarrow> length d \<le> unat (u32_from_le (take 4 c))) \<and>
     (\<forall>n c d. zstd_decompress lib n c = Some d \<longrightarrow> length d \<le> n)"

definition codec_lib_ok :: "codec_lib \<Rightarrow> bool" where
  "codec_lib_ok lib \<longleftrightarrow> lz4_ok lib \<and> zstd_ok lib"

section \<open>Algorithms and policies\<close>

datatype compression_algo = AlgoNone | Lz4 | Zstd3 | Zstd9

definition algo_from_u8 :: "byte \<Rightarrow> compression_algo option" where
  "algo_from_u8 code =
     (if code = 0 then Some AlgoNone
      else if code = 1 then Some Lz4
      else if code = 2 then Some Zstd3
      else if code = 3 then Some Zstd9
      else None)"

fun algo_to_u8 :: "compression_algo \<Rightarrow> byte" where
  "algo_to_u8 AlgoNone = 0"
| "algo_to_u8 Lz4 = 1"
| "algo_to_u8 Zstd3 = 2"
| "algo_to_u8 Zstd9 = 3"

datatype compression_policy =
    PolicyNone
  | Fixed compression_algo
  | Adaptive (min_savings: nat) (ratio_ok: "nat \<Rightarrow> nat \<Rightarrow> bool")
      (check_algorithms: "compression_algo list")

definition min_compression_input_bytes :: nat where
  "min_compression_input_bytes = 256"

definition max_block_size :: nat where
  "max_block_size = 64 * 1024"

definition max_decompressed_block_size :: nat where
  "max_decompressed_block_size = 64 * 1024 * 1024"

definition block_trailer_size :: nat where
  "block_trailer_size = 5"

section \<open>The decoded size of a payload\<close>

record len_hint =
  decode_limit :: nat
  reservation_limit :: nat

definition enforce_decompressed_size :: "nat \<Rightarrow> nat midge_result" where
  "enforce_decompressed_size n =
     (if n > max_decompressed_block_size
      then Inl (Corruption ''declared output size exceeds byte limit'')
      else Inr n)"

fun decompressed_len_hint ::
    "codec_lib \<Rightarrow> compression_algo \<Rightarrow> bytes \<Rightarrow> len_hint midge_result" where
  "decompressed_len_hint lib AlgoNone compressed =
     Inr \<lparr>decode_limit = length compressed, reservation_limit = length compressed\<rparr>"
| "decompressed_len_hint lib Lz4 compressed =
     (if length compressed < 4
      then Inl (Corruption ''LZ4 block is missing its size prefix'')
      else
        try_with (enforce_decompressed_size (unat (u32_from_le (take 4 compressed))))
          (\<lambda>n. Inr \<lparr>decode_limit = n, reservation_limit = n\<rparr>))"
| "decompressed_len_hint lib algo compressed =
     (case zstd_content_size lib compressed of
        Inl _ \<Rightarrow> Inl (Corruption ''Zstd frame content size unavailable'')
      | Inr (Some declared) \<Rightarrow>
          try_with (enforce_decompressed_size (unat declared))
            (\<lambda>n. Inr \<lparr>decode_limit = n, reservation_limit = n\<rparr>)
      | Inr None \<Rightarrow>
          Inr \<lparr>decode_limit = max_block_size,
               reservation_limit = max_decompressed_block_size\<rparr>)"

section \<open>Compression\<close>

fun compress_with_algo ::
    "codec_lib \<Rightarrow> bytes \<Rightarrow> compression_algo \<Rightarrow> (bytes \<times> compression_algo) midge_result" where
  "compress_with_algo lib data AlgoNone = Inr (data, AlgoNone)"
| "compress_with_algo lib data Lz4 = Inr (lz4_compress lib data, Lz4)"
| "compress_with_algo lib data Zstd3 =
     (case zstd_compress lib 3 data of
        None \<Rightarrow> Inl (Internal ''zstd(3) compress failed'')
      | Some c \<Rightarrow> Inr (c, Zstd3))"
| "compress_with_algo lib data Zstd9 =
     (case zstd_compress lib 9 data of
        None \<Rightarrow> Inl (Internal ''zstd(9) compress failed'')
      | Some c \<Rightarrow> Inr (c, Zstd9))"

definition compression_qualifies :: "nat \<Rightarrow> nat \<Rightarrow> nat \<Rightarrow> (nat \<Rightarrow> nat \<Rightarrow> bool) \<Rightarrow> bool" where
  "compression_qualifies original_size compressed_size savings ratio \<longleftrightarrow>
     compressed_size < original_size \<and>
     original_size - compressed_size \<ge> savings \<and>
     ratio original_size compressed_size"

definition adaptive_step ::
    "codec_lib \<Rightarrow> bytes \<Rightarrow> nat \<Rightarrow> (nat \<Rightarrow> nat \<Rightarrow> bool) \<Rightarrow> compression_algo \<Rightarrow>
     (bytes \<times> compression_algo) option \<Rightarrow> (bytes \<times> compression_algo) option" where
  "adaptive_step lib data savings ratio algo best =
     (if algo = AlgoNone then best
      else case compress_with_algo lib data algo of
             Inl _ \<Rightarrow> best
           | Inr (compressed, _) \<Rightarrow>
               if compression_qualifies (length data) (length compressed) savings ratio \<and>
                  (case best of None \<Rightarrow> True
                   | Some (current, _) \<Rightarrow> length compressed < length current)
               then Some (compressed, algo) else best)"

definition compress_adaptive ::
    "codec_lib \<Rightarrow> bytes \<Rightarrow> nat \<Rightarrow> (nat \<Rightarrow> nat \<Rightarrow> bool) \<Rightarrow> compression_algo list \<Rightarrow>
     bytes \<times> compression_algo" where
  "compress_adaptive lib data savings ratio algos =
     (case fold (adaptive_step lib data savings ratio) algos None of
        None \<Rightarrow> (data, AlgoNone)
      | Some best \<Rightarrow> best)"

fun compress_block ::
    "codec_lib \<Rightarrow> bytes \<Rightarrow> compression_policy \<Rightarrow> (bytes \<times> compression_algo) midge_result" where
  "compress_block lib data policy =
     (if length data < min_compression_input_bytes then Inr (data, AlgoNone)
      else case policy of
             PolicyNone \<Rightarrow> Inr (data, AlgoNone)
           | Fixed algo \<Rightarrow> compress_with_algo lib data algo
           | Adaptive savings ratio algos \<Rightarrow>
               Inr (compress_adaptive lib data savings ratio algos))"

section \<open>Decompression and the block trailer\<close>

fun decompress_block :: "codec_lib \<Rightarrow> bytes \<Rightarrow> compression_algo \<Rightarrow> bytes midge_result" where
  "decompress_block lib compressed AlgoNone = Inr compressed"
| "decompress_block lib compressed Lz4 =
     try_with (decompressed_len_hint lib Lz4 compressed) (\<lambda>hint.
       ok_or (Corruption ''LZ4 decompression failed'') (lz4_decompress lib compressed))"
| "decompress_block lib compressed algo =
     try_with (decompressed_len_hint lib algo compressed) (\<lambda>hint.
       ok_or (Corruption ''Zstd decompression failed'')
         (zstd_decompress lib (decode_limit hint) compressed))"

definition compress_block_with_trailer ::
    "codec_lib \<Rightarrow> bytes \<Rightarrow> compression_policy \<Rightarrow> bytes midge_result" where
  "compress_block_with_trailer lib data policy =
     try_with (compress_block lib data policy) (\<lambda>(compressed, algo).
       let out = compressed @ [algo_to_u8 algo]
       in Inr (out @ u32_to_le (crc32c lib out)))"

definition decompress_block_with_trailer :: "codec_lib \<Rightarrow> bytes \<Rightarrow> bytes midge_result" where
  "decompress_block_with_trailer lib block =
     (if length block < block_trailer_size
      then Inl (Corruption ''block too small for trailer'')
      else
        let data_plus_algo_len = length block - 4;
            compressed_data_len = length block - block_trailer_size;
            algo_byte = block ! compressed_data_len;
            stored_crc = u32_from_le (slice block data_plus_algo_len (data_plus_algo_len + 4));
            computed_crc = crc32c lib (take data_plus_algo_len block)
        in if computed_crc \<noteq> stored_crc
           then Inl (Corruption ''block CRC32C mismatch'')
           else
             try_with
               (ok_or (Corruption ''unknown compression algorithm code'') (algo_from_u8 algo_byte))
               (decompress_block lib (take compressed_data_len block)))"

definition decompressed_size_with_trailer :: "codec_lib \<Rightarrow> bytes \<Rightarrow> nat midge_result" where
  "decompressed_size_with_trailer lib block =
     (if length block < block_trailer_size
      then Inl (Corruption ''block too small for trailer'')
      else
        let compressed_data_len = length block - block_trailer_size
        in try_with
             (ok_or (Corruption ''unknown compression algorithm code'')
               (algo_from_u8 (block ! compressed_data_len)))
             (\<lambda>algo.
               try_with (decompressed_len_hint lib algo (take compressed_data_len block))
                 (\<lambda>hint. Inr (reservation_limit hint))))"

section \<open>WAL values\<close>

fun count_distinct :: "(byte \<Rightarrow> bool) \<Rightarrow> nat \<Rightarrow> bytes \<Rightarrow> nat" where
  "count_distinct seen n [] = n"
| "count_distinct seen n (b # bs) =
     (if seen b then count_distinct seen n bs
      else count_distinct (seen(b := True)) (n + 1) bs)"

definition is_likely_compressible :: "bytes \<Rightarrow> bool" where
  "is_likely_compressible value \<longleftrightarrow>
     value \<noteq> [] \<and>
     count_distinct (\<lambda>_. False) 0 (take (min (length value) 256) value) \<le> 128"

definition compress_wal_value_borrowed :: "codec_lib \<Rightarrow> bytes \<Rightarrow> bytes \<times> byte option" where
  "compress_wal_value_borrowed lib value =
     (if length value < min_compression_input_bytes then (value, None)
      else if \<not> is_likely_compressible value then (value, None)
      else
        let compressed = lz4_compress lib value
        in if length compressed \<ge> length value then (value, None)
           else (compressed, Some (algo_to_u8 Lz4)))"

definition decompress_wal_value :: "codec_lib \<Rightarrow> bytes \<Rightarrow> byte option \<Rightarrow> bytes midge_result" where
  "decompress_wal_value lib value compression =
     (case compression of
        None \<Rightarrow> Inr value
      | Some algo_byte \<Rightarrow>
          if algo_byte = 0 then Inr value
          else try_with
                 (ok_or (Corruption ''unknown WAL compression algorithm code'')
                   (algo_from_u8 algo_byte))
                 (decompress_block lib value))"

section \<open>Facts about the codec\<close>

lemmas codec_limits =
  min_compression_input_bytes_def max_block_size_def max_decompressed_block_size_def
  block_trailer_size_def

lemma algo_from_to_u8 [simp, wire_simps]: "algo_from_u8 (algo_to_u8 a) = Some a"
  by (cases a) (simp_all add: algo_from_u8_def)

lemma algo_to_from_u8: "algo_from_u8 b = Some a \<Longrightarrow> algo_to_u8 a = b"
  by (auto simp: algo_from_u8_def split: if_splits)

lemma enforce_decompressed_size_Inr [simp]:
  "enforce_decompressed_size n = Inr m \<longleftrightarrow> m = n \<and> n \<le> max_decompressed_block_size"
  by (auto simp: enforce_decompressed_size_def)

lemma compress_with_algo_algo: "compress_with_algo lib data algo = Inr (c, a) \<Longrightarrow> a = algo"
  by (cases algo) (auto split: option.splits)

lemma lz4_okD:
  assumes "lz4_ok lib" "length d \<le> u32_max"
  shows "lz4_decompress lib (lz4_compress lib d) = Some d"
    and "\<not> length (lz4_compress lib d) < 4"
    and "unat (u32_from_le (take 4 (lz4_compress lib d))) = length d"
  using assms by (auto simp: lz4_ok_def unat_of_nat not_less)

lemma zstd_okD:
  assumes "zstd_ok lib" "length d \<le> u64_max" "zstd_compress lib l d = Some c"
  shows "zstd_content_size lib c = Inr (Some (of_nat (length d)))"
    and "length d \<le> n \<Longrightarrow> zstd_decompress lib n c = Some d"
    and "unat (of_nat (length d) :: u64) = length d"
  using assms by (auto simp: zstd_ok_def unat_of_nat)

text \<open>What a successful compression promises its reader.\<close>

definition restores :: "codec_lib \<Rightarrow> bytes \<Rightarrow> bytes \<Rightarrow> compression_algo \<Rightarrow> bool" where
  "restores lib data c a \<longleftrightarrow>
     decompress_block lib c a = Inr data \<and>
     (\<exists>h. decompressed_len_hint lib a c = Inr h \<and> length data \<le> reservation_limit h)"

lemma restores_none [simp]: "restores lib data data AlgoNone"
  by (simp add: restores_def)

lemma restores_lz4:
  assumes "lz4_ok lib" "length data \<le> max_decompressed_block_size"
  shows "restores lib data (lz4_compress lib data) Lz4"
proof -
  have len: "length data \<le> u32_max" using assms(2) by (simp add: codec_limits)
  show ?thesis using assms(2)
    by (simp add: restores_def lz4_okD [OF assms(1) len])
qed

lemma restores_zstd:
  assumes "zstd_ok lib" "length data \<le> max_decompressed_block_size"
    and "zstd_compress lib l data = Some c" and "a = Zstd3 \<or> a = Zstd9"
  shows "restores lib data c a"
proof -
  have len: "length data \<le> u64_max" using assms(2) by (simp add: codec_limits)
  show ?thesis using assms(2,4)
    by (auto simp: restores_def zstd_okD [OF assms(1) len assms(3)])
qed

lemma compress_with_algo_restores:
  assumes "codec_lib_ok lib" "length data \<le> max_decompressed_block_size"
    and "compress_with_algo lib data algo = Inr (c, a)"
  shows "restores lib data c a"
  using assms
  by (cases algo)
     (auto simp: codec_lib_ok_def intro: restores_lz4 restores_zstd split: option.splits)

subsection \<open>The adaptive choice\<close>

text \<open>
  A candidate is an algorithm of the policy whose output qualifies; \<open>chosen\<close> says what
  the loop has kept after looking at the algorithms of a set.
\<close>

definition candidate ::
    "codec_lib \<Rightarrow> bytes \<Rightarrow> nat \<Rightarrow> (nat \<Rightarrow> nat \<Rightarrow> bool) \<Rightarrow> compression_algo \<Rightarrow> bytes \<Rightarrow> bool" where
  "candidate lib data savings ratio algo c \<longleftrightarrow>
     algo \<noteq> AlgoNone \<and> compress_with_algo lib data algo = Inr (c, algo) \<and>
     compression_qualifies (length data) (length c) savings ratio"

definition chosen ::
    "codec_lib \<Rightarrow> bytes \<Rightarrow> nat \<Rightarrow> (nat \<Rightarrow> nat \<Rightarrow> bool) \<Rightarrow> compression_algo set \<Rightarrow>
     (bytes \<times> compression_algo) option \<Rightarrow> bool" where
  "chosen lib data savings ratio A best \<longleftrightarrow>
     (case best of
        None \<Rightarrow> \<forall>algo c. algo \<in> A \<longrightarrow> \<not> candidate lib data savings ratio algo c
      | Some (c, a) \<Rightarrow> a \<in> A \<and> candidate lib data savings ratio a c \<and>
          (\<forall>algo c'. algo \<in> A \<longrightarrow> candidate lib data savings ratio algo c' \<longrightarrow>
             length c \<le> length c'))"

lemma candidate_iff:
  "candidate lib data savings ratio algo c \<longleftrightarrow>
     algo \<noteq> AlgoNone \<and> (\<exists>a. compress_with_algo lib data algo = Inr (c, a)) \<and>
     compression_qualifies (length data) (length c) savings ratio"
  by (auto simp: candidate_def dest: compress_with_algo_algo)

lemma candidate_unique:
  "candidate lib data savings ratio algo c \<Longrightarrow> candidate lib data savings ratio algo c' \<Longrightarrow> c = c'"
  by (auto simp: candidate_def)

lemma adaptive_step_cases:
  "adaptive_step lib data savings ratio algo best =
     (if \<exists>c. candidate lib data savings ratio algo c \<and>
            (\<forall>d a. best = Some (d, a) \<longrightarrow> length c < length d)
      then Some (THE c. candidate lib data savings ratio algo c, algo) else best)"
proof (cases "\<exists>c. candidate lib data savings ratio algo c")
  case True
  then obtain c where c: "candidate lib data savings ratio algo c" by blast
  then have the: "(THE c. candidate lib data savings ratio algo c) = c"
    by (blast intro: the_equality candidate_unique)
  have all: "candidate lib data savings ratio algo c' \<longleftrightarrow> c' = c" for c'
    using c candidate_unique by blast
  from c have "algo \<noteq> AlgoNone" "compress_with_algo lib data algo = Inr (c, algo)"
    "compression_qualifies (length data) (length c) savings ratio"
    by (auto simp: candidate_def)
  then show ?thesis
    by (auto simp: adaptive_step_def the all split: option.splits)
next
  case False
  then show ?thesis
    by (auto simp: adaptive_step_def candidate_iff split: sum.splits)
qed

lemma chosen_step:
  assumes "chosen lib data savings ratio A best"
  shows "chosen lib data savings ratio (insert algo A)
           (adaptive_step lib data savings ratio algo best)"
proof (cases "\<exists>c. candidate lib data savings ratio algo c")
  case True
  then obtain c where c: "candidate lib data savings ratio algo c" by blast
  then have the: "(THE c. candidate lib data savings ratio algo c) = c"
    by (blast intro: the_equality candidate_unique)
  have all: "candidate lib data savings ratio algo c' \<longleftrightarrow> c' = c" for c'
    using c candidate_unique by blast
  show ?thesis
    using assms c
    by (cases best) (force simp: chosen_def adaptive_step_cases the all)+
next
  case False
  then show ?thesis
    using assms by (cases best) (auto simp: chosen_def adaptive_step_cases)
qed

lemma chosen_fold:
  "chosen lib data savings ratio A best \<Longrightarrow>
   chosen lib data savings ratio (set algos \<union> A)
     (fold (adaptive_step lib data savings ratio) algos best)"
proof (induction algos arbitrary: A best)
  case (Cons algo algos)
  from chosen_step [OF Cons.prems] have
    "chosen lib data savings ratio (set algos \<union> insert algo A)
       (fold (adaptive_step lib data savings ratio) algos
         (adaptive_step lib data savings ratio algo best))"
    by (rule Cons.IH)
  then show ?case by simp
qed simp

lemma chosen_all:
  "chosen lib data savings ratio (set algos)
     (fold (adaptive_step lib data savings ratio) algos None)"
  using chosen_fold [of lib data savings ratio "{}" None algos] by (simp add: chosen_def)

lemma compress_block_restores:
  assumes "codec_lib_ok lib" "length data \<le> max_decompressed_block_size"
    and "compress_block lib data policy = Inr (c, a)"
  shows "restores lib data c a"
proof (cases policy)
  case (Adaptive savings ratio algos)
  show ?thesis
    using assms chosen_all [of lib data savings ratio algos] Adaptive
    by (auto simp: compress_adaptive_def chosen_def candidate_def
             intro: compress_with_algo_restores split: if_splits option.splits)
qed (use assms in \<open>auto intro: compress_with_algo_restores split: if_splits\<close>)

subsection \<open>Trailers\<close>

lemma trailer_parts:
  fixes c :: bytes
  assumes "block = (c @ [b]) @ u32_to_le w"
  shows "length block - 4 = Suc (length c)" "length block - block_trailer_size = length c"
    and "\<not> length block < block_trailer_size"
    and "block ! length c = b" "take (Suc (length c)) block = c @ [b]"
    and "take (length c) block = c"
    and "slice block (Suc (length c)) (Suc (length c) + 4) = u32_to_le w"
      "slice block (Suc (length c)) (5 + length c) = u32_to_le w"
  using assms by (simp_all add: block_trailer_size_def slice_def nth_append)

lemma is_likely_compressible_count:
  "count_distinct seen n bs = n + card (set bs - Collect seen)"
proof (induction seen n bs rule: count_distinct.induct)
  case (2 seen n b bs)
  show ?case
  proof (cases "seen b")
    case True
    then have "set (b # bs) - Collect seen = set bs - Collect seen" by auto
    with True 2 show ?thesis by simp
  next
    case False
    have "Collect (seen(b := True)) = insert b (Collect seen)" by auto
    moreover have "set (b # bs) - Collect seen = insert b (set bs - insert b (Collect seen))"
      using False by auto
    ultimately show ?thesis
      using False "2.IH"(2) [OF False] by (simp del: fun_upd_apply)
  qed
qed simp

lemma is_likely_compressible_card:
  "is_likely_compressible value \<longleftrightarrow> value \<noteq> [] \<and> card (set (take 256 value)) \<le> 128"
  by (simp add: is_likely_compressible_def is_likely_compressible_count min_def take_all_iff)

lemma wal_value_restores:
  assumes "lz4_ok lib" "length v \<le> max_decompressed_block_size"
    and "compress_wal_value_borrowed lib v = (e, m)"
  shows "decompress_wal_value lib e m = Inr v" "length e \<le> length v" "m \<noteq> Some 0"
  using assms restores_lz4 [OF assms(1,2)]
  by (auto simp: compress_wal_value_borrowed_def decompress_wal_value_def restores_def Let_def
      algo_from_u8_def split: if_splits)

section \<open>Properties\<close>

text \<open>
  A library that stores its input behind a length prefix: it satisfies the contract of the
  compressors and is what the witnesses run on.
\<close>

definition stored_lib :: codec_lib where
  "stored_lib =
     \<lparr>lz4_compress = (\<lambda>d. u32_to_le (of_nat (length d)) @ d),
      lz4_decompress = (\<lambda>c. if length c - 4 \<le> unat (u32_from_le (take 4 c))
                            then Some (drop 4 c) else None),
      zstd_compress = (\<lambda>_ d. Some (u64_to_le (of_nat (length d)) @ d)),
      zstd_decompress = (\<lambda>n c. if length c - 8 \<le> n then Some (drop 8 c) else None),
      zstd_content_size = (\<lambda>c. Inr (Some (u64_from_le (take 8 c)))),
      crc32c = (\<lambda>d. of_nat (sum_list (map unat d))),
      xxh3_128 = (\<lambda>d. of_nat (length d + sum_list (map unat d)))\<rparr>"

lemma stored_lib_ok: "codec_lib_ok stored_lib" "lz4_ok stored_lib" "decoders_bounded stored_lib"
  by (auto simp: codec_lib_ok_def lz4_ok_def zstd_ok_def decoders_bounded_def stored_lib_def
      unat_of_nat split: if_splits)

text \<open>
  C36. A block written under any compression policy reads back: when the data is within the
  decoded-size limit, stripping and verifying the trailer and decompressing gives the
  original bytes, and the size reserved before the decode is enough for them.
\<close>

theorem block_roundtrip:
  assumes "codec_lib_ok lib" "length data \<le> max_decompressed_block_size"
    and "compress_block_with_trailer lib data policy = Inr block"
  shows "decompress_block_with_trailer lib block = Inr data \<and>
         (\<exists>n. decompressed_size_with_trailer lib block = Inr n \<and> length data \<le> n)"
proof -
  from assms(3) obtain c a where c: "compress_block lib data policy = Inr (c, a)"
    and block: "block = (c @ [algo_to_u8 a]) @ u32_to_le (crc32c lib (c @ [algo_to_u8 a]))"
    by (auto simp: compress_block_with_trailer_def Let_def simp del: compress_block.simps)
  from compress_block_restores [OF assms(1,2) c] show ?thesis
    by (auto simp: decompress_block_with_trailer_def decompressed_size_with_trailer_def Let_def
        trailer_parts [OF block] restores_def)
qed

theorem block_roundtrip_witness:
  "\<exists>block. compress_block_with_trailer stored_lib (replicate 300 7) (Fixed Lz4) = Inr block \<and>
     decompress_block_with_trailer stored_lib block = Inr (replicate 300 7)"
proof -
  obtain block where b:
    "compress_block_with_trailer stored_lib (replicate 300 7) (Fixed Lz4) = Inr block"
    by (simp add: compress_block_with_trailer_def Let_def codec_limits)
  have "length (replicate 300 (7 :: byte)) \<le> max_decompressed_block_size"
    by (simp add: codec_limits)
  from block_roundtrip [OF stored_lib_ok(1) this b] b show ?thesis by blast
qed

text \<open>
  C37. Whatever bytes a block holds, what decoding it yields fits in the size reserved for it
  first, and that reservation never exceeds the larger of the block itself and the hard
  ceiling for decoded blocks.
\<close>

theorem decode_within_reservation:
  assumes "decoders_bounded lib" "decompress_block_with_trailer lib block = Inr data"
  shows "\<exists>n. decompressed_size_with_trailer lib block = Inr n \<and> length data \<le> n \<and>
             n \<le> max (length block) max_decompressed_block_size"
proof -
  let ?k = "length block - block_trailer_size"
  from assms(2) obtain algo where
    a: "\<not> length block < block_trailer_size" "algo_from_u8 (block ! ?k) = Some algo"
      "decompress_block lib (take ?k block) algo = Inr data"
    by (auto simp: decompress_block_with_trailer_def Let_def split: if_splits)
  then have "\<exists>h. decompressed_len_hint lib algo (take ?k block) = Inr h \<and>
      length data \<le> reservation_limit h \<and>
      reservation_limit h \<le> max (length block) max_decompressed_block_size"
    using assms(1)
    by (cases algo)
       (auto simp: decoders_bounded_def codec_limits max_def
         split: if_splits sum.splits option.splits dest!: spec)
  with a show ?thesis
    by (auto simp: decompressed_size_with_trailer_def Let_def)
qed

theorem decode_within_reservation_witness:
  "decompress_block_with_trailer stored_lib [5, 9, 0, 14, 0, 0, 0] = Inr [5, 9] \<and>
   (\<exists>n. decompressed_size_with_trailer stored_lib [5, 9, 0, 14, 0, 0, 0] = Inr n \<and> 2 \<le> n)"
proof -
  have d: "decompress_block_with_trailer stored_lib [5, 9, 0, 14, 0, 0, 0] = Inr [5, 9]"
    by code_simp
  with decode_within_reservation [OF stored_lib_ok(3) d] show ?thesis by auto
qed

text \<open>
  The adaptive policy returns the best qualifying result: its output is never longer than
  the data, it is stored raw exactly when no listed algorithm qualifies, and otherwise no
  qualifying algorithm of the list gives a shorter one.
\<close>

theorem adaptive_best:
  assumes "compress_adaptive lib data savings ratio algos = (c, a)"
  shows "length c \<le> length data \<and>
    (a = AlgoNone \<longleftrightarrow>
      (\<forall>algo\<in>set algos. \<forall>d. \<not> candidate lib data savings ratio algo d)) \<and>
    (a = AlgoNone \<longrightarrow> c = data) \<and>
    (\<forall>algo\<in>set algos. \<forall>d. candidate lib data savings ratio algo d \<longrightarrow> length c \<le> length d)"
  using assms chosen_all [of lib data savings ratio algos]
  by (auto simp: compress_adaptive_def chosen_def candidate_def compression_qualifies_def
      split: option.splits)

theorem adaptive_best_witness:
  "compress_adaptive stored_lib [1, 2, 3] 0 (\<lambda>_ _. True) [Zstd3, Lz4] = ([1, 2, 3], AlgoNone) \<and>
   \<not> candidate stored_lib [1, 2, 3] 0 (\<lambda>_ _. True) Lz4 [3, 0, 0, 0, 1, 2, 3]"
proof -
  have c: "compress_adaptive stored_lib [1, 2, 3] 0 (\<lambda>_ _. True) [Zstd3, Lz4] =
      ([1, 2, 3], AlgoNone)"
    by code_simp
  from adaptive_best [OF c] c show ?thesis by simp
qed

text \<open>
  WAL values: the encoder never makes a value longer, marks it compressed only when it
  compressed it, and the decoder restores it from the bytes and the marker.
\<close>

theorem wal_value_roundtrip:
  assumes "lz4_ok lib" "length v \<le> max_decompressed_block_size"
  shows "case compress_wal_value_borrowed lib v of (e, m) \<Rightarrow>
    decompress_wal_value lib e m = Inr v \<and> length e \<le> length v \<and>
    (m = None \<longrightarrow> e = v) \<and> (m \<noteq> None \<longrightarrow> length e < length v)"
  using wal_value_restores [OF assms]
  by (auto simp: compress_wal_value_borrowed_def Let_def split: if_splits)

theorem wal_value_roundtrip_witness:
  "case compress_wal_value_borrowed stored_lib (replicate 300 7) of (e, m) \<Rightarrow>
     decompress_wal_value stored_lib e m = Inr (replicate 300 7)"
proof -
  have "length (replicate 300 (7 :: byte)) \<le> max_decompressed_block_size"
    by (simp add: codec_limits)
  from wal_value_roundtrip [OF stored_lib_ok(2) this] show ?thesis by auto
qed

end
