(* ===== verification/Wal_Encoding.thy ===== *)
theory Wal_Encoding
  imports Codec
begin

text \<open>
  The WAL record payloads of \<^verbatim>\<open>src/src/wal/encoding.rs\<close> and the types of
  \<^verbatim>\<open>src/src/wal/types.rs\<close>: a record is a magic, a version and a list of tag-length-value
  fields; a transaction batch is a counted list of operations nested in the value of one
  record. Writers append to a buffer and may fail half way, so they are functions from a
  buffer to a result and the buffer they leave.
\<close>

section \<open>Operations and records\<close>

datatype wal_op_kind =
    OpPut | OpInsert | OpDelete | OpDeleteRange | OpTxnBegin | OpTxnCommit | OpTxnBatch

datatype wal_op_role =
    ValueWrite | PointDelete | RangeDelete | TransactionBegin | TransactionCommit
  | TransactionBatch

fun op_role :: "wal_op_kind \<Rightarrow> wal_op_role" where
  "op_role OpPut = ValueWrite"
| "op_role OpInsert = ValueWrite"
| "op_role OpDelete = PointDelete"
| "op_role OpDeleteRange = RangeDelete"
| "op_role OpTxnBegin = TransactionBegin"
| "op_role OpTxnCommit = TransactionCommit"
| "op_role OpTxnBatch = TransactionBatch"

definition is_transaction_marker :: "wal_op_kind \<Rightarrow> bool" where
  "is_transaction_marker op \<longleftrightarrow>
     op_role op \<in> {TransactionBegin, TransactionCommit, TransactionBatch}"

definition is_transaction_batch :: "wal_op_kind \<Rightarrow> bool" where
  "is_transaction_batch op \<longleftrightarrow> op_role op = TransactionBatch"

fun op_to_wire :: "wal_op_kind \<Rightarrow> byte" where
  "op_to_wire OpPut = 0"
| "op_to_wire OpInsert = 1"
| "op_to_wire OpDelete = 2"
| "op_to_wire OpDeleteRange = 3"
| "op_to_wire OpTxnBegin = 4"
| "op_to_wire OpTxnCommit = 5"
| "op_to_wire OpTxnBatch = 6"

definition op_from_wire :: "byte \<Rightarrow> wal_op_kind midge_result" where
  "op_from_wire b =
     (if b = 0 then Inr OpPut
      else if b = 1 then Inr OpInsert
      else if b = 2 then Inr OpDelete
      else if b = 3 then Inr OpDeleteRange
      else if b = 4 then Inr OpTxnBegin
      else if b = 5 then Inr OpTxnCommit
      else if b = 6 then Inr OpTxnBatch
      else Inl (Corruption ''Invalid WAL operation type''))"

record wal_record =
  w_cf_id :: u32
  w_op :: wal_op_kind
  w_key :: bytes
  w_value :: "bytes option"
  w_seq :: u64
  w_expiration :: "u64 option"
  w_range_end :: "bytes option"
  w_txn_id :: "u64 option"

record wal_record_view =
  v_cf_id :: u32
  v_op :: wal_op_kind
  v_key :: bytes
  v_value :: "bytes option"
  v_seq :: u64
  v_expiration :: "u64 option"
  v_range_end :: "bytes option"
  v_txn_id :: "u64 option"
  v_compression :: "byte option"

section \<open>Constants\<close>

definition wal_magic :: bytes where "wal_magic = [77, 87]"
definition wal_version :: byte where "wal_version = 2"
definition prefix_len :: nat where "prefix_len = 3"
definition tlv_header_len :: nat where "tlv_header_len = 5"
definition wal_max_record_len :: nat where "wal_max_record_len = 64 * 1024 * 1024"
definition wal_max_value_len :: nat where "wal_max_value_len = max_decompressed_block_size"
definition wal_frame_header_len :: nat where "wal_frame_header_len = 8"

abbreviation tag_op :: byte where "tag_op \<equiv> 1"
abbreviation tag_cf_id :: byte where "tag_cf_id \<equiv> 2"
abbreviation tag_seq :: byte where "tag_seq \<equiv> 3"
abbreviation tag_key :: byte where "tag_key \<equiv> 4"
abbreviation tag_value :: byte where "tag_value \<equiv> 5"
abbreviation tag_expiration :: byte where "tag_expiration \<equiv> 6"
abbreviation tag_range_end :: byte where "tag_range_end \<equiv> 7"
abbreviation tag_txn_id :: byte where "tag_txn_id \<equiv> 8"
abbreviation tag_compression :: byte where "tag_compression \<equiv> 9"

section \<open>Sizes\<close>

definition add_capacity :: "nat \<Rightarrow> nat \<Rightarrow> nat midge_result" where
  "add_capacity capacity delta =
     ok_or (InvalidArgument ''record size overflow'') (checked_add_usize capacity delta)"

definition add_capacity_opt :: "'a option \<Rightarrow> ('a \<Rightarrow> nat) \<Rightarrow> nat \<Rightarrow> nat midge_result" where
  "add_capacity_opt field delta capacity =
     (case field of None \<Rightarrow> Inr capacity | Some x \<Rightarrow> add_capacity capacity (delta x))"

definition payload_capacity :: "wal_record \<Rightarrow> nat midge_result" where
  "payload_capacity r =
     try_with (add_capacity prefix_len (tlv_header_len + 1)) (\<lambda>c.
     try_with (add_capacity c (tlv_header_len + 4)) (\<lambda>c.
     try_with (add_capacity c (tlv_header_len + 8)) (\<lambda>c.
     try_with (add_capacity c (tlv_header_len + length (w_key r))) (\<lambda>c.
     try_with (add_capacity_opt (w_value r) (\<lambda>v. tlv_header_len + length v) c) (\<lambda>c.
     try_with (add_capacity_opt (w_expiration r) (\<lambda>_. tlv_header_len + 8) c) (\<lambda>c.
     try_with (add_capacity_opt (w_range_end r) (\<lambda>e. tlv_header_len + length e) c) (\<lambda>c.
     add_capacity_opt (w_txn_id r) (\<lambda>_. tlv_header_len + 8) c)))))))"

definition encoded_frame_len :: "nat \<Rightarrow> nat midge_result" where
  "encoded_frame_len payload_len =
     (if payload_len > wal_max_record_len
      then Inl (InvalidArgument ''WAL record length exceeds max frame size'')
      else if payload_len > u32_max
      then Inl (InvalidArgument ''WAL record length exceeds u32::MAX'')
      else Inr (wal_frame_header_len + payload_len))"

definition record_frame_size_bound :: "wal_record \<Rightarrow> nat midge_result" where
  "record_frame_size_bound r =
     try_with (payload_capacity r) (\<lambda>c.
     try_with (add_capacity c (tlv_header_len + 1)) encoded_frame_len)"

section \<open>Writing a record\<close>

type_synonym writer = "bytes \<Rightarrow> unit midge_result \<times> bytes"

definition w_then :: "writer \<Rightarrow> writer \<Rightarrow> writer" where
  "w_then f g buf = (case f buf of (Inl e, b) \<Rightarrow> (Inl e, b) | (Inr _, b) \<Rightarrow> g b)"

definition w_skip :: writer where
  "w_skip buf = (Inr (), buf)"

definition w_bytes :: "bytes \<Rightarrow> writer" where
  "w_bytes bs buf = (Inr (), buf @ bs)"

definition w_opt :: "'a option \<Rightarrow> ('a \<Rightarrow> writer) \<Rightarrow> writer" where
  "w_opt field f = (case field of None \<Rightarrow> w_skip | Some x \<Rightarrow> f x)"

definition push_tlv :: "byte \<Rightarrow> bytes \<Rightarrow> writer" where
  "push_tlv tag val buf =
     (if length val > u32_max
      then (Inl (InvalidArgument ''TLV value exceeds u32::MAX''), buf)
      else (Inr (), buf @ [tag] @ u32_to_le (of_nat (length val)) @ val))"

definition push_u8 :: "byte \<Rightarrow> byte \<Rightarrow> writer" where
  "push_u8 tag v = push_tlv tag [v]"

definition push_u32 :: "byte \<Rightarrow> u32 \<Rightarrow> writer" where
  "push_u32 tag v = push_tlv tag (u32_to_le v)"

definition push_u64 :: "byte \<Rightarrow> u64 \<Rightarrow> writer" where
  "push_u64 tag v = push_tlv tag (u64_to_le v)"

definition encode_value :: "codec_lib \<Rightarrow> bytes \<Rightarrow> writer" where
  "encode_value lib v buf =
     (if length v > wal_max_value_len
      then (Inl (ResourceLimit ''WAL record value is too large for replay''), buf)
      else
        let (write_val, comp_byte) = compress_wal_value_borrowed lib v
        in w_then (push_tlv tag_value write_val) (w_opt comp_byte (push_u8 tag_compression)) buf)"

definition encode_into_inner :: "codec_lib \<Rightarrow> wal_record \<Rightarrow> writer" where
  "encode_into_inner lib r buf =
     (case payload_capacity r of
        Inl e \<Rightarrow> (Inl e, buf)
      | Inr _ \<Rightarrow>
          w_then (w_bytes (wal_magic @ [wal_version]))
         (w_then (push_u8 tag_op (op_to_wire (w_op r)))
         (w_then (push_u32 tag_cf_id (w_cf_id r))
         (w_then (push_u64 tag_seq (w_seq r))
         (w_then (push_tlv tag_key (w_key r))
         (w_then (w_opt (w_value r) (encode_value lib))
         (w_then (w_opt (w_expiration r) (push_u64 tag_expiration))
         (w_then (w_opt (w_range_end r) (push_tlv tag_range_end))
                 (w_opt (w_txn_id r) (push_u64 tag_txn_id))))))))) buf)"

definition encode_into :: "codec_lib \<Rightarrow> wal_record \<Rightarrow> writer" where
  "encode_into lib r buf =
     (case encode_into_inner lib r buf of
        (Inl e, b) \<Rightarrow> (Inl e, take (length buf) b)
      | (Inr u, b) \<Rightarrow> (Inr u, b))"

definition wal_encode :: "codec_lib \<Rightarrow> wal_record \<Rightarrow> bytes midge_result" where
  "wal_encode lib r =
     try_with (payload_capacity r) (\<lambda>_.
       case encode_into lib r [] of (Inl e, _) \<Rightarrow> Inl e | (Inr _, buf) \<Rightarrow> Inr buf)"

section \<open>Reading a record\<close>

function scan_tlvs :: "('s \<Rightarrow> byte \<times> bytes \<Rightarrow> 's midge_result) \<Rightarrow> 's \<Rightarrow> bytes \<Rightarrow> 's midge_result"
where
  "scan_tlvs f s data =
     (if data = [] then Inr s
      else if length data < tlv_header_len then Inl (Corruption ''truncated TLV header'')
      else
        let tag = data ! 0;
            len = unat (u32_from_le (slice data 1 5));
            rest = drop tlv_header_len data
        in if length rest < len then Inl (Corruption ''truncated TLV value'')
           else try_with (f s (tag, take len rest)) (\<lambda>s'. scan_tlvs f s' (drop len rest)))"
  by pat_completeness auto
termination
  by (relation "measure (\<lambda>(f, s, data). length data)") (auto simp: tlv_header_len_def)

declare scan_tlvs.simps [simp del]

record tlv_fields =
  f_op :: "wal_op_kind option"
  f_cf_id :: "u32 option"
  f_seq :: "u64 option"
  f_key :: "bytes option"
  f_value :: "bytes option"
  f_expiration :: "u64 option"
  f_range_end :: "bytes option"
  f_txn_id :: "u64 option"
  f_compression :: "byte option"

definition no_fields :: tlv_fields where
  "no_fields = \<lparr>f_op = None, f_cf_id = None, f_seq = None, f_key = None, f_value = None,
     f_expiration = None, f_range_end = None, f_txn_id = None, f_compression = None\<rparr>"

definition take_field :: "tlv_fields \<Rightarrow> byte \<times> bytes \<Rightarrow> tlv_fields midge_result" where
  "take_field s = (\<lambda>(tag, val).
     (if tag = tag_op then
        if length val \<noteq> 1 then Inl (Corruption ''bad OP length'')
        else try_with (op_from_wire (val ! 0)) (\<lambda>op. Inr (s\<lparr>f_op := Some op\<rparr>))
      else if tag = tag_cf_id then
        if length val \<noteq> 4 then Inl (Corruption ''bad CF_ID length'')
        else Inr (s\<lparr>f_cf_id := Some (u32_from_le val)\<rparr>)
      else if tag = tag_seq then
        if length val \<noteq> 8 then Inl (Corruption ''bad SEQ length'')
        else Inr (s\<lparr>f_seq := Some (u64_from_le val)\<rparr>)
      else if tag = tag_key then Inr (s\<lparr>f_key := Some val\<rparr>)
      else if tag = tag_value then Inr (s\<lparr>f_value := Some val\<rparr>)
      else if tag = tag_expiration then
        if length val \<noteq> 8 then Inl (Corruption ''bad EXPIRATION length'')
        else Inr (s\<lparr>f_expiration := Some (u64_from_le val)\<rparr>)
      else if tag = tag_range_end then Inr (s\<lparr>f_range_end := Some val\<rparr>)
      else if tag = tag_txn_id then
        if length val \<noteq> 8 then Inl (Corruption ''bad TXN_ID length'')
        else Inr (s\<lparr>f_txn_id := Some (u64_from_le val)\<rparr>)
      else if tag = tag_compression then
        if length val \<noteq> 1 then Inl (Corruption ''bad COMPRESSION length'')
        else Inr (s\<lparr>f_compression := Some (val ! 0)\<rparr>)
      else Inr s))"

definition reject_op_specific_corruption :: "wal_op_kind \<Rightarrow> bool \<Rightarrow> bool \<Rightarrow> unit midge_result" where
  "reject_op_specific_corruption op has_value has_range_end =
     (if op_role op = ValueWrite \<and> \<not> has_value
      then Inl (Corruption ''record is missing its VALUE tag'')
      else if op_role op = RangeDelete \<and> \<not> has_range_end
      then Inl (Corruption ''DeleteRange record is missing its RANGE_END tag'')
      else if op_role op = PointDelete \<and> has_value
      then Inl (Corruption ''Delete record carries a VALUE tag'')
      else Inr ())"

definition view_of_fields :: "tlv_fields \<Rightarrow> wal_record_view midge_result" where
  "view_of_fields s =
     (if f_compression s \<noteq> None \<and> f_value s = None
      then Inl (Corruption ''COMPRESSION tag is present without VALUE'')
      else
        try_with (ok_or (Corruption ''missing OP'') (f_op s)) (\<lambda>op.
        try_with (reject_op_specific_corruption op (f_value s \<noteq> None) (f_range_end s \<noteq> None)) (\<lambda>_.
        try_with (ok_or (Corruption ''missing CF_ID'') (f_cf_id s)) (\<lambda>cf.
        try_with (ok_or (Corruption ''missing SEQ'') (f_seq s)) (\<lambda>sq.
        try_with (ok_or (Corruption ''missing KEY'') (f_key s)) (\<lambda>k.
          Inr \<lparr>v_cf_id = cf, v_op = op, v_key = k, v_value = f_value s, v_seq = sq,
               v_expiration = f_expiration s, v_range_end = f_range_end s,
               v_txn_id = f_txn_id s, v_compression = f_compression s\<rparr>))))))"

definition decode_view :: "bytes \<Rightarrow> wal_record_view midge_result" where
  "decode_view data =
     (if length data < prefix_len then Inl (Corruption ''truncated WAL payload prefix'')
      else if take 2 data \<noteq> wal_magic then Inl (Corruption ''invalid WAL payload magic'')
      else if data ! 2 \<noteq> wal_version then Inl (Corruption ''unsupported WAL payload version'')
      else try_with (scan_tlvs take_field no_fields (drop prefix_len data)) view_of_fields)"

definition wal_decode :: "codec_lib \<Rightarrow> bytes \<Rightarrow> wal_record midge_result" where
  "wal_decode lib data =
     try_with (decode_view data) (\<lambda>view.
     try_with
       (case v_value view of
          None \<Rightarrow> Inr None
        | Some raw \<Rightarrow>
            try_with (decompress_wal_value lib raw (v_compression view)) (\<lambda>v. Inr (Some v)))
       (\<lambda>value.
         Inr \<lparr>w_cf_id = v_cf_id view, w_op = v_op view, w_key = v_key view, w_value = value,
              w_seq = v_seq view, w_expiration = v_expiration view,
              w_range_end = v_range_end view, w_txn_id = v_txn_id view\<rparr>))"

section \<open>Facts about records\<close>

lemmas wal_consts =
  wal_magic_def wal_version_def prefix_len_def tlv_header_len_def wal_max_record_len_def
  wal_max_value_len_def wal_frame_header_len_def max_decompressed_block_size_def

lemma op_from_to_wire [simp, wire_simps]: "op_from_wire (op_to_wire op) = Inr op"
  by (cases op) (simp_all add: op_from_wire_def)

lemma op_to_from_wire: "op_from_wire b = Inr op \<Longrightarrow> op_to_wire op = b"
  by (auto simp: op_from_wire_def split: if_splits)

lemma add_capacity_Inr [simp]:
  "add_capacity c d = Inr n \<longleftrightarrow> c + d \<le> usize_max \<and> n = c + d"
  by (auto simp: add_capacity_def checked_add_usize_def)

lemma encoded_frame_len_Inr [simp]:
  "encoded_frame_len n = Inr m \<longleftrightarrow> n \<le> wal_max_record_len \<and> m = wal_frame_header_len + n"
  by (auto simp: encoded_frame_len_def wal_consts)

subsection \<open>Writers\<close>

text \<open>A writer only appends, whether it succeeds or fails.\<close>

definition appends :: "writer \<Rightarrow> bool" where
  "appends w \<longleftrightarrow> (\<forall>buf. \<exists>x. snd (w buf) = buf @ x)"

lemma appends_basic [intro!]:
  "appends w_skip" "appends (w_bytes bs)" "appends (push_tlv t v)"
  "appends (push_u8 t b)" "appends (push_u32 t c)" "appends (push_u64 t d)"
  by (auto simp: appends_def w_skip_def w_bytes_def push_tlv_def push_u8_def push_u32_def
      push_u64_def)

lemma appends_then [intro!]: "appends f \<Longrightarrow> appends g \<Longrightarrow> appends (w_then f g)"
proof -
  assume f: "appends f" and g: "appends g"
  show "appends (w_then f g)"
    unfolding appends_def
  proof
    fix buf
    from f obtain x where x: "snd (f buf) = buf @ x" by (auto simp: appends_def)
    from g obtain y where "snd (g (buf @ x)) = (buf @ x) @ y" unfolding appends_def by blast
    with x show "\<exists>z. snd (w_then f g buf) = buf @ z"
      by (auto simp: w_then_def split: prod.split sum.split)
  qed
qed

lemma appends_opt [intro!]: "(\<And>x. appends (f x)) \<Longrightarrow> appends (w_opt field f)"
  by (auto simp: w_opt_def split: option.split)

lemma appends_encode_value [intro!]: "appends (encode_value lib v)"
proof -
  have "\<exists>x. snd (w_then (push_tlv t e) (w_opt m (push_u8 c)) buf) = buf @ x" for t e m c buf
    using appends_then [of "push_tlv t e" "w_opt m (push_u8 c)"]
    by (fastforce simp: appends_def)
  then show ?thesis
    by (simp add: appends_def encode_value_def split: prod.split)
qed

lemma appends_encode_into_inner: "\<exists>x. snd (encode_into_inner lib r buf) = buf @ x"
proof -
  have "appends (w_then (w_bytes (wal_magic @ [wal_version]))
         (w_then (push_u8 tag_op (op_to_wire (w_op r)))
         (w_then (push_u32 tag_cf_id (w_cf_id r))
         (w_then (push_u64 tag_seq (w_seq r))
         (w_then (push_tlv tag_key (w_key r))
         (w_then (w_opt (w_value r) (encode_value lib))
         (w_then (w_opt (w_expiration r) (push_u64 tag_expiration))
         (w_then (w_opt (w_range_end r) (push_tlv tag_range_end))
                 (w_opt (w_txn_id r) (push_u64 tag_txn_id))))))))))"
    by (intro appends_then appends_basic appends_opt appends_encode_value)
  then show ?thesis by (auto simp: encode_into_inner_def appends_def split: sum.split)
qed

lemma encode_into_failed: "encode_into lib r buf = (Inl e, b) \<Longrightarrow> b = buf"
  using appends_encode_into_inner [of lib r buf]
  by (auto simp: encode_into_def split: prod.splits sum.splits)

subsection \<open>The fields of a record\<close>

definition enc_tlv :: "byte \<times> bytes \<Rightarrow> bytes" where
  "enc_tlv = (\<lambda>(tag, val). [tag] @ u32_to_le (of_nat (length val)) @ val)"

definition value_tlvs :: "codec_lib \<Rightarrow> bytes \<Rightarrow> (byte \<times> bytes) list" where
  "value_tlvs lib v =
     (case compress_wal_value_borrowed lib v of
        (e, None) \<Rightarrow> [(tag_value, e)]
      | (e, Some c) \<Rightarrow> [(tag_value, e), (tag_compression, [c])])"

definition opt_tlvs :: "('a \<Rightarrow> (byte \<times> bytes) list) \<Rightarrow> 'a option \<Rightarrow> (byte \<times> bytes) list" where
  "opt_tlvs f field = (case field of None \<Rightarrow> [] | Some x \<Rightarrow> f x)"

definition record_tlvs :: "codec_lib \<Rightarrow> wal_record \<Rightarrow> (byte \<times> bytes) list" where
  "record_tlvs lib r =
     [(tag_op, [op_to_wire (w_op r)]), (tag_cf_id, u32_to_le (w_cf_id r)),
      (tag_seq, u64_to_le (w_seq r)), (tag_key, w_key r)] @
     opt_tlvs (value_tlvs lib) (w_value r) @
     opt_tlvs (\<lambda>x. [(tag_expiration, u64_to_le x)]) (w_expiration r) @
     opt_tlvs (\<lambda>x. [(tag_range_end, x)]) (w_range_end r) @
     opt_tlvs (\<lambda>x. [(tag_txn_id, u64_to_le x)]) (w_txn_id r)"

definition small_tlvs :: "(byte \<times> bytes) list \<Rightarrow> bool" where
  "small_tlvs ts \<longleftrightarrow> list_all (\<lambda>(_, v). length v \<le> u32_max) ts"

lemma scan_tlvs_enc:
  "small_tlvs ts \<Longrightarrow> scan_tlvs f s (concat (map enc_tlv ts)) = apply_edits f s ts"
proof (induction ts arbitrary: s)
  case Nil
  then show ?case by (simp add: scan_tlvs.simps)
next
  case (Cons x ts)
  obtain t v where x: "x = (t, v)" by (cases x)
  define rest where "rest = concat (map enc_tlv ts)"
  define data where "data = enc_tlv x @ rest"
  from Cons.prems have len: "length v \<le> u32_max" "small_tlvs ts"
    by (simp_all add: small_tlvs_def x)
  have "data \<noteq> []" "\<not> length data < tlv_header_len" "data ! 0 = t"
    "slice data 1 5 = u32_to_le (of_nat (length v))" "drop tlv_header_len data = v @ rest"
    by (simp_all add: data_def enc_tlv_def x tlv_header_len_def slice_def)
  moreover have "unat (of_nat (length v) :: u32) = length v"
    using len(1) by (simp add: unat_of_nat)
  ultimately have "scan_tlvs f s data = try_with (f s (t, v)) (\<lambda>s'. scan_tlvs f s' rest)"
    by (subst scan_tlvs.simps) (simp add: Let_def)
  with Cons.IH len(2) show ?case by (simp add: x data_def rest_def cong: try_with_cong)
qed

text \<open>What a sequence of writes did when it succeeded.\<close>

definition writes :: "writer \<Rightarrow> (byte \<times> bytes) list \<Rightarrow> bool" where
  "writes w ts \<longleftrightarrow>
     (\<forall>buf u b. w buf = (Inr u, b) \<longrightarrow> b = buf @ concat (map enc_tlv ts) \<and> small_tlvs ts)"

lemma writes_push [intro!]:
  "writes (push_tlv t v) [(t, v)]" "writes (push_u8 t b) [(t, [b])]"
  "writes (push_u32 t c) [(t, u32_to_le c)]" "writes (push_u64 t d) [(t, u64_to_le d)]"
  by (auto simp: writes_def push_tlv_def push_u8_def push_u32_def push_u64_def enc_tlv_def
      small_tlvs_def split: if_splits)

lemma writes_then [intro]: "writes f ts \<Longrightarrow> writes g us \<Longrightarrow> writes (w_then f g) (ts @ us)"
  by (fastforce simp: writes_def w_then_def small_tlvs_def split: prod.splits sum.splits)

lemma writes_opt [intro]: "(\<And>x. writes (f x) (g x)) \<Longrightarrow> writes (w_opt field f) (opt_tlvs g field)"
  by (auto simp: writes_def w_opt_def w_skip_def opt_tlvs_def small_tlvs_def split: option.splits)

lemma writes_value [intro]: "writes (encode_value lib v) (value_tlvs lib v)"
proof -
  obtain e m where em: "compress_wal_value_borrowed lib v = (e, m)" by fastforce
  have "writes (w_then (push_tlv tag_value e) (w_opt m (push_u8 tag_compression)))
      ([(tag_value, e)] @ opt_tlvs (\<lambda>c. [(tag_compression, [c])]) m)"
    by (intro writes_then writes_push writes_opt)
  then show ?thesis
    by (cases m) (auto simp: writes_def encode_value_def em value_tlvs_def opt_tlvs_def
        split: if_splits)
qed

lemma encode_into_inner_bytes:
  assumes "encode_into_inner lib r buf = (Inr u, b)"
  shows "b = buf @ wal_magic @ [wal_version] @ concat (map enc_tlv (record_tlvs lib r)) \<and>
         small_tlvs (record_tlvs lib r)"
proof -
  let ?w = "w_then (push_u8 tag_op (op_to_wire (w_op r)))
         (w_then (push_u32 tag_cf_id (w_cf_id r))
         (w_then (push_u64 tag_seq (w_seq r))
         (w_then (push_tlv tag_key (w_key r))
         (w_then (w_opt (w_value r) (encode_value lib))
         (w_then (w_opt (w_expiration r) (push_u64 tag_expiration))
         (w_then (w_opt (w_range_end r) (push_tlv tag_range_end))
                 (w_opt (w_txn_id r) (push_u64 tag_txn_id))))))))"
  have "writes ?w ([(tag_op, [op_to_wire (w_op r)])] @ [(tag_cf_id, u32_to_le (w_cf_id r))] @
      [(tag_seq, u64_to_le (w_seq r))] @ [(tag_key, w_key r)] @
      opt_tlvs (value_tlvs lib) (w_value r) @
      opt_tlvs (\<lambda>x. [(tag_expiration, u64_to_le x)]) (w_expiration r) @
      opt_tlvs (\<lambda>x. [(tag_range_end, x)]) (w_range_end r) @
      opt_tlvs (\<lambda>x. [(tag_txn_id, u64_to_le x)]) (w_txn_id r))"
    by (intro writes_then writes_push writes_opt writes_value)
  then have "writes ?w (record_tlvs lib r)" by (simp add: record_tlvs_def)
  moreover from assms have "?w (buf @ wal_magic @ [wal_version]) = (Inr u, b)"
    by (simp add: encode_into_inner_def w_then_def [of "w_bytes _"] w_bytes_def split: sum.splits)
  ultimately show ?thesis unfolding writes_def by (metis append_assoc)
qed

lemma w_then_Inr:
  "w_then f g buf = (Inr u, b) \<longleftrightarrow> (\<exists>u' b'. f buf = (Inr u', b') \<and> g b' = (Inr u, b))"
  by (auto simp: w_then_def split: prod.splits sum.splits)

lemma encode_into_inner_value:
  assumes "encode_into_inner lib r buf = (Inr u, b)" "w_value r = Some v"
  shows "length v \<le> wal_max_value_len"
  using assms
  by (auto simp: encode_into_inner_def w_then_Inr w_opt_def encode_value_def
      split: sum.splits if_splits)

lemma wal_encode_Inr:
  assumes "wal_encode lib r = Inr p"
  shows "p = wal_magic @ [wal_version] @ concat (map enc_tlv (record_tlvs lib r))"
    and "small_tlvs (record_tlvs lib r)"
    and "w_value r = Some v \<Longrightarrow> length v \<le> wal_max_value_len"
proof -
  from assms obtain u where "encode_into_inner lib r [] = (Inr u, p)"
    by (auto simp: wal_encode_def encode_into_def split: prod.splits sum.splits)
  from encode_into_inner_bytes [OF this] encode_into_inner_value [OF this]
  show "p = wal_magic @ [wal_version] @ concat (map enc_tlv (record_tlvs lib r))"
    and "small_tlvs (record_tlvs lib r)"
    and "w_value r = Some v \<Longrightarrow> length v \<le> wal_max_value_len"
    by auto
qed

lemma take_field_value:
  "apply_edits take_field s (opt_tlvs (value_tlvs lib) value) =
     Inr (case value of None \<Rightarrow> s
          | Some v \<Rightarrow> s\<lparr>f_value := Some (fst (compress_wal_value_borrowed lib v)),
              f_compression :=
                (case snd (compress_wal_value_borrowed lib v) of
                   None \<Rightarrow> f_compression s | Some c \<Rightarrow> Some c)\<rparr>)"
  by (auto simp: opt_tlvs_def value_tlvs_def take_field_def split: option.split prod.split)

lemma take_field_opts:
  "apply_edits take_field s (opt_tlvs (\<lambda>x. [(tag_expiration, u64_to_le x)]) e) =
     Inr (case e of None \<Rightarrow> s | Some x \<Rightarrow> s\<lparr>f_expiration := Some x\<rparr>)"
  "apply_edits take_field s (opt_tlvs (\<lambda>x. [(tag_range_end, x)]) k) =
     Inr (case k of None \<Rightarrow> s | Some x \<Rightarrow> s\<lparr>f_range_end := Some x\<rparr>)"
  "apply_edits take_field s (opt_tlvs (\<lambda>x. [(tag_txn_id, u64_to_le x)]) e) =
     Inr (case e of None \<Rightarrow> s | Some x \<Rightarrow> s\<lparr>f_txn_id := Some x\<rparr>)"
  by (auto simp: opt_tlvs_def take_field_def split: option.split)

lemma record_fields:
  "apply_edits take_field no_fields (record_tlvs lib r) =
     Inr \<lparr>f_op = Some (w_op r), f_cf_id = Some (w_cf_id r), f_seq = Some (w_seq r),
          f_key = Some (w_key r),
          f_value = map_option (\<lambda>v. fst (compress_wal_value_borrowed lib v)) (w_value r),
          f_expiration = w_expiration r, f_range_end = w_range_end r, f_txn_id = w_txn_id r,
          f_compression =
            Option.bind (w_value r) (\<lambda>v. snd (compress_wal_value_borrowed lib v))\<rparr>"
proof -
  have "apply_edits take_field no_fields
      [(tag_op, [op_to_wire (w_op r)]), (tag_cf_id, u32_to_le (w_cf_id r)),
       (tag_seq, u64_to_le (w_seq r)), (tag_key, w_key r)] =
      Inr (no_fields\<lparr>f_op := Some (w_op r), f_cf_id := Some (w_cf_id r),
           f_seq := Some (w_seq r), f_key := Some (w_key r)\<rparr>)"
    by (simp add: take_field_def)
  then show ?thesis
    by (simp only: record_tlvs_def apply_edits_append take_field_value take_field_opts
        try_with_simps)
       (auto simp: no_fields_def split: option.split)
qed

lemma decode_view_tlvs:
  "small_tlvs ts \<Longrightarrow>
   decode_view (wal_magic @ [wal_version] @ concat (map enc_tlv ts)) =
     try_with (apply_edits take_field no_fields ts) view_of_fields"
  by (simp add: decode_view_def wal_consts scan_tlvs_enc nth_append)

lemma wal_decode_encode:
  assumes "lz4_ok lib" "wal_encode lib r = Inr p"
    and "reject_op_specific_corruption (w_op r) (w_value r \<noteq> None) (w_range_end r \<noteq> None) = Inr ()"
  shows "wal_decode lib p = Inr r"
proof -
  note enc = wal_encode_Inr [OF assms(2)]
  have view: "decode_view p = Inr \<lparr>v_cf_id = w_cf_id r, v_op = w_op r, v_key = w_key r,
      v_value = map_option (\<lambda>v. fst (compress_wal_value_borrowed lib v)) (w_value r),
      v_seq = w_seq r, v_expiration = w_expiration r, v_range_end = w_range_end r,
      v_txn_id = w_txn_id r,
      v_compression = Option.bind (w_value r) (\<lambda>v. snd (compress_wal_value_borrowed lib v))\<rparr>"
    using assms(3)
    by (simp add: enc(1) decode_view_tlvs [OF enc(2)] record_fields view_of_fields_def
        del: append.simps) (cases "w_value r"; simp)
  show ?thesis
  proof (cases "w_value r")
    case None
    then show ?thesis by (simp add: wal_decode_def view)
  next
    case (Some v)
    then have "length v \<le> max_decompressed_block_size"
      using enc(3) by (simp add: wal_max_value_len_def)
    then have "decompress_wal_value lib (fst (compress_wal_value_borrowed lib v))
        (snd (compress_wal_value_borrowed lib v)) = Inr v"
      using wal_value_restores(1) [OF assms(1), of v] by (metis surjective_pairing)
    with Some show ?thesis by (simp add: wal_decode_def view)
  qed
qed

subsection \<open>Sizes\<close>

definition opt_len :: "bytes option \<Rightarrow> nat" where
  "opt_len x = (case x of None \<Rightarrow> 0 | Some v \<Rightarrow> 5 + length v)"

definition opt_len8 :: "'a option \<Rightarrow> nat" where
  "opt_len8 x = (case x of None \<Rightarrow> 0 | Some _ \<Rightarrow> 13)"

lemma payload_capacity_Inr:
  "payload_capacity r = Inr n \<Longrightarrow>
   n = 36 + length (w_key r) + opt_len (w_value r) + opt_len8 (w_expiration r) +
       opt_len (w_range_end r) + opt_len8 (w_txn_id r)"
  by (auto simp: payload_capacity_def add_capacity_opt_def opt_len_def opt_len8_def wal_consts
      split: option.splits)

lemma length_compress_wal_value:
  "length (fst (compress_wal_value_borrowed lib v)) \<le> length v"
  by (auto simp: compress_wal_value_borrowed_def Let_def)

lemma length_enc_tlv [simp, wire_simps]: "length (enc_tlv (t, v)) = 5 + length v"
  by (simp add: enc_tlv_def)

lemma length_opt_tlvs [wire_simps]:
  "length (concat (map enc_tlv (opt_tlvs (\<lambda>x. [(t, u64_to_le x)]) e))) = opt_len8 e"
  "length (concat (map enc_tlv (opt_tlvs (\<lambda>x. [(t, x)]) k))) = opt_len k"
  "length (concat (map enc_tlv (opt_tlvs (value_tlvs lib) k))) \<le> opt_len k + 6"
  using length_compress_wal_value [of lib "the k"]
  by (auto simp: opt_tlvs_def value_tlvs_def opt_len_def opt_len8_def
      split: option.split prod.split)

lemma length_record_payload:
  "length (wal_magic @ [wal_version] @ concat (map enc_tlv (record_tlvs lib r))) \<le>
     42 + length (w_key r) + opt_len (w_value r) + opt_len8 (w_expiration r) +
       opt_len (w_range_end r) + opt_len8 (w_txn_id r)"
  using length_opt_tlvs(3) [of lib "w_value r"]
  by (simp add: record_tlvs_def wal_consts length_opt_tlvs(1,2))


text \<open>A put of three bytes with an expiration, used by the witnesses.\<close>

definition sample_put :: wal_record where
  "sample_put = \<lparr>w_cf_id = 3, w_op = OpPut, w_key = [1, 2], w_value = Some [7, 7, 7], w_seq = 9,
     w_expiration = Some 77, w_range_end = None, w_txn_id = None\<rparr>"

lemma sample_put_encodes: "\<exists>p. wal_encode stored_lib sample_put = Inr p"
proof -
  have "is_ok (wal_encode stored_lib sample_put)"
    by (simp add: sample_put_def wal_encode_def encode_into_def encode_into_inner_def
        payload_capacity_def add_capacity_def checked_add_usize_def add_capacity_opt_def wal_consts
        w_then_def w_opt_def w_skip_def w_bytes_def push_u8_def push_u32_def push_u64_def
        push_tlv_def encode_value_def compress_wal_value_borrowed_def codec_limits)
  then show ?thesis by (simp add: is_ok_iff)
qed


text \<open>
  Decoding is forward compatible: a payload decodes to the same view when every field
  whose tag this version does not know is removed from it.
\<close>

definition known_tags :: "byte list" where
  "known_tags = [tag_op, tag_cf_id, tag_seq, tag_key, tag_value, tag_expiration, tag_range_end,
     tag_txn_id, tag_compression]"

lemma take_field_unknown: "t \<notin> set known_tags \<Longrightarrow> take_field s (t, v) = Inr s"
  by (simp add: take_field_def known_tags_def)

lemma apply_known:
  "apply_edits take_field s (filter (\<lambda>(t, _). t \<in> set known_tags) ts) =
   apply_edits take_field s ts"
  by (induction ts arbitrary: s)
     (auto simp: take_field_unknown intro!: try_with_cong)

theorem unknown_tags_skipped:
  assumes "\<forall>(t, v) \<in> set ts. length v \<le> u32_max"
  shows "decode_view (wal_magic @ [wal_version] @ concat (map enc_tlv ts)) =
    decode_view (wal_magic @ [wal_version] @
      concat (map enc_tlv (filter (\<lambda>(t, _). t \<in> set known_tags) ts)))"
proof -
  have "small_tlvs ts" "small_tlvs (filter (\<lambda>(t, _). t \<in> set known_tags) ts)"
    using assms by (auto simp: small_tlvs_def list_all_iff)
  then show ?thesis by (simp only: decode_view_tlvs apply_known)
qed

theorem unknown_tags_skipped_witness:
  "decode_view (wal_magic @ [wal_version] @ concat (map enc_tlv [(200, [1]), (tag_key, [5])])) =
   decode_view (wal_magic @ [wal_version] @ concat (map enc_tlv [(tag_key, [5])]))"
proof -
  have "\<forall>(t, v) \<in> set [(200 :: byte, [1 :: byte]), (tag_key, [5])]. length v \<le> u32_max" by simp
  from unknown_tags_skipped [OF this] show ?thesis by (simp add: known_tags_def)
qed

text \<open>
  The size the writer reserves for a record is enough: the frame of an encoded record is
  never longer than the bound computed before compression, so a record whose bound is
  accepted never exceeds the frame limit.
\<close>

theorem frame_bound_sound:
  assumes "wal_encode lib r = Inr p" "record_frame_size_bound r = Inr n"
  shows "encoded_frame_len (length p) = Inr (wal_frame_header_len + length p) \<and>
         wal_frame_header_len + length p \<le> n"
proof -
  from assms(2) obtain c where c: "payload_capacity r = Inr c" "c + 6 \<le> wal_max_record_len"
    "n = wal_frame_header_len + (c + 6)"
    by (auto simp: record_frame_size_bound_def wal_consts)
  with payload_capacity_Inr [OF c(1)] length_record_payload [of lib r] wal_encode_Inr(1) [OF assms(1)]
  show ?thesis by simp
qed

theorem frame_bound_sound_witness:
  "\<exists>p n. wal_encode stored_lib sample_put = Inr p \<and> record_frame_size_bound sample_put = Inr n \<and>
     wal_frame_header_len + length p \<le> n"
proof -
  obtain p where p: "wal_encode stored_lib sample_put = Inr p" using sample_put_encodes by blast
  have n: "record_frame_size_bound sample_put = Inr 73"
    by (simp add: sample_put_def record_frame_size_bound_def payload_capacity_def
        add_capacity_def checked_add_usize_def add_capacity_opt_def wal_consts)
  from frame_bound_sound [OF p n] p n show ?thesis by blast
qed

end
