(* ===== verification/Wal_Batch.thy ===== *)
theory Wal_Batch
  imports Wal_Encoding
begin

text \<open>
  Transaction batches (\<^verbatim>\<open>src/src/wal/encoding.rs\<close>): the operations of one transaction,
  encoded in the value of a single WAL record. Every reader consumes a prefix of its input
  and returns the rest, as the source's \<^verbatim>\<open>&mut &[u8]\<close> does.
\<close>

section \<open>Data\<close>

record txn_batch_record =
  b_cf_id :: u32
  b_op :: wal_op_kind
  b_key :: bytes
  b_value :: "bytes option"
  b_seq :: u64
  b_expiration :: "u64 option"
  b_range_end :: "bytes option"

record txn_batch_encode_record = txn_batch_record +
  b_txn_id :: "u64 option"

record decoded_txn_batch =
  d_txn_id :: u64
  d_begin_seq :: u64
  d_commit_seq :: u64
  d_records :: "txn_batch_record list"

record txn_batch_header =
  h_txn_id :: u64
  h_begin_seq :: u64
  h_commit_seq :: u64
  h_op_count :: nat

definition txn_batch_magic :: bytes where "txn_batch_magic = [84, 66]"
definition txn_batch_version :: byte where "txn_batch_version = 1"
definition txn_batch_min_prefix_len :: nat where "txn_batch_min_prefix_len = 3 + 8 * 3 + 4"
definition txn_batch_record_fixed_len :: nat where
  "txn_batch_record_fixed_len = 1 + 4 + 8 + 1 + 1 + 1"
definition txn_batch_record_min_len :: nat where
  "txn_batch_record_min_len = txn_batch_record_fixed_len + 4"

section \<open>Encoding\<close>

definition len_prefixed :: "bytes \<Rightarrow> bytes midge_result" where
  "len_prefixed v =
     (if length v > u32_max
      then Inl (InvalidArgument ''transaction batch field exceeds u32::MAX'')
      else Inr (u32_to_le (of_nat (length v)) @ v))"

definition len_prefixed_field_len :: "bytes \<Rightarrow> nat midge_result" where
  "len_prefixed_field_len v =
     (if length v > u32_max
      then Inl (InvalidArgument ''transaction batch field exceeds u32::MAX'')
      else add_capacity 4 (length v))"

definition add_field_len :: "bytes option \<Rightarrow> nat \<Rightarrow> nat midge_result" where
  "add_field_len field len =
     (case field of
        None \<Rightarrow> Inr len
      | Some v \<Rightarrow> try_with (len_prefixed_field_len v) (add_capacity len))"

definition add_record_len :: "nat \<Rightarrow> txn_batch_encode_record \<Rightarrow> nat midge_result" where
  "add_record_len len r =
     try_with (add_capacity len txn_batch_record_fixed_len) (\<lambda>len.
     try_with (if b_expiration r \<noteq> None then add_capacity len 8 else Inr len) (\<lambda>len.
     try_with (add_field_len (Some (b_key r)) len) (\<lambda>len.
     try_with (add_field_len (b_value r) len) (\<lambda>len.
     add_field_len (b_range_end r) len))))"

definition batch_encoded_len :: "txn_batch_encode_record list \<Rightarrow> nat midge_result" where
  "batch_encoded_len records =
     (if length records > u32_max
      then Inl (InvalidArgument ''transaction batch op_count exceeds u32::MAX'')
      else apply_edits add_record_len txn_batch_min_prefix_len records)"

definition flagged :: "bytes option \<Rightarrow> bytes midge_result" where
  "flagged field =
     (case field of
        None \<Rightarrow> Inr [0]
      | Some v \<Rightarrow> try_with (len_prefixed v) (\<lambda>x. Inr (1 # x)))"

definition flagged_u64 :: "u64 option \<Rightarrow> bytes" where
  "flagged_u64 field = (case field of None \<Rightarrow> [0] | Some x \<Rightarrow> 1 # u64_to_le x)"

definition record_bytes :: "txn_batch_encode_record \<Rightarrow> bytes midge_result" where
  "record_bytes r =
     try_with (len_prefixed (b_key r)) (\<lambda>key.
     try_with (flagged (b_value r)) (\<lambda>val.
     try_with (flagged (b_range_end r)) (\<lambda>end.
       Inr ([op_to_wire (b_op r)] @ u32_to_le (b_cf_id r) @ u64_to_le (b_seq r) @
            flagged_u64 (b_expiration r) @ key @ val @ end))))"

definition check_batch_record ::
    "u64 \<Rightarrow> u64 \<Rightarrow> u32 \<Rightarrow> nat \<Rightarrow> txn_batch_encode_record \<Rightarrow> unit midge_result" where
  "check_batch_record txn_id begin_seq cf_id index r =
     (if is_transaction_marker (b_op r)
      then Inl (InvalidArgument ''transaction batch cannot contain nested transaction markers'')
      else if b_seq r \<noteq> begin_seq + 1 + u64_of_len index
      then Inl (InvalidArgument ''transaction batch contains non-contiguous sequence'')
      else if b_txn_id r \<noteq> Some txn_id
      then Inl (InvalidArgument ''transaction batch record has mismatched txn_id'')
      else if b_cf_id r \<noteq> cf_id
      then Inl (InvalidArgument ''transaction batch record belongs to another column family'')
      else Inr ())"

fun encode_batch_records ::
    "u64 \<Rightarrow> u64 \<Rightarrow> u32 \<Rightarrow> nat \<Rightarrow> txn_batch_encode_record list \<Rightarrow> bytes midge_result" where
  "encode_batch_records txn_id begin_seq cf_id index [] = Inr []"
| "encode_batch_records txn_id begin_seq cf_id index (r # rs) =
     try_with (check_batch_record txn_id begin_seq cf_id index r) (\<lambda>_.
     try_with (record_bytes r) (\<lambda>x.
     try_with (encode_batch_records txn_id begin_seq cf_id (Suc index) rs) (\<lambda>y.
       Inr (x @ y))))"

definition encode_txn_batch_payload ::
    "u64 \<Rightarrow> u64 \<Rightarrow> u64 \<Rightarrow> u32 \<Rightarrow> txn_batch_encode_record list \<Rightarrow> bytes midge_result" where
  "encode_txn_batch_payload txn_id begin_seq commit_seq cf_id records =
     (if records = []
      then Inl (InvalidArgument ''transaction batch must contain at least one operation'')
      else if commit_seq \<le> begin_seq
      then Inl (InvalidArgument
        ''transaction batch commit sequence must be greater than begin sequence'')
      else if commit_seq - begin_seq - 1 \<noteq> u64_of_len (length records)
      then Inl (InvalidArgument
        ''transaction batch sequence span does not match operation count'')
      else
        try_with (batch_encoded_len records) (\<lambda>_.
          if length records > u32_max
          then Inl (InvalidArgument ''transaction batch op_count exceeds u32::MAX'')
          else
            try_with (encode_batch_records txn_id begin_seq cf_id 0 records) (\<lambda>body.
              Inr (txn_batch_magic @ [txn_batch_version] @ u64_to_le txn_id @
                   u64_to_le begin_seq @ u64_to_le commit_seq @
                   u32_to_le (of_nat (length records)) @ body))))"

section \<open>Decoding\<close>

definition read_exact_slice :: "string \<Rightarrow> nat \<Rightarrow> bytes \<Rightarrow> (bytes \<times> bytes) midge_result" where
  "read_exact_slice field len inp =
     (if length inp < len then Inl (Corruption (''truncated transaction batch '' @ field))
      else Inr (take len inp, drop len inp))"

definition read_u8 :: "string \<Rightarrow> bytes \<Rightarrow> (byte \<times> bytes) midge_result" where
  "read_u8 field inp =
     try_with (read_exact_slice field 1 inp) (\<lambda>(raw, rest). Inr (raw ! 0, rest))"

definition read_u32 :: "string \<Rightarrow> bytes \<Rightarrow> (u32 \<times> bytes) midge_result" where
  "read_u32 field inp =
     try_with (read_exact_slice field 4 inp) (\<lambda>(raw, rest). Inr (u32_from_le raw, rest))"

definition read_u64 :: "string \<Rightarrow> bytes \<Rightarrow> (u64 \<times> bytes) midge_result" where
  "read_u64 field inp =
     try_with (read_exact_slice field 8 inp) (\<lambda>(raw, rest). Inr (u64_from_le raw, rest))"

definition read_len_prefixed_bytes :: "string \<Rightarrow> bytes \<Rightarrow> (bytes \<times> bytes) midge_result" where
  "read_len_prefixed_bytes field inp =
     try_with (read_u32 field inp) (\<lambda>(len, rest). read_exact_slice field (unat len) rest)"

definition read_optional_u64 :: "string \<Rightarrow> bytes \<Rightarrow> (u64 option \<times> bytes) midge_result" where
  "read_optional_u64 field inp =
     try_with (read_u8 (field @ '' flag'') inp) (\<lambda>(flag, rest).
       if flag = 0 then Inr (None, rest)
       else if flag = 1 then
         try_with (read_u64 field rest) (\<lambda>(x, rest'). Inr (Some x, rest'))
       else Inl (Corruption (''invalid transaction batch '' @ field @ '' flag'')))"

definition read_optional_bytes :: "string \<Rightarrow> bytes \<Rightarrow> (bytes option \<times> bytes) midge_result" where
  "read_optional_bytes field inp =
     try_with (read_u8 (field @ '' flag'') inp) (\<lambda>(flag, rest).
       if flag = 0 then Inr (None, rest)
       else if flag = 1 then
         try_with (read_len_prefixed_bytes field rest) (\<lambda>(x, rest'). Inr (Some x, rest'))
       else Inl (Corruption (''invalid transaction batch '' @ field @ '' flag'')))"

definition decode_txn_batch_record ::
    "u64 \<Rightarrow> nat \<Rightarrow> bytes \<Rightarrow> (txn_batch_record \<times> bytes) midge_result" where
  "decode_txn_batch_record begin_seq index inp =
     try_with (read_u8 ''op'' inp) (\<lambda>(b, inp).
     try_with (op_from_wire b) (\<lambda>op.
       if is_transaction_marker op
       then Inl (Corruption
         ''transaction batch payload cannot contain nested transaction markers'')
       else
         try_with (read_u32 ''cf_id'' inp) (\<lambda>(cf, inp).
         try_with (read_u64 ''seq'' inp) (\<lambda>(sq, inp).
           if sq \<noteq> begin_seq + 1 + u64_of_len index
           then Inl (Corruption ''transaction batch payload sequence does not match expected'')
           else
             try_with (read_optional_u64 ''expiration'' inp) (\<lambda>(ex, inp).
             try_with (read_len_prefixed_bytes ''key'' inp) (\<lambda>(key, inp).
             try_with (read_optional_bytes ''value'' inp) (\<lambda>(val, inp).
             try_with (read_optional_bytes ''range_end'' inp) (\<lambda>(end, inp).
             try_with (reject_op_specific_corruption op (val \<noteq> None) (end \<noteq> None)) (\<lambda>_.
               Inr (\<lparr>b_cf_id = cf, b_op = op, b_key = key, b_value = val, b_seq = sq,
                     b_expiration = ex, b_range_end = end\<rparr>, inp))))))))))"

definition decode_txn_batch_records ::
    "u64 \<Rightarrow> nat \<Rightarrow> bytes \<Rightarrow> (txn_batch_record list \<times> bytes) midge_result" where
  "decode_txn_batch_records begin_seq op_count inp =
     (if op_count > length inp div txn_batch_record_min_len
      then Inl (Corruption ''transaction batch payload op_count exceeds remaining bytes'')
      else read_indexed (decode_txn_batch_record begin_seq) 0 op_count inp)"

definition validate_txn_batch_header ::
    "wal_record \<Rightarrow> txn_batch_header \<Rightarrow> unit midge_result" where
  "validate_txn_batch_header outer h =
     (if h_op_count h = 0
      then Inl (Corruption ''transaction batch payload has empty op_count'')
      else if w_txn_id outer \<noteq> Some (h_txn_id h)
      then Inl (Corruption ''transaction batch outer txn_id does not match payload txn_id'')
      else if w_seq outer \<noteq> h_commit_seq h
      then Inl (Corruption ''transaction batch outer seq does not match payload commit_seq'')
      else if h_commit_seq h \<le> h_begin_seq h
      then Inl (Corruption
        ''transaction batch payload commit_seq must be greater than begin_seq'')
      else if h_op_count h \<noteq> unat (h_commit_seq h - h_begin_seq h - 1)
      then Inl (Corruption ''transaction batch payload op_count does not match sequence span'')
      else Inr ())"

definition decode_txn_batch_header ::
    "wal_record \<Rightarrow> bytes \<Rightarrow> (txn_batch_header \<times> bytes) midge_result" where
  "decode_txn_batch_header outer payload =
     (if length payload < txn_batch_min_prefix_len
      then Inl (Corruption ''truncated transaction batch payload prefix'')
      else if take 2 payload \<noteq> txn_batch_magic
      then Inl (Corruption ''invalid transaction batch payload magic'')
      else if payload ! 2 \<noteq> txn_batch_version
      then Inl (Corruption ''unsupported transaction batch payload version'')
      else
        try_with (read_u64 ''txn_id'' (drop 3 payload)) (\<lambda>(txn, inp).
        try_with (read_u64 ''begin_seq'' inp) (\<lambda>(bsq, inp).
        try_with (read_u64 ''commit_seq'' inp) (\<lambda>(csq, inp).
        try_with (read_u32 ''op_count'' inp) (\<lambda>(n, inp).
          let h = \<lparr>h_txn_id = txn, h_begin_seq = bsq, h_commit_seq = csq,
                   h_op_count = unat n\<rparr>
          in try_with (validate_txn_batch_header outer h) (\<lambda>_. Inr (h, inp)))))))"

definition decode_txn_batch_payload ::
    "wal_record \<Rightarrow> bytes \<Rightarrow> decoded_txn_batch midge_result" where
  "decode_txn_batch_payload outer payload =
     try_with (decode_txn_batch_header outer payload) (\<lambda>(h, inp).
     try_with (decode_txn_batch_records (h_begin_seq h) (h_op_count h) inp) (\<lambda>(records, inp).
       if inp \<noteq> [] then Inl (Corruption ''transaction batch payload has trailing bytes'')
       else if \<exists>r \<in> set records. b_cf_id r \<noteq> w_cf_id outer
       then Inl (Corruption ''transaction batch member belongs to another column family'')
       else Inr \<lparr>d_txn_id = h_txn_id h, d_begin_seq = h_begin_seq h,
                 d_commit_seq = h_commit_seq h, d_records = records\<rparr>))"

text \<open>
  The allocation bound replay charges. The in-memory sizes of the two record types,
  \<^verbatim>\<open>size_of::<TxnBatchRecord>()\<close> and \<^verbatim>\<open>size_of::<WalRecord>()\<close>, depend on the layout the
  compiler chooses and are arguments.
\<close>

definition txn_batch_decoded_bound :: "nat \<Rightarrow> nat \<Rightarrow> nat \<Rightarrow> nat \<Rightarrow> nat" where
  "txn_batch_decoded_bound batch_slot wal_slot payload_len op_count =
     (let slots = saturating_add_usize batch_slot (saturating_mul_usize wal_slot 2)
      in saturating_add_usize (saturating_mul_usize payload_len 2)
           (saturating_mul_usize op_count slots))"

definition decode_txn_batch_payload_bounded ::
    "nat \<Rightarrow> nat \<Rightarrow> wal_record \<Rightarrow> bytes \<Rightarrow> nat \<Rightarrow> decoded_txn_batch midge_result" where
  "decode_txn_batch_payload_bounded batch_slot wal_slot outer payload max_decoded_bytes =
     try_with (decode_txn_batch_header outer payload) (\<lambda>(h, _).
       if txn_batch_decoded_bound batch_slot wal_slot (length payload) (h_op_count h)
            > max_decoded_bytes
       then Inl (ResourceLimit ''transaction batch decoded allocation bound exceeds replay limit'')
       else decode_txn_batch_payload outer payload)"

section \<open>Every reader undoes its writer\<close>

lemmas batch_consts =
  txn_batch_magic_def txn_batch_version_def txn_batch_min_prefix_len_def
  txn_batch_record_fixed_len_def txn_batch_record_min_len_def

definition len_enc :: "bytes \<Rightarrow> bytes" where
  "len_enc v = u32_to_le (of_nat (length v)) @ v"

definition flag_enc :: "bytes option \<Rightarrow> bytes" where
  "flag_enc field = (case field of None \<Rightarrow> [0] | Some v \<Rightarrow> 1 # len_enc v)"

lemma read_exact_slice_append [simp, wire_simps]:
  "n = length x \<Longrightarrow> read_exact_slice field n (x @ rest) = Inr (x, rest)"
  by (simp add: read_exact_slice_def)

lemma read_u8_Cons [simp, wire_simps]: "read_u8 field (b # rest) = Inr (b, rest)"
  by (simp add: read_u8_def read_exact_slice_def)

interpretation u32_wire: wire u32_to_le "\<lambda>_. read_u32 field" "\<lambda>_ _. True" for field
  by unfold_locales (simp add: read_u32_def)

interpretation u64_wire: wire u64_to_le "\<lambda>_. read_u64 field" "\<lambda>_ _. True" for field
  by unfold_locales (simp add: read_u64_def)

lemma read_words [simp, wire_simps]:
  "read_u32 field (u32_to_le w @ rest) = Inr (w, rest)"
  "read_u64 field (u64_to_le x @ rest) = Inr (x, rest)"
  by (rule u32_wire.rd_wr u64_wire.rd_wr; simp)+

interpretation len_wire: wire len_enc "\<lambda>_. read_len_prefixed_bytes field"
    "\<lambda>_ v. length v \<le> u32_max" for field
  by unfold_locales
     (simp add: len_enc_def read_len_prefixed_bytes_def unat_of_nat)

interpretation opt_u64_wire: wire flagged_u64 "\<lambda>_. read_optional_u64 field" "\<lambda>_ _. True" for field
  by unfold_locales
     (auto simp: flagged_u64_def read_optional_u64_def simp del: try_with_Inr split: option.split)

definition small_opt :: "bytes option \<Rightarrow> bool" where
  "small_opt field = (case field of None \<Rightarrow> True | Some v \<Rightarrow> length v \<le> u32_max)"

interpretation opt_bytes_wire: wire flag_enc "\<lambda>_. read_optional_bytes field"
    "\<lambda>_. small_opt" for field
  by unfold_locales
     (auto simp: flag_enc_def read_optional_bytes_def small_opt_def len_wire.rd_wr
       simp del: try_with_Inr split: option.split)

text \<open>One operation of a batch, as its writer lays it out and as its reader accepts it.\<close>

definition batch_record_enc :: "txn_batch_record \<Rightarrow> bytes" where
  "batch_record_enc r =
     [op_to_wire (b_op r)] @ u32_to_le (b_cf_id r) @ u64_to_le (b_seq r) @
     flagged_u64 (b_expiration r) @ len_enc (b_key r) @ flag_enc (b_value r) @
     flag_enc (b_range_end r)"

definition batch_record_ok :: "u64 \<Rightarrow> nat \<Rightarrow> txn_batch_record \<Rightarrow> bool" where
  "batch_record_ok begin_seq index r \<longleftrightarrow>
     \<not> is_transaction_marker (b_op r) \<and> b_seq r = begin_seq + 1 + u64_of_len index \<and>
     length (b_key r) \<le> u32_max \<and> small_opt (b_value r) \<and> small_opt (b_range_end r) \<and>
     reject_op_specific_corruption (b_op r) (b_value r \<noteq> None) (b_range_end r \<noteq> None) = Inr ()"

interpretation batch_wire: wire batch_record_enc "decode_txn_batch_record begin_seq"
    "batch_record_ok begin_seq" for begin_seq
  by unfold_locales
     (simp add: batch_record_enc_def decode_txn_batch_record_def batch_record_ok_def
       opt_u64_wire.rd_wr len_wire.rd_wr opt_bytes_wire.rd_wr)

section \<open>What the encoder writes\<close>

lemma len_prefixed_Inr: "len_prefixed v = Inr x \<longleftrightarrow> length v \<le> u32_max \<and> x = len_enc v"
  by (auto simp: len_prefixed_def len_enc_def)

lemma flagged_Inr: "flagged v = Inr x \<longleftrightarrow> small_opt v \<and> x = flag_enc v"
  by (auto simp: flagged_def small_opt_def flag_enc_def len_prefixed_Inr split: option.split)

lemma record_bytes_Inr:
  "record_bytes r = Inr x \<longleftrightarrow>
     length (b_key r) \<le> u32_max \<and> small_opt (b_value r) \<and> small_opt (b_range_end r) \<and>
     x = batch_record_enc (txn_batch_record.truncate r)"
  by (auto simp: record_bytes_def len_prefixed_Inr flagged_Inr batch_record_enc_def
      txn_batch_record.defs)

lemma check_batch_record_Inr:
  "check_batch_record txn_id begin_seq cf_id index r = Inr u \<longleftrightarrow>
     \<not> is_transaction_marker (b_op r) \<and> b_seq r = begin_seq + 1 + u64_of_len index \<and>
     b_txn_id r = Some txn_id \<and> b_cf_id r = cf_id"
  by (auto simp: check_batch_record_def)

lemma encode_batch_records_Inr:
  assumes "encode_batch_records txn_id begin_seq cf_id index rs = Inr body"
    and "\<forall>r\<in>set rs. reject_op_specific_corruption (b_op r) (b_value r \<noteq> None)
           (b_range_end r \<noteq> None) = Inr ()"
  shows "body = concat (map batch_record_enc (map txn_batch_record.truncate rs)) \<and>
     (\<forall>k < length rs. batch_record_ok begin_seq (index + k) (txn_batch_record.truncate (rs ! k)) \<and>
        b_cf_id (rs ! k) = cf_id)"
  using assms
proof (induction rs arbitrary: index body)
  case Nil
  then show ?case by simp
next
  case (Cons r rs)
  then obtain x y where xy: "record_bytes r = Inr x"
    "encode_batch_records txn_id begin_seq cf_id (Suc index) rs = Inr y" "body = x @ y"
    "check_batch_record txn_id begin_seq cf_id index r = Inr ()" by auto
  have ok: "batch_record_ok begin_seq index (txn_batch_record.truncate r)" "b_cf_id r = cf_id"
    using xy(1,4) Cons.prems(2)
    by (simp_all add: batch_record_ok_def record_bytes_Inr check_batch_record_Inr
        txn_batch_record.defs)
  from Cons.IH [OF xy(2)] Cons.prems(2) have IH:
    "y = concat (map batch_record_enc (map txn_batch_record.truncate rs))"
    "\<forall>k < length rs. batch_record_ok begin_seq (Suc index + k)
        (txn_batch_record.truncate (rs ! k)) \<and> b_cf_id (rs ! k) = cf_id" by simp_all
  have "batch_record_ok begin_seq (index + k) (txn_batch_record.truncate ((r # rs) ! k)) \<and>
      b_cf_id ((r # rs) ! k) = cf_id" if "k < length (r # rs)" for k
    using that ok IH(2) by (cases k) auto
  with xy IH(1) show ?case by (simp add: record_bytes_Inr)
qed

lemma length_batch_record_enc: "txn_batch_record_min_len \<le> length (batch_record_enc r)"
  by (simp add: batch_record_enc_def batch_consts flagged_u64_def flag_enc_def len_enc_def
      split: option.split)

lemma length_batch_records_enc:
  "txn_batch_record_min_len * length rs \<le> length (concat (map batch_record_enc rs))"
proof (induction rs)
  case (Cons r rs)
  with length_batch_record_enc [of r] show ?case by simp
qed simp

lemma add_record_len_Inr:
  "record_bytes r = Inr x \<Longrightarrow> add_record_len len r = Inr n \<Longrightarrow> n = len + length x"
  by (cases "b_expiration r"; cases "b_value r"; cases "b_range_end r")
     (auto simp: record_bytes_Inr add_record_len_def add_field_len_def len_prefixed_field_len_def
       batch_record_enc_def flagged_u64_def flag_enc_def len_enc_def batch_consts
       txn_batch_record.defs split: if_splits)

lemma add_records_len_Inr:
  "encode_batch_records txn_id begin_seq cf_id index rs = Inr body \<Longrightarrow>
   apply_edits add_record_len len rs = Inr n \<Longrightarrow> n = len + length body"
proof (induction rs arbitrary: index body len)
  case (Cons r rs)
  then obtain x y m where "record_bytes r = Inr x"
    "encode_batch_records txn_id begin_seq cf_id (Suc index) rs = Inr y" "body = x @ y"
    "add_record_len len r = Inr m" "apply_edits add_record_len m rs = Inr n" by auto
  with Cons.IH [of "Suc index" y m] add_record_len_Inr [of r x len m] show ?case by simp
qed simp

text \<open>An encoded batch, taken apart.\<close>

lemma encode_txn_batch_payload_Inr:
  assumes "encode_txn_batch_payload txn_id begin_seq commit_seq cf_id rs = Inr p"
  obtains body n where
    "p = txn_batch_magic @ [txn_batch_version] @ u64_to_le txn_id @ u64_to_le begin_seq @
       u64_to_le commit_seq @ u32_to_le (of_nat (length rs)) @ body"
    "encode_batch_records txn_id begin_seq cf_id 0 rs = Inr body"
    "rs \<noteq> []" "begin_seq < commit_seq" "commit_seq - begin_seq - 1 = u64_of_len (length rs)"
    "length rs \<le> u32_max" "apply_edits add_record_len txn_batch_min_prefix_len rs = Inr n"
  using assms
  by (auto simp: encode_txn_batch_payload_def batch_encoded_len_def split: if_splits)

lemma decode_header_enc:
  assumes "w_txn_id outer = Some txn_id" "w_seq outer = commit_seq" "begin_seq < commit_seq"
    and "commit_seq - begin_seq - 1 = u64_of_len n" "0 < n" "n \<le> u32_max"
  shows "decode_txn_batch_header outer
      (txn_batch_magic @ [txn_batch_version] @ u64_to_le txn_id @ u64_to_le begin_seq @
       u64_to_le commit_seq @ u32_to_le (of_nat n) @ body) =
    Inr (\<lparr>h_txn_id = txn_id, h_begin_seq = begin_seq, h_commit_seq = commit_seq,
          h_op_count = n\<rparr>, body)"
proof -
  have "unat (of_nat n :: u32) = n" "unat (u64_of_len n) = n"
    using assms(6) by (simp_all add: unat_of_nat unat_u64_of_len)
  then show ?thesis
    using assms
    by (simp add: decode_txn_batch_header_def validate_txn_batch_header_def batch_consts Let_def
        not_le)
qed

section \<open>What the decoder accepts\<close>

lemma decode_txn_batch_record_ok:
  assumes "decode_txn_batch_record begin_seq index inp = Inr (r, rest)"
  shows "\<not> is_transaction_marker (b_op r)" "b_seq r = begin_seq + 1 + u64_of_len index"
    "reject_op_specific_corruption (b_op r) (b_value r \<noteq> None) (b_range_end r \<noteq> None) = Inr ()"
  using assms by (auto simp: decode_txn_batch_record_def split: if_splits)

lemma read_indexed_length: "read_indexed rd i n inp = Inr (xs, rest) \<Longrightarrow> length xs = n"
  by (induction rd i n inp arbitrary: xs rule: read_indexed.induct) auto

lemma read_indexed_nth:
  "read_indexed rd i n inp = Inr (xs, rest) \<Longrightarrow> k < n \<Longrightarrow>
   \<exists>inp' rest'. rd (i + k) inp' = Inr (xs ! k, rest')"
proof (induction n arbitrary: i inp xs k)
  case (Suc n)
  then obtain x inp' ys where "rd i inp = Inr (x, inp')" "xs = x # ys"
    "read_indexed rd (Suc i) n inp' = Inr (ys, rest)" by auto
  with Suc.IH [of "Suc i" inp' ys "k - 1"] Suc.prems(2) show ?case
    by (cases k) auto
qed simp

lemma header_ok:
  assumes "decode_txn_batch_header outer payload = Inr (h, inp)"
  shows "w_txn_id outer = Some (h_txn_id h)" "w_seq outer = h_commit_seq h"
    "h_begin_seq h < h_commit_seq h" "h_op_count h = unat (h_commit_seq h - h_begin_seq h - 1)"
    "0 < h_op_count h"
  using assms
  by (auto simp: decode_txn_batch_header_def validate_txn_batch_header_def Let_def not_le
      split: if_splits)

lemma span_no_wrap:
  assumes "b < (c :: u64)" "n = unat (c - b - 1)"
  shows "unat c = unat b + 1 + n"
  using assms by unat_arith

lemma decode_encoded_batch:
  assumes "encode_txn_batch_payload txn_id begin_seq commit_seq cf_id rs = Inr p"
    and "\<forall>r\<in>set rs. reject_op_specific_corruption (b_op r) (b_value r \<noteq> None)
           (b_range_end r \<noteq> None) = Inr ()"
    and "w_txn_id outer = Some txn_id" "w_seq outer = commit_seq" "w_cf_id outer = cf_id"
  shows "decode_txn_batch_payload outer p =
      Inr \<lparr>d_txn_id = txn_id, d_begin_seq = begin_seq, d_commit_seq = commit_seq,
           d_records = map txn_batch_record.truncate rs\<rparr> \<and>
    batch_encoded_len rs = Inr (length p)"
proof -
  let ?ts = "map txn_batch_record.truncate rs"
  obtain body n where p: "p = txn_batch_magic @ [txn_batch_version] @ u64_to_le txn_id @
      u64_to_le begin_seq @ u64_to_le commit_seq @ u32_to_le (of_nat (length rs)) @ body"
    and body: "encode_batch_records txn_id begin_seq cf_id 0 rs = Inr body"
    and span: "rs \<noteq> []" "begin_seq < commit_seq"
      "commit_seq - begin_seq - 1 = u64_of_len (length rs)" "length rs \<le> u32_max"
    and n: "apply_edits add_record_len txn_batch_min_prefix_len rs = Inr n"
    by (rule encode_txn_batch_payload_Inr [OF assms(1)])
  note recs = encode_batch_records_Inr [OF body assms(2)]
  have hdr: "decode_txn_batch_header outer p =
      Inr (\<lparr>h_txn_id = txn_id, h_begin_seq = begin_seq, h_commit_seq = commit_seq,
            h_op_count = length rs\<rparr>, body)"
    unfolding p using assms(3,4) span by (intro decode_header_enc) auto
  have "batch_record_ok begin_seq (0 + k) (?ts ! k)" if "k < length ?ts" for k
    using that recs by auto
  from batch_wire.rd_wr_list [where rest = "[]", OF this]
  have "read_indexed (decode_txn_batch_record begin_seq) 0 (length rs) body = Inr (?ts, [])"
    using recs by simp
  moreover have "\<not> length rs > length body div txn_batch_record_min_len"
    using length_batch_records_enc [of ?ts] recs
    by (simp add: not_less less_eq_div_iff_mult_less_eq batch_consts mult.commute)
  moreover have "\<forall>r\<in>set ?ts. b_cf_id r = w_cf_id outer"
    using recs assms(5) by (auto simp: in_set_conv_nth txn_batch_record.defs)
  ultimately have "decode_txn_batch_payload outer p =
      Inr \<lparr>d_txn_id = txn_id, d_begin_seq = begin_seq, d_commit_seq = commit_seq,
           d_records = ?ts\<rparr>"
    by (auto simp: decode_txn_batch_payload_def hdr decode_txn_batch_records_def)
  moreover have "n = length p"
    using add_records_len_Inr [OF body n] by (simp add: p batch_consts)
  ultimately show ?thesis using span n by (simp add: batch_encoded_len_def)
qed


text \<open>A two-operation transaction for the witnesses.\<close>

definition sample_ops :: "txn_batch_encode_record list" where
  "sample_ops =
     [\<lparr>b_cf_id = 4, b_op = OpPut, b_key = [1], b_value = Some [2, 3], b_seq = 11,
       b_expiration = None, b_range_end = None, b_txn_id = Some 6\<rparr>,
      \<lparr>b_cf_id = 4, b_op = OpDelete, b_key = [9], b_value = None, b_seq = 12,
       b_expiration = None, b_range_end = None, b_txn_id = Some 6\<rparr>]"

definition sample_outer :: wal_record where
  "sample_outer = \<lparr>w_cf_id = 4, w_op = OpTxnBatch, w_key = [], w_value = None, w_seq = 13,
     w_expiration = None, w_range_end = None, w_txn_id = Some 6\<rparr>"

lemma sample_ops_encode: "\<exists>p. encode_txn_batch_payload 6 10 13 4 sample_ops = Inr p"
proof -
  have "is_ok (encode_txn_batch_payload 6 10 13 4 sample_ops)"
    by (simp add: sample_ops_def encode_txn_batch_payload_def batch_encoded_len_def
        add_record_len_def add_field_len_def len_prefixed_field_len_def add_capacity_def
        checked_add_usize_def batch_consts check_batch_record_def is_transaction_marker_def
        record_bytes_def len_prefixed_def flagged_def u64_of_len_def)
  then show ?thesis by (simp add: is_ok_iff)
qed

lemma sample_facts:
  "\<forall>r\<in>set sample_ops. reject_op_specific_corruption (b_op r) (b_value r \<noteq> None)
     (b_range_end r \<noteq> None) = Inr ()"
  "w_txn_id sample_outer = Some 6" "w_seq sample_outer = 13" "w_cf_id sample_outer = 4"
  by (simp_all add: sample_ops_def sample_outer_def reject_op_specific_corruption_def)


text \<open>
  C35. A batch the decoder accepts is one transaction: it is not empty, its operations carry
  consecutive sequences strictly between the begin and the commit sequence without
  wrapping around, none is a transaction marker, all belong to the outer record's column
  family and have the fields their kind requires, and the commit sequence and transaction
  id are the outer record's.
\<close>

theorem decoded_batch_is_transaction:
  assumes "decode_txn_batch_payload outer p = Inr b"
  shows "d_records b \<noteq> [] \<and> w_txn_id outer = Some (d_txn_id b) \<and> w_seq outer = d_commit_seq b \<and>
    unat (d_commit_seq b) = unat (d_begin_seq b) + length (d_records b) + 1 \<and>
    (\<forall>k < length (d_records b).
       unat (b_seq (d_records b ! k)) = unat (d_begin_seq b) + 1 + k \<and>
       \<not> is_transaction_marker (b_op (d_records b ! k)) \<and>
       b_cf_id (d_records b ! k) = w_cf_id outer \<and>
       reject_op_specific_corruption (b_op (d_records b ! k))
         (b_value (d_records b ! k) \<noteq> None) (b_range_end (d_records b ! k) \<noteq> None) = Inr ())"
proof -
  from assms obtain h inp where h: "decode_txn_batch_header outer p = Inr (h, inp)"
    and recs: "read_indexed (decode_txn_batch_record (h_begin_seq h)) 0 (h_op_count h) inp =
        Inr (d_records b, [])"
    and cf: "\<forall>r\<in>set (d_records b). b_cf_id r = w_cf_id outer"
    and b: "d_txn_id b = h_txn_id h" "d_begin_seq b = h_begin_seq h" "d_commit_seq b = h_commit_seq h"
    by (auto simp: decode_txn_batch_payload_def decode_txn_batch_records_def split: if_splits)
  note hok = header_ok [OF h]
  have len: "length (d_records b) = h_op_count h" using recs by (rule read_indexed_length)
  have span: "unat (h_commit_seq h) = unat (h_begin_seq h) + 1 + h_op_count h"
    using hok(3,4) by (rule span_no_wrap)
  have "unat (b_seq (d_records b ! k)) = unat (d_begin_seq b) + 1 + k \<and>
       \<not> is_transaction_marker (b_op (d_records b ! k)) \<and>
       reject_op_specific_corruption (b_op (d_records b ! k))
         (b_value (d_records b ! k) \<noteq> None) (b_range_end (d_records b ! k) \<noteq> None) = Inr ()"
    if k: "k < h_op_count h" for k
  proof -
    from read_indexed_nth [OF recs k] obtain i r where
      d: "decode_txn_batch_record (h_begin_seq h) k i = Inr (d_records b ! k, r)" by auto
    have bound: "unat (h_begin_seq h) + 1 + k \<le> u64_max"
      using span k unat_u64_le [of "h_commit_seq h"] by linarith
    have "unat (h_begin_seq h + 1 + u64_of_len k) = unat (h_begin_seq h) + 1 + k"
      using bound by (simp add: unat_add_u64 unat_u64_of_len)
    then show ?thesis using decode_txn_batch_record_ok [OF d] by (simp add: b)
  qed
  with hok len span cf b show ?thesis by auto
qed

theorem decoded_batch_is_transaction_witness:
  "\<exists>p b. decode_txn_batch_payload sample_outer p = Inr b \<and>
     unat (d_commit_seq b) = unat (d_begin_seq b) + length (d_records b) + 1"
proof -
  obtain p where p: "encode_txn_batch_payload 6 10 13 4 sample_ops = Inr p"
    using sample_ops_encode by blast
  from decode_encoded_batch [OF p sample_facts]
  obtain b where b: "decode_txn_batch_payload sample_outer p = Inr b" by blast
  from decoded_batch_is_transaction [OF b] b show ?thesis by blast
qed

end
