(* ===== verification/Wal_Frame.thy ===== *)
theory Wal_Frame
  imports Wal_Batch
begin

text \<open>
  WAL frames (\<^verbatim>\<open>src/src/wal/frame.rs\<close>): a length, a CRC32C and a payload. This theory
  holds the frame layout; the walk over a segment's frames is in \<open>Wal_Walk\<close>, because it
  needs the segment footer.
\<close>

section \<open>Writing frames\<close>

definition frame_header :: "codec_lib \<Rightarrow> bytes \<Rightarrow> bytes midge_result" where
  "frame_header lib payload =
     try_with (encoded_frame_len (length payload)) (\<lambda>_.
       if length payload > u32_max
       then Inl (InvalidArgument ''WAL record length exceeds u32::MAX'')
       else Inr (u32_to_le (of_nat (length payload)) @ u32_to_le (crc32c lib payload)))"

definition append_frame :: "codec_lib \<Rightarrow> bytes \<Rightarrow> bytes \<Rightarrow> bytes midge_result" where
  "append_frame lib dst payload =
     try_with (frame_header lib payload) (\<lambda>header. Inr (dst @ header @ payload))"

text \<open>
  \<^verbatim>\<open>append_frame_encoded\<close> reserves a zero header, lets the payload writer append to the
  buffer and patches the header in; on failure it truncates the buffer to where it
  started.
\<close>

definition append_frame_encoded :: "codec_lib \<Rightarrow> writer \<Rightarrow> writer" where
  "append_frame_encoded lib encode_payload dst =
     (let frame_start = length dst;
          dst1 = dst @ replicate wal_frame_header_len 0;
          payload_start = length dst1
      in case encode_payload dst1 of
           (Inl e, b) \<Rightarrow> (Inl e, take frame_start b)
         | (Inr _, b) \<Rightarrow>
             (case frame_header lib (drop payload_start b) of
                Inl e \<Rightarrow> (Inl e, take frame_start b)
              | Inr header \<Rightarrow> (Inr (), take frame_start b @ header @ drop payload_start b)))"

section \<open>Reading frames\<close>

definition decode_frame_header :: "bytes \<Rightarrow> (nat \<times> u32) midge_result" where
  "decode_frame_header header =
     (if length header \<noteq> wal_frame_header_len
      then Inl (Corruption ''bad WAL frame header length'')
      else
        let payload_len = unat (u32_from_le (take 4 header))
        in if payload_len > wal_max_record_len then Inl (Corruption ''WAL record too large'')
           else Inr (payload_len, u32_from_le (slice header 4 8)))"

definition verify_frame_crc :: "codec_lib \<Rightarrow> bytes \<Rightarrow> u32 \<Rightarrow> unit midge_result" where
  "verify_frame_crc lib payload expected_crc =
     (if crc32c lib payload \<noteq> expected_crc then Inl (Corruption ''WAL frame CRC mismatch'')
      else Inr ())"

section \<open>Facts about frames\<close>

lemma frame_header_Inr:
  "frame_header lib payload = Inr h \<longleftrightarrow>
     length payload \<le> wal_max_record_len \<and>
     h = u32_to_le (of_nat (length payload)) @ u32_to_le (crc32c lib payload)"
  by (auto simp: frame_header_def wal_consts)

lemma length_frame_header: "frame_header lib payload = Inr h \<Longrightarrow> length h = wal_frame_header_len"
  by (simp add: frame_header_Inr wal_frame_header_len_def)

lemma decode_frame_header_enc:
  assumes "frame_header lib payload = Inr h"
  shows "decode_frame_header h = Inr (length payload, crc32c lib payload)"
proof -
  have "length payload \<le> wal_max_record_len" using assms by (simp add: frame_header_Inr)
  moreover from this have "unat (of_nat (length payload) :: u32) = length payload"
    by (simp add: unat_of_nat wal_consts)
  ultimately show ?thesis using assms
    by (simp add: frame_header_Inr decode_frame_header_def wal_consts slice_def)
qed

lemma verify_frame_crc_self [simp]: "verify_frame_crc lib payload (crc32c lib payload) = Inr ()"
  by (simp add: verify_frame_crc_def)

text \<open>
  The writer that encodes a payload in place produces the same bytes as framing the
  separately encoded payload: for every payload writer that only appends, the buffer
  afterwards is the buffer of \<^verbatim>\<open>append_frame\<close>, and on any failure the buffer is exactly
  what it was.
\<close>

theorem append_frame_in_place:
  assumes "\<And>buf. case w buf of (r, b) \<Rightarrow> \<exists>x. b = buf @ x"
  shows "append_frame_encoded lib w dst =
    (case w (dst @ replicate wal_frame_header_len 0) of
       (Inl e, _) \<Rightarrow> (Inl e, dst)
     | (Inr _, b) \<Rightarrow>
         (case append_frame lib dst (drop (length dst + wal_frame_header_len) b) of
            Inl e \<Rightarrow> (Inl e, dst)
          | Inr b' \<Rightarrow> (Inr (), b')))"
proof -
  obtain r b where w: "w (dst @ replicate wal_frame_header_len 0) = (r, b)" by fastforce
  with assms [of "dst @ replicate wal_frame_header_len 0"] obtain x where
    "b = (dst @ replicate wal_frame_header_len 0) @ x" by auto
  with w show ?thesis
    by (auto simp: append_frame_encoded_def append_frame_def Let_def split: sum.split)
qed

theorem append_frame_in_place_witness:
  "append_frame_encoded stored_lib (w_bytes [1, 2]) [9] =
   (Inr (), [9, 2, 0, 0, 0, 3, 0, 0, 0, 1, 2])"
proof -
  have a: "case w_bytes [1, 2] buf of (r, b) \<Rightarrow> \<exists>x. b = buf @ x" for buf
    by (simp add: w_bytes_def)
  have "append_frame stored_lib [9] [1, 2] = Inr [9, 2, 0, 0, 0, 3, 0, 0, 0, 1, 2]"
    by (simp add: append_frame_def frame_header_def encoded_frame_len_def wal_consts stored_lib_def
        u32_to_le_def le_bytes_numeral)
  then show ?thesis
    using append_frame_in_place [of "w_bytes [1, 2]" stored_lib "[9]", OF a]
    by (simp add: w_bytes_def wal_frame_header_len_def)
qed

end
