(* ===== verification/Wal_Segment.thy ===== *)
theory Wal_Segment
  imports Wal_Frame
begin

text \<open>
  WAL segments (\<^verbatim>\<open>src/src/wal/format/link.rs\<close> and \<^verbatim>\<open>src/src/wal/format/segment.rs\<close>): how
  segments chain, the fixed header, the tail counters, the digest, the sealing footer and
  the scan that is the one interpretation of a segment's bytes. A 16-byte digest or holder
  is a 128-bit word; the streaming hasher's state is the bytes it was fed, and its value is
  the library's digest of them.
\<close>

section \<open>Chains\<close>

type_synonym segment_id = u64

record chain_link =
  l_id :: segment_id
  l_last_seq :: u64
  l_digest :: u128

definition genesis_link :: chain_link where
  "genesis_link = \<lparr>l_id = 0, l_last_seq = 0, l_digest = 0\<rparr>"

record open_facts =
  o_id :: segment_id
  o_epoch :: u64
  o_first_seq :: u64
  o_prev :: chain_link

record segment_header =
  sh_id :: segment_id
  sh_epoch :: u64
  sh_holder :: u128
  sh_first_seq :: u64
  sh_prev :: chain_link

definition header_of_facts :: "open_facts \<Rightarrow> u128 \<Rightarrow> segment_header" where
  "header_of_facts f holder =
     \<lparr>sh_id = o_id f, sh_epoch = o_epoch f, sh_holder = holder, sh_first_seq = o_first_seq f,
      sh_prev = o_prev f\<rparr>"

definition header_open_facts :: "segment_header \<Rightarrow> open_facts" where
  "header_open_facts h =
     \<lparr>o_id = sh_id h, o_epoch = sh_epoch h, o_first_seq = sh_first_seq h, o_prev = sh_prev h\<rparr>"

definition follows :: "chain_link \<Rightarrow> u64 option \<Rightarrow> open_facts \<Rightarrow> string + unit" where
  "follows prev min_epoch f =
     (if o_prev f \<noteq> prev then Inl ''segment links another segment before it''
      else if o_first_seq f \<le> l_last_seq prev then Inl ''segment does not start past its predecessor''
      else if (case min_epoch of None \<Rightarrow> False | Some e \<Rightarrow> o_epoch f < e)
      then Inl ''segment lowers the epoch''
      else if o_id f \<le> l_id prev then Inl ''segment does not follow its predecessor''
      else Inr ())"

record chain_state =
  ch_expected_prev :: "chain_link option"
  ch_epoch :: "u64 option"
  ch_open :: bool

definition chain_new :: "chain_link option \<Rightarrow> chain_state" where
  "chain_new anchor = \<lparr>ch_expected_prev = anchor, ch_epoch = None, ch_open = False\<rparr>"

definition chain_admit :: "chain_state \<Rightarrow> segment_header \<Rightarrow> segment_id \<Rightarrow> chain_state midge_result"
where
  "chain_admit c header sid =
     (if ch_open c then Inl (Corruption ''WAL segment follows a segment that was never sealed'')
      else if sh_id header \<noteq> sid then Inl (Corruption ''WAL segment holds the header of another segment'')
      else
        let prev = (case ch_expected_prev c of None \<Rightarrow> sh_prev header | Some p \<Rightarrow> p)
        in try_with (map_err (\<lambda>reason. Corruption (''WAL '' @ reason))
               (follows prev (ch_epoch c) (header_open_facts header)))
             (\<lambda>_. Inr (c\<lparr>ch_epoch := Some (sh_epoch header), ch_open := True\<rparr>)))"

definition chain_seal :: "chain_state \<Rightarrow> chain_link \<Rightarrow> chain_state" where
  "chain_seal c link = c\<lparr>ch_expected_prev := Some link, ch_open := False\<rparr>"

section \<open>The header\<close>

definition header_len :: nat where "header_len = 128"
definition header_checked_len :: nat where "header_checked_len = header_len - 4"
definition header_magic :: bytes where "header_magic = [77, 87, 83, 69, 71, 72, 68, 82]"
definition segment_version :: u32 where "segment_version = 2"

definition u32_at :: "bytes \<Rightarrow> nat \<Rightarrow> u32" where
  "u32_at bs at = u32_from_le (slice bs at (at + 4))"

definition u64_at :: "bytes \<Rightarrow> nat \<Rightarrow> u64" where
  "u64_at bs at = u64_from_le (slice bs at (at + 8))"

definition holds_no_records :: "u64 \<Rightarrow> bool" where
  "holds_no_records len \<longleftrightarrow> len \<le> of_nat header_len"

definition header_body :: "segment_header \<Rightarrow> bytes" where
  "header_body h =
     header_magic @ u32_to_le segment_version @ u64_to_le (sh_id h) @ u64_to_le (sh_epoch h) @
     u128_to_le (sh_holder h) @ u64_to_le (sh_first_seq h) @ u64_to_le (l_id (sh_prev h)) @
     u64_to_le (l_last_seq (sh_prev h)) @ u128_to_le (l_digest (sh_prev h)) @ replicate 40 0"

definition header_encode :: "codec_lib \<Rightarrow> segment_header \<Rightarrow> bytes" where
  "header_encode lib h = header_body h @ u32_to_le (crc32c lib (header_body h))"

definition header_decode :: "codec_lib \<Rightarrow> bytes \<Rightarrow> segment_header midge_result" where
  "header_decode lib input =
     (if length input < header_len then Inl (Corruption ''WAL segment header is short'')
      else
        let bs = take header_len input
        in if take 8 bs \<noteq> header_magic
           then Inl (Corruption ''WAL segment does not start with its header magic'')
           else if u32_at bs 8 \<noteq> segment_version
           then Inl (Corruption ''WAL segment format version is not supported'')
           else if crc32c lib (take header_checked_len bs) \<noteq> u32_at bs header_checked_len
           then Inl (Corruption ''WAL segment header fails its checksum'')
           else if \<exists>b \<in> set (slice bs 84 header_checked_len). b \<noteq> 0
           then Inl (Corruption ''WAL segment header has nonzero reserved bytes'')
           else Inr \<lparr>sh_id = u64_at bs 12, sh_epoch = u64_at bs 20,
                     sh_holder = u128_from_le (slice bs 28 44), sh_first_seq = u64_at bs 44,
                     sh_prev = \<lparr>l_id = u64_at bs 52, l_last_seq = u64_at bs 60,
                                l_digest = u128_from_le (slice bs 68 84)\<rparr>\<rparr>)"

section \<open>The tail\<close>

text \<open>The \<^verbatim>\<open>BTreeMap\<close> of family maxima is an association list in ascending family order.\<close>

type_synonym family_max = "(u32 \<times> u64) list"

record segment_tail =
  t_record_count :: u64
  t_first_seq :: "u64 option"
  t_last_seq :: "u64 option"
  t_max_seq_per_cf :: family_max

definition empty_tail :: segment_tail where
  "empty_tail = \<lparr>t_record_count = 0, t_first_seq = None, t_last_seq = None, t_max_seq_per_cf = []\<rparr>"

fun admit_seqs :: "segment_header \<Rightarrow> u64 option \<Rightarrow> u64 list \<Rightarrow> string + unit" where
  "admit_seqs header prev [] = Inr ()"
| "admit_seqs header prev (seq # seqs) =
     (if seq < sh_first_seq header then Inl ''conflicting or repeated WAL sequence below the segment start''
      else if (case prev of None \<Rightarrow> False | Some l \<Rightarrow> seq \<le> l)
      then Inl ''conflicting or repeated WAL sequence''
      else admit_seqs header (Some seq) seqs)"

definition tail_admit_all :: "segment_tail \<Rightarrow> segment_header \<Rightarrow> u64 list \<Rightarrow> string + unit" where
  "tail_admit_all tail header seqs = admit_seqs header (t_last_seq tail) seqs"

definition tail_admit :: "segment_tail \<Rightarrow> segment_header \<Rightarrow> u64 \<Rightarrow> string + unit" where
  "tail_admit tail header seq = tail_admit_all tail header [seq]"

fun family_max_insert :: "u32 \<Rightarrow> u64 \<Rightarrow> family_max \<Rightarrow> family_max" where
  "family_max_insert cf seq [] = [(cf, seq)]"
| "family_max_insert cf seq ((c, s) # m) =
     (if cf < c then (cf, seq) # (c, s) # m
      else if cf = c then (c, max s seq) # m
      else (c, s) # family_max_insert cf seq m)"

definition tail_count :: "segment_tail \<Rightarrow> u64 \<Rightarrow> u32 \<Rightarrow> segment_tail" where
  "tail_count tail seq cf =
     \<lparr>t_record_count = saturating_add_u64 (t_record_count tail) 1,
      t_first_seq = (case t_first_seq tail of None \<Rightarrow> Some seq | Some f \<Rightarrow> Some f),
      t_last_seq = Some (case t_last_seq tail of None \<Rightarrow> seq | Some l \<Rightarrow> max l seq),
      t_max_seq_per_cf = family_max_insert cf seq (t_max_seq_per_cf tail)\<rparr>"

section \<open>The digest and the footer\<close>

record segment_digest =
  dg_bytes :: bytes
  dg_data_len :: u64

definition digest_update :: "segment_digest \<Rightarrow> bytes \<Rightarrow> segment_digest" where
  "digest_update d bs =
     \<lparr>dg_bytes = dg_bytes d @ bs,
      dg_data_len = saturating_add_u64 (dg_data_len d) (of_nat (length bs))\<rparr>"

definition digest_of :: "bytes \<Rightarrow> segment_digest" where
  "digest_of bs = digest_update \<lparr>dg_bytes = [], dg_data_len = 0\<rparr> bs"

definition digest_value :: "codec_lib \<Rightarrow> segment_digest \<Rightarrow> u128" where
  "digest_value lib d = xxh3_128 lib (dg_bytes d)"

record sealed_facts =
  sf_link :: chain_link
  sf_record_count :: u64
  sf_data_len :: u64
  sf_max_seq_per_cf :: family_max

record footer =
  ft_id :: segment_id
  ft_record_count :: u64
  ft_first_seq :: u64
  ft_last_seq :: u64
  ft_data_len :: u64
  ft_max_seq_per_cf :: family_max
  ft_digest :: u128

definition footer_magic :: bytes where "footer_magic = [77, 70]"
definition footer_version :: byte where "footer_version = 1"

definition footer_sealing ::
    "codec_lib \<Rightarrow> segment_header \<Rightarrow> segment_tail \<Rightarrow> segment_digest \<Rightarrow> footer" where
  "footer_sealing lib header tail d =
     \<lparr>ft_id = sh_id header, ft_record_count = t_record_count tail,
      ft_first_seq = (case t_first_seq tail of None \<Rightarrow> sh_first_seq header | Some s \<Rightarrow> s),
      ft_last_seq = (case t_last_seq tail of None \<Rightarrow> l_last_seq (sh_prev header) | Some s \<Rightarrow> s),
      ft_data_len = dg_data_len d, ft_max_seq_per_cf = t_max_seq_per_cf tail,
      ft_digest = digest_value lib d\<rparr>"

definition footer_sealed_facts :: "footer \<Rightarrow> sealed_facts" where
  "footer_sealed_facts f =
     \<lparr>sf_link = \<lparr>l_id = ft_id f, l_last_seq = ft_last_seq f, l_digest = ft_digest f\<rparr>,
      sf_record_count = ft_record_count f, sf_data_len = ft_data_len f,
      sf_max_seq_per_cf = ft_max_seq_per_cf f\<rparr>"

definition family_enc :: "u32 \<times> u64 \<Rightarrow> bytes" where
  "family_enc = (\<lambda>(cf, seq). u32_to_le cf @ u64_to_le seq)"

definition footer_encode_payload :: "footer \<Rightarrow> bytes" where
  "footer_encode_payload f =
     footer_magic @ [footer_version] @ u64_to_le (ft_id f) @ u64_to_le (ft_record_count f) @
     u64_to_le (ft_first_seq f) @ u64_to_le (ft_last_seq f) @ u64_to_le (ft_data_len f) @
     u32_to_le (of_nat (min u32_max (length (ft_max_seq_per_cf f)))) @
     concat (map family_enc (ft_max_seq_per_cf f)) @ u128_to_le (ft_digest f)"

definition footer_encode_frame :: "codec_lib \<Rightarrow> footer \<Rightarrow> bytes midge_result" where
  "footer_encode_frame lib f = append_frame lib [] (footer_encode_payload f)"

definition is_footer_payload :: "bytes \<Rightarrow> bool" where
  "is_footer_payload payload \<longleftrightarrow>
     length payload \<ge> 3 \<and> take 2 payload = footer_magic \<and> payload ! 2 = footer_version"

definition footer_take :: "nat \<Rightarrow> bytes \<Rightarrow> (bytes \<times> bytes) midge_result" where
  "footer_take len inp =
     (if length inp < len then Inl (Corruption ''WAL segment footer is truncated'')
      else Inr (take len inp, drop len inp))"

definition next_u64 :: "bytes \<Rightarrow> (u64 \<times> bytes) midge_result" where
  "next_u64 inp = try_with (footer_take 8 inp) (\<lambda>(bs, rest). Inr (u64_at bs 0, rest))"

definition next_family :: "bytes \<Rightarrow> ((u32 \<times> u64) \<times> bytes) midge_result" where
  "next_family inp =
     try_with (footer_take 12 inp) (\<lambda>(bs, rest). Inr ((u32_at bs 0, u64_at bs 4), rest))"

definition footer_decode_payload :: "bytes \<Rightarrow> footer midge_result" where
  "footer_decode_payload payload =
     (if \<not> is_footer_payload payload then Inl (Corruption ''WAL frame is not a segment footer'')
      else
        try_with (next_u64 (drop 3 payload)) (\<lambda>(sid, inp).
        try_with (next_u64 inp) (\<lambda>(count, inp).
        try_with (next_u64 inp) (\<lambda>(first, inp).
        try_with (next_u64 inp) (\<lambda>(lst, inp).
        try_with (next_u64 inp) (\<lambda>(len, inp).
        try_with (footer_take 4 inp) (\<lambda>(fs, inp).
          if unat (u32_at fs 0) > length inp div 12
          then Inl (Corruption ''WAL segment footer family count exceeds its bytes'')
          else
            try_with (read_indexed (\<lambda>_. next_family) 0 (unat (u32_at fs 0)) inp) (\<lambda>(families, inp).
              if \<not> adjacent_all (\<lambda>a b. fst a < fst b) families
              then Inl (Corruption ''WAL segment footer families are not in order'')
              else
                try_with (footer_take 16 inp) (\<lambda>(digest, inp).
                  if inp \<noteq> [] then Inl (Corruption ''WAL segment footer has trailing bytes'')
                  else Inr \<lparr>ft_id = sid, ft_record_count = count, ft_first_seq = first,
                            ft_last_seq = lst, ft_data_len = len, ft_max_seq_per_cf = families,
                            ft_digest = u128_from_le digest\<rparr>)))))))))"

definition has_segment_frame_prefix :: "bytes \<Rightarrow> bool" where
  "has_segment_frame_prefix data \<longleftrightarrow>
     (length data \<ge> prefix_len \<and> take 2 data = wal_magic \<and> data ! 2 = wal_version) \<or>
     is_footer_payload data"

definition decodes_as_segment_frame :: "bytes \<Rightarrow> bool" where
  "decodes_as_segment_frame payload \<longleftrightarrow>
     is_ok (decode_view payload) \<or> is_ok (footer_decode_payload payload)"

section \<open>The scan\<close>

datatype scanned_frame = ScannedRecord | ScannedFooter

record segment_scan =
  sc_header :: segment_header
  sc_digest :: segment_digest
  sc_tail :: segment_tail
  sc_footer :: "(footer \<times> u64) option"

definition scan_start :: "codec_lib \<Rightarrow> bytes \<Rightarrow> segment_scan midge_result" where
  "scan_start lib header_bytes =
     try_with (header_decode lib header_bytes) (\<lambda>header.
       Inr \<lparr>sc_header = header, sc_digest = digest_of (take header_len header_bytes),
            sc_tail = empty_tail, sc_footer = None\<rparr>)"

definition scan_sealing :: "codec_lib \<Rightarrow> segment_scan \<Rightarrow> footer" where
  "scan_sealing lib sc = footer_sealing lib (sc_header sc) (sc_tail sc) (sc_digest sc)"

definition scan_frame ::
    "codec_lib \<Rightarrow> segment_scan \<Rightarrow> bytes \<Rightarrow> (scanned_frame \<times> segment_scan) midge_result" where
  "scan_frame lib sc payload =
     (if sc_footer sc \<noteq> None then Inl (Corruption ''bytes follow the footer of WAL segment'')
      else if is_footer_payload payload then
        try_with (footer_decode_payload payload) (\<lambda>footer.
          if footer \<noteq> scan_sealing lib sc
          then Inl (Corruption ''the footer of WAL segment does not match its records'')
          else
            let end = saturating_add_u64 (dg_data_len (sc_digest sc))
                        (of_nat (wal_frame_header_len + length payload))
            in Inr (ScannedFooter, sc\<lparr>sc_footer := Some (footer, end)\<rparr>))
      else
        try_with (map_err (\<lambda>_. Corruption ''WAL frame exceeds the frame limits'')
            (frame_header lib payload)) (\<lambda>fh.
          Inr (ScannedRecord,
            sc\<lparr>sc_digest := digest_update (digest_update (sc_digest sc) fh) payload\<rparr>)))"

definition scan_check_record :: "segment_scan \<Rightarrow> u64 \<Rightarrow> unit midge_result" where
  "scan_check_record sc seq =
     (if sc_footer sc \<noteq> None then Inl (Corruption ''bytes follow the footer of WAL segment'')
      else map_err Corruption (tail_admit (sc_tail sc) (sc_header sc) seq))"

definition scan_observe :: "segment_scan \<Rightarrow> u64 \<Rightarrow> u32 \<Rightarrow> segment_scan midge_result" where
  "scan_observe sc seq cf =
     try_with (scan_check_record sc seq) (\<lambda>_.
       Inr (sc\<lparr>sc_tail := tail_count (sc_tail sc) seq cf\<rparr>))"

definition scan_finish :: "segment_scan \<Rightarrow> u64 \<Rightarrow> unit midge_result" where
  "scan_finish sc len =
     (case sc_footer sc of
        Some (_, end) \<Rightarrow>
          if end \<noteq> len then Inl (Corruption ''bytes follow the footer of WAL segment'') else Inr ()
      | None \<Rightarrow> Inr ())"

section \<open>The header round trip\<close>

lemmas header_consts = header_len_def header_checked_len_def header_magic_def segment_version_def

lemma length_header_body [simp]: "length (header_body h) = header_checked_len"
  by (simp add: header_body_def header_consts)

lemma length_header_encode [simp]: "length (header_encode lib h) = header_len"
  by (simp add: header_encode_def header_consts)

lemma header_decode_encode [simp]: "header_decode lib (header_encode lib h @ rest) = Inr h"
proof -
  have "take header_len (header_encode lib h @ rest) = header_encode lib h" by simp
  moreover have "take header_checked_len (header_encode lib h) = header_body h"
    by (simp add: header_encode_def)
  moreover have "u32_at (header_encode lib h) header_checked_len = crc32c lib (header_body h)"
    by (simp add: header_encode_def u32_at_def slice_def)
  ultimately show ?thesis
    by (simp add: header_decode_def Let_def)
      (simp add: header_encode_def header_body_def header_consts u32_at_def u64_at_def slice_def)
qed

lemma zero_bytes: "(\<forall>b \<in> set bs. b = 0) \<longleftrightarrow> bs = replicate (length bs) (0 :: byte)"
  by (metis in_set_replicate replicate_eqI)

lemma header_decode_exact:
  assumes "header_decode lib input = Inr h"
  shows "take header_len input = header_encode lib h"
proof -
  define bs where "bs = take header_len input"
  have len: "length bs = header_len" and magic: "take 8 bs = header_magic"
    and version: "u32_at bs 8 = segment_version"
    and crc: "crc32c lib (take header_checked_len bs) = u32_at bs header_checked_len"
    and zero: "\<forall>b \<in> set (slice bs 84 header_checked_len). b = 0"
    and h: "h = \<lparr>sh_id = u64_at bs 12, sh_epoch = u64_at bs 20,
                 sh_holder = u128_from_le (slice bs 28 44), sh_first_seq = u64_at bs 44,
                 sh_prev = \<lparr>l_id = u64_at bs 52, l_last_seq = u64_at bs 60,
                            l_digest = u128_from_le (slice bs 68 84)\<rparr>\<rparr>"
    using assms unfolding header_decode_def Let_def bs_def [symmetric]
    by (simp_all add: bs_def not_less split: if_splits)
  have v: "slice bs 8 12 = u32_to_le segment_version"
    using version len u32_to_from_le [of "slice bs 8 12"] by (simp add: u32_at_def header_len_def)
  have z: "slice bs 84 header_checked_len = replicate 40 0"
    using zero len by (simp add: zero_bytes header_consts)
  have d: "u64_to_le (u64_at bs i) = slice bs i (i + 8)" if "i + 8 \<le> header_len" for i
    unfolding u64_at_def by (rule u64_to_from_le) (use that len in simp)
  have "header_body h = take 8 bs @ slice bs 8 12 @ slice bs 12 20 @ slice bs 20 28 @
      slice bs 28 44 @ slice bs 44 52 @ slice bs 52 60 @ slice bs 60 68 @ slice bs 68 84 @
      slice bs 84 header_checked_len"
    using len d [of 12] d [of 20] d [of 44] d [of 52] d [of 60]
    by (simp add: header_body_def h magic v z u128_to_from_le header_len_def)
  also have "\<dots> = slice bs 0 header_checked_len"
    using len unfolding slice_0 [symmetric] by (simp add: slice_join header_consts del: slice_0)
  finally have "header_body h = slice bs 0 header_checked_len" .
  moreover have "u32_to_le (crc32c lib (take header_checked_len bs)) =
      slice bs header_checked_len header_len"
    using len unfolding crc u32_at_def by (subst u32_to_from_le) (simp_all add: header_consts)
  ultimately have "header_encode lib h = slice bs 0 header_checked_len @ slice bs header_checked_len header_len"
    by (simp add: header_encode_def)
  also have "\<dots> = bs" using len by (simp add: slice_def header_consts)
  finally show ?thesis by (simp add: bs_def)
qed

text \<open>
  C29. The header codec is exact: decoding accepts precisely the inputs whose first 128
  bytes are the encoding of a header, and returns that header. In particular it accepts no
  second spelling of a header, so the chain digest covers the same bytes as the decoded
  facts.
\<close>

theorem header_codec_exact:
  "header_decode lib input = Inr h \<longleftrightarrow> take header_len input = header_encode lib h"
proof
  assume e: "take header_len input = header_encode lib h"
  have "input = header_encode lib h @ drop header_len input"
    by (metis append_take_drop_id e)
  then show "header_decode lib input = Inr h" by (metis header_decode_encode)
qed (rule header_decode_exact)

section \<open>The footer round trip\<close>

lemma footer_take_iff:
  "footer_take n inp = Inr (a, rest) \<longleftrightarrow> length a = n \<and> inp = a @ rest"
  by (auto simp: footer_take_def not_less min_def)

interpretation next_u64_wire: exact_wire u64_to_le "\<lambda>_. next_u64" "\<lambda>_ _. True"
  by unfold_locales
    (auto simp: next_u64_def footer_take_def u64_at_def slice_def u64_to_from_le split: if_splits)

lemma length_family_enc [simp]: "length (family_enc x) = 12"
  by (simp add: family_enc_def split: prod.split)

lemma next_family_exact:
  assumes "next_family inp = Inr (a, rest)"
  shows "inp = family_enc a @ rest"
proof -
  from assms obtain bs where bs: "length bs = 12" "inp = bs @ rest" "a = (u32_at bs 0, u64_at bs 4)"
    by (auto simp: next_family_def footer_take_iff)
  have "take 4 bs @ take 8 (drop 4 bs) = bs" using bs(1) by simp
  with bs show ?thesis
    by (simp add: family_enc_def u32_at_def u64_at_def slice_def u32_to_from_le u64_to_from_le)
qed

interpretation family_wire: exact_wire family_enc "\<lambda>_. next_family" "\<lambda>_ _. True"
proof
  show "next_family (family_enc a @ rest) = Inr (a, rest)" for a rest
    by (cases a) (simp add: next_family_def footer_take_def family_enc_def u32_at_def u64_at_def slice_def)
qed (simp add: next_family_exact)

definition footer_wf :: "footer \<Rightarrow> bool" where
  "footer_wf f \<longleftrightarrow> adjacent_all (\<lambda>a b. fst a < fst b) (ft_max_seq_per_cf f) \<and>
     length (ft_max_seq_per_cf f) \<le> u32_max"

lemma is_footer_payload_iff:
  "is_footer_payload p \<longleftrightarrow> (\<exists>rest. p = footer_magic @ [footer_version] @ rest)"
proof
  assume p: "is_footer_payload p"
  then have "p = footer_magic @ footer_version # drop (Suc 2) p"
    using id_take_nth_drop [of 2 p] unfolding is_footer_payload_def by simp
  then show "\<exists>rest. p = footer_magic @ [footer_version] @ rest" by auto
qed (auto simp: is_footer_payload_def footer_magic_def)

lemma length_families [simp]: "length (concat (map family_enc xs)) = 12 * length xs"
  by (induction xs) simp_all

lemma footer_decode_encode:
  assumes "footer_wf f"
  shows "footer_decode_payload (footer_encode_payload f) = Inr f"
proof -
  have n: "unat (of_nat (length (ft_max_seq_per_cf f)) :: u32) = length (ft_max_seq_per_cf f)"
    using assms by (simp add: footer_wf_def unat_of_nat)
  have d: "drop 3 (footer_encode_payload f) = u64_to_le (ft_id f) @ u64_to_le (ft_record_count f) @
     u64_to_le (ft_first_seq f) @ u64_to_le (ft_last_seq f) @ u64_to_le (ft_data_len f) @
     u32_to_le (of_nat (length (ft_max_seq_per_cf f))) @
     concat (map family_enc (ft_max_seq_per_cf f)) @ u128_to_le (ft_digest f)"
    using assms by (simp add: footer_encode_payload_def footer_magic_def footer_wf_def)
  have t: "footer_take 4 (u32_to_le w @ rest) = Inr (u32_to_le w, rest)" for w rest
    by (simp add: footer_take_iff)
  have t': "footer_take 16 (u128_to_le w) = Inr (u128_to_le w, [])" for w
    by (simp add: footer_take_iff)
  have "is_footer_payload (footer_encode_payload f)"
    by (auto simp: is_footer_payload_iff footer_encode_payload_def)
  then show ?thesis using assms
    by (simp add: footer_decode_payload_def d next_u64_wire.rd_wr t t' u32_at_def n
        family_wire.rd_wr_list footer_wf_def)
qed

lemma footer_decode_exact:
  assumes "footer_decode_payload p = Inr f"
  shows "footer_wf f \<and> p = footer_encode_payload f"
proof -
  from assms obtain i1 i2 i3 i4 i5 fs inp i6 digest where
    start: "is_footer_payload p"
    and reads: "next_u64 (drop 3 p) = Inr (ft_id f, i1)" "next_u64 i1 = Inr (ft_record_count f, i2)"
      "next_u64 i2 = Inr (ft_first_seq f, i3)" "next_u64 i3 = Inr (ft_last_seq f, i4)"
      "next_u64 i4 = Inr (ft_data_len f, i5)" "footer_take 4 i5 = Inr (fs, inp)"
      "footer_take 16 i6 = Inr (digest, [])"
    and fam: "read_indexed (\<lambda>_. next_family) 0 (unat (u32_at fs 0)) inp = Inr (ft_max_seq_per_cf f, i6)"
    and sorted: "adjacent_all (\<lambda>a b. fst a < fst b) (ft_max_seq_per_cf f)"
    and digest: "ft_digest f = u128_from_le digest"
    unfolding footer_decode_payload_def by (clarsimp split: if_splits)
  from start obtain r where r: "p = footer_magic @ [footer_version] @ r"
    by (auto simp: is_footer_payload_iff)
  then have "r = drop 3 p" by (simp add: footer_magic_def)
  note reads = reads [unfolded next_u64_wire.rd_iff footer_take_iff]
  from family_wire.rd_list_exact [OF fam] have
    l: "length (ft_max_seq_per_cf f) = unat (u32_at fs 0)" and
    i: "inp = concat (map family_enc (ft_max_seq_per_cf f)) @ i6" by auto
  have "u32_to_le (of_nat (length (ft_max_seq_per_cf f))) = fs"
    unfolding l using reads by (simp add: u32_at_def u32_to_from_le)
  moreover have "length (ft_max_seq_per_cf f) \<le> u32_max" by (simp add: l)
  ultimately show ?thesis using r \<open>r = drop 3 p\<close> reads i sorted digest
    by (simp add: footer_wf_def footer_encode_payload_def u128_to_from_le min_absorb2)
qed

text \<open>
  C30. The footer codec is exact: a payload decodes to a footer precisely when it is the
  encoding of that footer and the footer's families are strictly ascending and countable in
  32 bits. Truncated payloads, trailing bytes, unordered families and a family count beyond
  the bytes are all refused.
\<close>

theorem footer_codec_exact:
  "footer_decode_payload p = Inr f \<longleftrightarrow> footer_wf f \<and> p = footer_encode_payload f"
  using footer_decode_encode footer_decode_exact by blast

end
