(* ===== verification/Wal_Ledger.thy ===== *)
theory Wal_Ledger
  imports Wal_Segment
begin

text \<open>
  The WAL segment ledger (\<^verbatim>\<open>src/src/wal/ledger.rs\<close>): which segments are history, how they
  chain, the next segment id, the retirement point and the sequence reservation. Each edit is
  a function that returns the changed ledger or the error that refuses it; the source leaves
  the ledger as it was in that case. A holder is its 128-bit identity. A ledger always has an
  open member (see the invariant), so \<^const>\<open>last\<close> stands for \<^verbatim>\<open>members.back().expect(..)\<close>.
\<close>

section \<open>State and edits\<close>

record member =
  m_open :: open_facts
  m_sealed :: "sealed_facts option"
  m_durable_bytes :: "u64 option"

definition member_id :: "member \<Rightarrow> segment_id" where
  "member_id m = o_id (m_open m)"

definition member_opened :: "open_facts \<Rightarrow> member" where
  "member_opened f = \<lparr>m_open = f, m_sealed = None, m_durable_bytes = Some (of_nat header_len)\<rparr>"

datatype ledger_edit =
    Rotate sealed_facts open_facts
  | Reopen open_facts
  | AdvanceLogStart segment_id
  | SetAside segment_id "sealed_facts option" open_facts
  | Rebase chain_link open_facts
  | Reserve u64
  | SyncOpen segment_id u64
  | SalvageOpen segment_id u64 u64

record wal_ledger =
  g_holder :: u128
  g_anchor :: chain_link
  g_members :: "member list"
  g_next_segment_id :: segment_id
  g_seq_reserved_through :: u64

datatype ledger_error =
    NotOpenSegment segment_id segment_id
  | NotNextSegment segment_id segment_id
  | BadLogStart segment_id segment_id segment_id
  | BadSetAside segment_id segment_id segment_id segment_id
  | BrokenChain string
  | ReservationNotRaised u64 u64
  | SegmentIdsExhausted
  | UnreachableState string

definition following :: "segment_id \<Rightarrow> ledger_error + segment_id" where
  "following sid = ok_or SegmentIdsExhausted (checked_add_u64 sid 1)"

definition opens_after :: "open_facts \<Rightarrow> chain_link \<Rightarrow> u64 option \<Rightarrow> ledger_error + unit" where
  "opens_after f prev epoch = map_err BrokenChain (follows prev epoch f)"

definition seals :: "open_facts \<Rightarrow> sealed_facts \<Rightarrow> ledger_error + unit" where
  "seals f sealed =
     (let consistent =
        (if sf_record_count sealed = 0
         then l_last_seq (sf_link sealed) = l_last_seq (o_prev f) \<and> sf_max_seq_per_cf sealed = []
         else l_last_seq (sf_link sealed) \<ge> o_first_seq f \<and>
              (\<forall>(_, seq) \<in> set (sf_max_seq_per_cf sealed).
                 o_first_seq f \<le> seq \<and> seq \<le> l_last_seq (sf_link sealed)))
      in if consistent \<and> l_id (sf_link sealed) = o_id f then Inr ()
         else Inl (BrokenChain ''the facts cannot seal the segment''))"

section \<open>Reading the ledger\<close>

definition open_member :: "wal_ledger \<Rightarrow> member" where
  "open_member l = last (g_members l)"

definition open_segment :: "wal_ledger \<Rightarrow> segment_id" where
  "open_segment l = member_id (open_member l)"

definition log_start :: "wal_ledger \<Rightarrow> segment_id" where
  "log_start l = (case g_members l of [] \<Rightarrow> g_next_segment_id l | m # _ \<Rightarrow> member_id m)"

definition newest_epoch :: "wal_ledger \<Rightarrow> u64" where
  "newest_epoch l = fold (\<lambda>m e. max e (o_epoch (m_open m))) (g_members l) 0"

definition sealed_ids :: "wal_ledger \<Rightarrow> segment_id list" where
  "sealed_ids l = map member_id (take (length (g_members l) - 1) (g_members l))"

text \<open>The members below an id: \<^verbatim>\<open>partition_point\<close> on ids that increase.\<close>

definition members_below :: "segment_id \<Rightarrow> member list \<Rightarrow> nat" where
  "members_below sid ms = length (takeWhile (\<lambda>m. member_id m < sid) ms)"

definition expected :: "wal_ledger \<Rightarrow> segment_id \<Rightarrow> member option" where
  "expected l sid = find (\<lambda>m. member_id m = sid) (g_members l)"

definition is_member :: "wal_ledger \<Rightarrow> segment_id \<Rightarrow> bool" where
  "is_member l sid \<longleftrightarrow> expected l sid \<noteq> None"

definition member_retirable :: "(u32 \<Rightarrow> u64 \<Rightarrow> bool) \<Rightarrow> member \<Rightarrow> bool" where
  "member_retirable covered m =
     (case m_sealed m of
        None \<Rightarrow> False
      | Some facts \<Rightarrow>
          \<not> ((sf_record_count facts > 0 \<and> sf_max_seq_per_cf facts = []) \<or>
             \<not> (\<forall>(cf, sequence) \<in> set (sf_max_seq_per_cf facts). covered cf sequence)))"

fun retirable_run :: "(u32 \<Rightarrow> u64 \<Rightarrow> bool) \<Rightarrow> segment_id option \<Rightarrow> member list \<Rightarrow> segment_id option" where
  "retirable_run covered below [] = below"
| "retirable_run covered below (m # ms) =
     (if member_retirable covered m then retirable_run covered (checked_add_u64 (member_id m) 1) ms
      else below)"

definition retirable_prefix :: "wal_ledger \<Rightarrow> (u32 \<Rightarrow> u64 \<Rightarrow> bool) \<Rightarrow> segment_id option" where
  "retirable_prefix l covered = retirable_run covered None (g_members l)"

section \<open>Applying edits\<close>

definition genesis :: "u128 \<Rightarrow> chain_link \<Rightarrow> open_facts \<Rightarrow> ledger_error + wal_ledger" where
  "genesis holder anchor f =
     try_with (opens_after f anchor None) (\<lambda>_.
     try_with (following (o_id f)) (\<lambda>next_id.
       Inr \<lparr>g_holder = holder, g_anchor = anchor, g_members = [member_opened f],
            g_next_segment_id = next_id, g_seq_reserved_through = 0\<rparr>))"

definition expect_next :: "wal_ledger \<Rightarrow> segment_id \<Rightarrow> ledger_error + unit" where
  "expect_next l sid =
     (if sid = g_next_segment_id l then Inr () else Inl (NotNextSegment sid (g_next_segment_id l)))"

definition rotate :: "wal_ledger \<Rightarrow> sealed_facts \<Rightarrow> open_facts \<Rightarrow> ledger_error + wal_ledger" where
  "rotate l sealed f =
     (let m = open_member l
      in if l_id (sf_link sealed) \<noteq> member_id m
         then Inl (NotOpenSegment (l_id (sf_link sealed)) (member_id m))
         else
           try_with (expect_next l (o_id f)) (\<lambda>_.
           try_with (seals (m_open m) sealed) (\<lambda>_.
           try_with (opens_after f (sf_link sealed) (Some (o_epoch (m_open m)))) (\<lambda>_.
           try_with (following (o_id f)) (\<lambda>next_id.
             Inr (l\<lparr>g_members := butlast (g_members l) @ [m\<lparr>m_sealed := Some sealed\<rparr>, member_opened f],
                    g_next_segment_id := next_id\<rparr>))))))"

definition reopen :: "wal_ledger \<Rightarrow> open_facts \<Rightarrow> ledger_error + wal_ledger" where
  "reopen l f =
     (let replaced = m_open (open_member l)
      in try_with (expect_next l (o_id f)) (\<lambda>_.
         try_with (opens_after f (o_prev replaced) (Some (o_epoch replaced))) (\<lambda>_.
         try_with (following (o_id f)) (\<lambda>next_id.
           Inr (l\<lparr>g_members := butlast (g_members l) @ [member_opened f],
                  g_next_segment_id := next_id\<rparr>)))))"

definition advance_log_start :: "wal_ledger \<Rightarrow> segment_id \<Rightarrow> ledger_error + wal_ledger" where
  "advance_log_start l to =
     (if to \<le> log_start l \<or> to > open_segment l
      then Inl (BadLogStart to (log_start l) (open_segment l))
      else
        let retired = members_below to (g_members l);
            anchor = (if retired = 0 then g_anchor l
                      else (case m_sealed (g_members l ! (retired - 1)) of
                              None \<Rightarrow> g_anchor l
                            | Some sealed \<Rightarrow> sf_link sealed))
        in Inr (l\<lparr>g_members := drop retired (g_members l), g_anchor := anchor\<rparr>))"

definition set_aside_prev ::
    "wal_ledger \<Rightarrow> nat \<Rightarrow> sealed_facts option \<Rightarrow> ledger_error + chain_link" where
  "set_aside_prev l kept reseal =
     (case (if kept = 0 then None else Some (g_members l ! (kept - 1)), reseal) of
        (Some m, Some c) \<Rightarrow>
          if l_id (sf_link c) \<noteq> member_id m
          then Inl (BrokenChain ''the cut seals another segment than the last kept member'')
          else try_with (seals (m_open m) c) (\<lambda>_. Inr (sf_link c))
      | (Some m, None) \<Rightarrow>
          (case m_sealed m of
             Some sealed \<Rightarrow> Inr (sf_link sealed)
           | None \<Rightarrow> Inl (BrokenChain ''the kept member is unsealed and nothing cuts it''))
      | (None, Some c) \<Rightarrow> Inl (BrokenChain ''the cut seals a segment but no member is kept'')
      | (None, None) \<Rightarrow> Inr (g_anchor l))"

definition cut_member :: "sealed_facts \<Rightarrow> member \<Rightarrow> member" where
  "cut_member c m =
     m\<lparr>m_sealed := Some c, m_durable_bytes := map_option (\<lambda>b. min b (sf_data_len c)) (m_durable_bytes m)\<rparr>"

definition set_aside ::
    "wal_ledger \<Rightarrow> segment_id \<Rightarrow> sealed_facts option \<Rightarrow> open_facts \<Rightarrow> ledger_error + wal_ledger" where
  "set_aside l from_id reseal f =
     (if from_id < log_start l \<or> o_id f < g_next_segment_id l
      then Inl (BadSetAside from_id (o_id f) (log_start l) (g_next_segment_id l))
      else
        let kept = members_below from_id (g_members l)
        in try_with (set_aside_prev l kept reseal) (\<lambda>prev.
           try_with (opens_after f prev (Some (newest_epoch l))) (\<lambda>_.
           try_with (following (o_id f)) (\<lambda>next_id.
             let ms = take kept (g_members l);
                 ms = (case reseal of
                         Some c \<Rightarrow> if ms = [] then ms else butlast ms @ [cut_member c (last ms)]
                       | None \<Rightarrow> ms)
             in Inr (l\<lparr>g_members := ms @ [member_opened f], g_next_segment_id := next_id\<rparr>)))))"

definition rebase :: "wal_ledger \<Rightarrow> chain_link \<Rightarrow> open_facts \<Rightarrow> ledger_error + wal_ledger" where
  "rebase l anchor f =
     (if o_id f < g_next_segment_id l then Inl (NotNextSegment (o_id f) (g_next_segment_id l))
      else
        try_with (opens_after f anchor (Some (newest_epoch l))) (\<lambda>_.
        try_with (following (o_id f)) (\<lambda>next_id.
          Inr (l\<lparr>g_members := [member_opened f], g_anchor := anchor, g_next_segment_id := next_id\<rparr>))))"

definition salvage_open :: "wal_ledger \<Rightarrow> segment_id \<Rightarrow> u64 \<Rightarrow> u64 \<Rightarrow> ledger_error + wal_ledger" where
  "salvage_open l sid valid_bytes floor_seq =
     (if sid \<noteq> open_segment l \<or> valid_bytes < of_nat header_len
      then Inl (BrokenChain ''invalid open WAL salvage boundary'')
      else
        let m = open_member l;
            durable = (case m_durable_bytes m of None \<Rightarrow> valid_bytes | Some b \<Rightarrow> min b valid_bytes)
        in Inr (l\<lparr>g_members := butlast (g_members l) @ [m\<lparr>m_durable_bytes := Some durable\<rparr>],
                  g_seq_reserved_through := max (g_seq_reserved_through l) floor_seq\<rparr>))"

definition sync_open :: "wal_ledger \<Rightarrow> segment_id \<Rightarrow> u64 \<Rightarrow> ledger_error + wal_ledger" where
  "sync_open l sid through_bytes =
     (let m = open_member l
      in if sid \<noteq> member_id m \<or>
            through_bytes < (case m_durable_bytes m of None \<Rightarrow> of_nat header_len | Some b \<Rightarrow> b)
         then Inl (BrokenChain ''WAL sync boundary must advance the open member'')
         else Inr (l\<lparr>g_members := butlast (g_members l) @ [m\<lparr>m_durable_bytes := Some through_bytes\<rparr>]\<rparr>))"

definition reserve :: "wal_ledger \<Rightarrow> u64 \<Rightarrow> ledger_error + wal_ledger" where
  "reserve l through =
     (if through \<le> g_seq_reserved_through l
      then Inl (ReservationNotRaised through (g_seq_reserved_through l))
      else Inr (l\<lparr>g_seq_reserved_through := through\<rparr>))"

fun ledger_apply :: "wal_ledger \<Rightarrow> ledger_edit \<Rightarrow> ledger_error + wal_ledger" where
  "ledger_apply l (Rotate sealed f) = rotate l sealed f"
| "ledger_apply l (Reopen f) = reopen l f"
| "ledger_apply l (AdvanceLogStart to) = advance_log_start l to"
| "ledger_apply l (SetAside from_id reseal f) = set_aside l from_id reseal f"
| "ledger_apply l (Rebase anchor f) = rebase l anchor f"
| "ledger_apply l (Reserve through) = reserve l through"
| "ledger_apply l (SyncOpen sid through_bytes) = sync_open l sid through_bytes"
| "ledger_apply l (SalvageOpen sid valid_bytes floor_seq) = salvage_open l sid valid_bytes floor_seq"

definition ledger_check :: "wal_ledger \<Rightarrow> ledger_edit \<Rightarrow> ledger_error + unit" where
  "ledger_check l edit = try_with (ledger_apply l edit) (\<lambda>_. Inr ())"

section \<open>The serialized form\<close>

record ledger_image =
  i_holder :: u128
  i_anchor :: chain_link
  i_members :: "member list"
  i_next_segment_id :: segment_id
  i_seq_reserved_through :: u64

definition ledger_to_image :: "wal_ledger \<Rightarrow> ledger_image" where
  "ledger_to_image l =
     \<lparr>i_holder = g_holder l, i_anchor = g_anchor l, i_members = g_members l,
      i_next_segment_id = g_next_segment_id l, i_seq_reserved_through = g_seq_reserved_through l\<rparr>"

definition durable_invalid :: "member \<Rightarrow> bool" where
  "durable_invalid m =
     (case m_durable_bytes m of
        None \<Rightarrow> False
      | Some b \<Rightarrow> b < of_nat header_len \<or>
                   (case m_sealed m of None \<Rightarrow> False | Some s \<Rightarrow> b > sf_data_len s))"

fun check_members :: "chain_link \<Rightarrow> u64 option \<Rightarrow> member list \<Rightarrow> ledger_error + unit" where
  "check_members prev epoch [] = Inr ()"
| "check_members prev epoch (m # ms) =
     (if durable_invalid m then Inl (UnreachableState ''invalid durable WAL byte boundary'')
      else
        try_with (map_err (\<lambda>_. UnreachableState ''the members do not chain'')
            (opens_after (m_open m) prev epoch)) (\<lambda>_.
          case m_sealed m of
            None \<Rightarrow> check_members prev (Some (o_epoch (m_open m))) ms
          | Some facts \<Rightarrow>
              try_with (map_err (\<lambda>_. UnreachableState ''a member's facts do not seal it'')
                  (seals (m_open m) facts)) (\<lambda>_.
                check_members (sf_link facts) (Some (o_epoch (m_open m))) ms)))"

definition ledger_of_image :: "ledger_image \<Rightarrow> ledger_error + wal_ledger" where
  "ledger_of_image img =
     (if i_members img = [] then Inl (UnreachableState ''the ledger has no open segment'')
      else
        let opn = last (i_members img); sealed = butlast (i_members img)
        in if m_sealed opn \<noteq> None \<or> (\<exists>m \<in> set sealed. m_sealed m = None)
           then Inl (UnreachableState ''only the open segment is unsealed'')
           else if checked_add_u64 (member_id opn) 1 \<noteq> Some (i_next_segment_id img)
           then Inl (UnreachableState ''the next segment id does not follow the open segment'')
           else
             try_with (check_members (i_anchor img) None (i_members img)) (\<lambda>_.
               Inr \<lparr>g_holder = i_holder img, g_anchor = i_anchor img,
                    g_members = i_members img, g_next_segment_id = i_next_segment_id img,
                    g_seq_reserved_through = i_seq_reserved_through img\<rparr>))"

section \<open>The invariant\<close>

text \<open>A ledger is sound when its serialized form is accepted and read back as itself.\<close>

definition ledger_ok :: "wal_ledger \<Rightarrow> bool" where
  "ledger_ok l \<longleftrightarrow> ledger_of_image (ledger_to_image l) = Inr l"

definition all_sealed :: "member list \<Rightarrow> bool" where
  "all_sealed ms \<longleftrightarrow> (\<forall>m \<in> set ms. m_sealed m \<noteq> None)"

lemma ledger_ok_iff:
  "ledger_ok l \<longleftrightarrow>
     (\<exists>ss m. g_members l = ss @ [m] \<and> all_sealed ss \<and> m_sealed m = None \<and>
        checked_add_u64 (member_id m) 1 = Some (g_next_segment_id l) \<and>
        check_members (g_anchor l) None (ss @ [m]) = Inr ())" (is "_ \<longleftrightarrow> ?r")
proof
  assume "ledger_ok l"
  then have "g_members l \<noteq> []" and rest: "m_sealed (last (g_members l)) = None"
    "all_sealed (butlast (g_members l))"
    "checked_add_u64 (member_id (last (g_members l))) 1 = Some (g_next_segment_id l)"
    "check_members (g_anchor l) None (g_members l) = Inr ()"
    by (auto simp: ledger_ok_def ledger_of_image_def ledger_to_image_def Let_def all_sealed_def
        split: if_splits)
  then show ?r
    by (intro exI [of _ "butlast (g_members l)"] exI [of _ "last (g_members l)"]) simp
next
  assume ?r
  then show "ledger_ok l"
    by (auto simp: ledger_ok_def ledger_of_image_def ledger_to_image_def Let_def all_sealed_def)
qed

definition link_after :: "chain_link \<Rightarrow> member list \<Rightarrow> chain_link" where
  "link_after prev ms = (if ms = [] then prev else sf_link (the (m_sealed (last ms))))"

definition epoch_after :: "u64 option \<Rightarrow> member list \<Rightarrow> u64 option" where
  "epoch_after e ms = (if ms = [] then e else Some (o_epoch (m_open (last ms))))"

lemma check_members_append:
  "all_sealed ss \<Longrightarrow>
   check_members p e (ss @ ts) = Inr () \<longleftrightarrow>
     check_members p e ss = Inr () \<and> check_members (link_after p ss) (epoch_after e ss) ts = Inr ()"
proof (induction ss arbitrary: p e)
  case Nil
  then show ?case by (simp add: link_after_def epoch_after_def)
next
  case (Cons m ss)
  then obtain f where f: "m_sealed m = Some f" and ss: "all_sealed ss" by (auto simp: all_sealed_def)
  have "link_after (sf_link f) ss = link_after p (m # ss)"
    "epoch_after (Some (o_epoch (m_open m))) ss = epoch_after e (m # ss)"
    using f by (simp_all add: link_after_def epoch_after_def)
  with f Cons.IH [OF ss] show ?case by auto
qed

lemma opens_after_iff:
  "opens_after f prev e = Inr () \<longleftrightarrow>
     o_prev f = prev \<and> l_last_seq prev < o_first_seq f \<and> l_id prev < o_id f \<and>
     (\<forall>x. e = Some x \<longrightarrow> x \<le> o_epoch f)"
  by (auto simp: opens_after_def follows_def not_le not_less split: option.splits if_splits)

lemma seals_id: "seals f s = Inr () \<Longrightarrow> l_id (sf_link s) = o_id f"
  by (auto simp: seals_def Let_def split: if_splits)

lemma opens_after_None: "opens_after f prev e = Inr () \<Longrightarrow> opens_after f prev None = Inr ()"
  by (simp add: opens_after_iff)

lemma check_members_single:
  "m_sealed m = None \<Longrightarrow>
   check_members p e [m] = Inr () \<longleftrightarrow> \<not> durable_invalid m \<and> opens_after (m_open m) p e = Inr ()"
  by auto

lemma check_members_None: "check_members p e ms = Inr () \<Longrightarrow> check_members p None ms = Inr ()"
  by (cases ms) (auto simp: opens_after_None split: option.splits if_splits)

lemma durable_opened [simp]: "\<not> durable_invalid (member_opened f)"
  by (simp add: durable_invalid_def member_opened_def)

lemma member_opened_simps [simp]:
  "m_sealed (member_opened f) = None" "member_id (member_opened f) = o_id f" "m_open (member_opened f) = f"
  by (simp_all add: member_opened_def member_id_def)

lemma following_iff: "following sid = Inr n \<longleftrightarrow> checked_add_u64 sid 1 = Some n"
  by (cases "checked_add_u64 sid 1") (auto simp: following_def)

lemma checked_succ:
  assumes "checked_add_u64 a 1 = Some b"
  shows "unat b = unat a + 1" "a < b" "\<And>c. c < b \<longleftrightarrow> c \<le> a"
proof -
  from assms show u: "unat b = unat a + 1" by (auto simp: checked_add_u64_Some unat_add_u64)
  then show "a < b" "c < b \<longleftrightarrow> c \<le> a" for c
    by (auto simp: word_less_nat_alt word_le_nat_alt)
qed

text \<open>A ledger whose sealed run checks, with a newly opened member at its end, is sound.\<close>

lemma ledger_ok_opened:
  assumes "g_members l = ss @ [member_opened f]" "all_sealed ss" "check_members (g_anchor l) None ss = Inr ()"
    and "opens_after f (link_after (g_anchor l) ss) (epoch_after None ss) = Inr ()"
    and "following (o_id f) = Inr (g_next_segment_id l)"
  shows "ledger_ok l"
  unfolding ledger_ok_iff
  using assms by (intro exI [of _ ss] exI [of _ "member_opened f"])
    (simp add: check_members_append following_iff)

lemma ledger_okE:
  assumes "ledger_ok l"
  obtains ss m where "g_members l = ss @ [m]" "all_sealed ss" "m_sealed m = None"
    "checked_add_u64 (member_id m) 1 = Some (g_next_segment_id l)"
    "check_members (g_anchor l) None ss = Inr ()" "\<not> durable_invalid m"
    "opens_after (m_open m) (link_after (g_anchor l) ss) (epoch_after None ss) = Inr ()"
    "open_member l = m" "open_segment l = member_id m"
  using assms unfolding ledger_ok_iff
  by (auto simp: check_members_append check_members_single open_member_def open_segment_def
      simp del: check_members.simps)

lemma check_members_ids:
  "\<lbrakk>check_members p e (ss @ [m]) = Inr (); all_sealed ss\<rbrakk> \<Longrightarrow>
   sorted_wrt (<) (map member_id (ss @ [m])) \<and> (\<forall>x \<in> set (ss @ [m]). l_id p < member_id x)"
proof (induction ss arbitrary: p e)
  case Nil
  then show ?case by (auto simp: opens_after_iff member_id_def split: option.splits if_splits)
next
  case (Cons x ss)
  then obtain f where f: "m_sealed x = Some f" and ss: "all_sealed ss" by (auto simp: all_sealed_def)
  with Cons.prems have "check_members (sf_link f) (Some (o_epoch (m_open x))) (ss @ [m]) = Inr ()"
    "l_id p < member_id x" "l_id (sf_link f) = member_id x"
    by (auto simp: opens_after_iff member_id_def dest: seals_id split: if_splits)
  with Cons.IH [OF _ ss] show ?case by fastforce
qed

lemma ledger_ids:
  assumes "ledger_ok l"
  shows "sorted_wrt (<) (map member_id (g_members l))"
    "\<forall>m \<in> set (g_members l). member_id m < g_next_segment_id l"
proof -
  from assms obtain ss m where l: "g_members l = ss @ [m]" "all_sealed ss"
    "checked_add_u64 (member_id m) 1 = Some (g_next_segment_id l)"
    "check_members (g_anchor l) None (ss @ [m]) = Inr ()" unfolding ledger_ok_iff by auto
  from check_members_ids [OF l(4,2)] l(1) show s: "sorted_wrt (<) (map member_id (g_members l))" by simp
  have "member_id m < g_next_segment_id l"
    using l(3) by (rule checked_succ)
  with s l(1) show "\<forall>m \<in> set (g_members l). member_id m < g_next_segment_id l"
    by (auto simp: sorted_wrt_append)
qed

lemma newest_epoch_ge:
  assumes "m \<in> set (g_members l)"
  shows "o_epoch (m_open m) \<le> newest_epoch l"
proof -
  have "e \<le> fold (\<lambda>m e. max e (o_epoch (m_open m))) ms e \<and>
    (m \<in> set ms \<longrightarrow> o_epoch (m_open m) \<le> fold (\<lambda>m e. max e (o_epoch (m_open m))) ms e)" for ms e
  proof (induction ms arbitrary: e)
    case (Cons x ms)
    from Cons [of "max e (o_epoch (m_open x))"] show ?case by auto
  qed simp
  with assms show ?thesis by (simp add: newest_epoch_def)
qed

lemma epoch_after_newest:
  assumes "set ss \<subseteq> set (g_members l)" "opens_after f p (Some (newest_epoch l)) = Inr ()"
  shows "opens_after f p (epoch_after None ss) = Inr ()"
proof (cases "ss = []")
  case False
  then have "o_epoch (m_open (last ss)) \<le> newest_epoch l"
    using assms(1) last_in_set by (intro newest_epoch_ge) auto
  with assms(2) False show ?thesis by (auto simp: opens_after_iff epoch_after_def)
qed (use assms(2) in \<open>simp add: epoch_after_def opens_after_iff\<close>)

subsection \<open>Each edit keeps it\<close>

text \<open>
  What an edit's facts must satisfy besides what the ledger checks: the bytes a seal covers
  reach the synced boundary it seals, and a cut keeps at least the header.
\<close>

fun edit_sound :: "wal_ledger \<Rightarrow> ledger_edit \<Rightarrow> bool" where
  "edit_sound l (Rotate sealed f) =
     (case m_durable_bytes (open_member l) of None \<Rightarrow> True | Some b \<Rightarrow> b \<le> sf_data_len sealed)"
| "edit_sound l (SetAside from_id (Some c) f) = (of_nat header_len \<le> sf_data_len c)"
| "edit_sound l _ = True"

lemma all_sealed_simps [simp]:
  "all_sealed []" "all_sealed (ms @ ns) \<longleftrightarrow> all_sealed ms \<and> all_sealed ns"
  "all_sealed [m] \<longleftrightarrow> m_sealed m \<noteq> None"
  by (auto simp: all_sealed_def)

lemma link_epoch_snoc [simp]:
  "link_after p (ms @ [m]) = sf_link (the (m_sealed m))" "epoch_after e (ms @ [m]) = Some (o_epoch (m_open m))"
  by (simp_all add: link_after_def epoch_after_def)

lemma check_members_snoc:
  assumes "all_sealed ss" "m_sealed m = Some s"
  shows "check_members p e (ss @ [m]) = Inr () \<longleftrightarrow>
    check_members p e ss = Inr () \<and> \<not> durable_invalid m \<and>
    opens_after (m_open m) (link_after p ss) (epoch_after e ss) = Inr () \<and> seals (m_open m) s = Inr ()"
  using assms by (auto simp: check_members_append)

lemma rotate_ok:
  assumes ok: "ledger_ok l" and r: "rotate l s f = Inr l'" and g: "edit_sound l (Rotate s f)"
  shows "ledger_ok l'"
  using ok
proof (rule ledger_okE)
  fix ss m
  assume l: "g_members l = ss @ [m]" "all_sealed ss" "check_members (g_anchor l) None ss = Inr ()"
    "\<not> durable_invalid m" "opens_after (m_open m) (link_after (g_anchor l) ss) (epoch_after None ss) = Inr ()"
    "open_member l = m" "m_sealed m = None"
  define m' where "m' = m\<lparr>m_sealed := Some s\<rparr>"
  from r obtain n where s: "seals (m_open m) s = Inr ()"
    and f: "opens_after f (sf_link s) (Some (o_epoch (m_open m))) = Inr ()" "following (o_id f) = Inr n"
    and l': "l' = l\<lparr>g_members := (ss @ [m']) @ [member_opened f], g_next_segment_id := n\<rparr>"
    by (auto simp: rotate_def Let_def l m'_def split: if_splits)
  have "\<not> durable_invalid m'"
    using l(4,6,7) g by (auto simp: durable_invalid_def m'_def split: option.splits)
  then show ?thesis
    using l s f l' by (intro ledger_ok_opened [of l' "ss @ [m']" f])
      (auto simp: check_members_snoc m'_def)
qed

lemma reopen_ok:
  assumes ok: "ledger_ok l" and r: "reopen l f = Inr l'"
  shows "ledger_ok l'"
  using ok
proof (rule ledger_okE)
  fix ss m
  assume l: "g_members l = ss @ [m]" "all_sealed ss" "check_members (g_anchor l) None ss = Inr ()"
    "opens_after (m_open m) (link_after (g_anchor l) ss) (epoch_after None ss) = Inr ()" "open_member l = m"
  from r obtain n where
    f: "opens_after f (o_prev (m_open m)) (Some (o_epoch (m_open m))) = Inr ()" "following (o_id f) = Inr n"
    and l': "l' = l\<lparr>g_members := ss @ [member_opened f], g_next_segment_id := n\<rparr>"
    by (auto simp: reopen_def Let_def l)
  have "opens_after f (link_after (g_anchor l) ss) (epoch_after None ss) = Inr ()"
    using f(1) l(4) by (auto simp: opens_after_iff)
  with l f l' show ?thesis by (intro ledger_ok_opened [of l' ss f]) auto
qed

lemma advance_ok:
  assumes ok: "ledger_ok l" and r: "advance_log_start l to = Inr l'"
  shows "ledger_ok l'"
  using ok
proof (rule ledger_okE)
  fix ss m
  assume l: "g_members l = ss @ [m]" "all_sealed ss" "check_members (g_anchor l) None ss = Inr ()"
    "\<not> durable_invalid m" "opens_after (m_open m) (link_after (g_anchor l) ss) (epoch_after None ss) = Inr ()"
    "m_sealed m = None" "checked_add_u64 (member_id m) 1 = Some (g_next_segment_id l)"
    "open_segment l = member_id m"
  define a b where "a = takeWhile (\<lambda>m. member_id m < to) ss" and "b = dropWhile (\<lambda>m. member_id m < to) ss"
  have ss: "ss = a @ b" by (simp add: a_def b_def)
  from r have "\<not> member_id m < to" by (auto simp: advance_log_start_def l not_less split: if_splits)
  then have tw: "takeWhile (\<lambda>m. member_id m < to) (ss @ [m]) = a"
    by (simp add: a_def takeWhile_tail)
  have l1: "g_members l = a @ b @ [m]" by (simp add: l ss)
  then have k: "members_below to (a @ b @ [m]) = length a"
    using tw by (simp add: members_below_def ss)
  have "g_members l' = b @ [m]" "g_next_segment_id l' = g_next_segment_id l"
    using r by (auto simp: advance_log_start_def l1 k Let_def split: if_splits)
  moreover have "g_anchor l' = link_after (g_anchor l) a"
  proof (cases "a = []")
    case False
    then have "m_sealed (last a) \<noteq> None" using l(2) by (auto simp: ss all_sealed_def)
    with False r show ?thesis
      by (auto simp: advance_log_start_def l1 k Let_def link_after_def nth_append last_conv_nth
          split: if_splits)
  qed (use r k in \<open>auto simp: advance_log_start_def l1 Let_def link_after_def split: if_splits\<close>)
  moreover have "check_members (link_after (g_anchor l) a) None (b @ [m]) = Inr ()"
  proof -
    have "check_members (g_anchor l) None (a @ (b @ [m])) = Inr ()"
      using l(2,3,4,5,6) unfolding append_assoc [symmetric] ss [symmetric]
      by (simp add: check_members_append check_members_single del: check_members.simps)
    moreover have "all_sealed a" using l(2) by (simp add: ss)
    ultimately show ?thesis using check_members_append [of a _ _ "b @ [m]"] check_members_None by blast
  qed
  ultimately show ?thesis using l unfolding ledger_ok_iff
    by (intro exI [of _ b] exI [of _ m]) (auto simp: ss)
qed

lemma genesis_ok: "genesis holder anchor f = Inr l \<Longrightarrow> ledger_ok l"
  by (rule ledger_ok_opened [of l "[]" f]) (auto simp: genesis_def link_after_def epoch_after_def)

lemma rebase_ok: "rebase l anchor f = Inr l' \<Longrightarrow> ledger_ok l'"
  by (rule ledger_ok_opened [of l' "[]" f])
    (auto simp: rebase_def link_after_def epoch_after_def opens_after_iff split: if_splits)

text \<open>Changing only the synced boundary of the open member, or the reservation.\<close>

lemma durable_update_ok:
  assumes "ledger_ok l" "of_nat header_len \<le> b"
  shows "ledger_ok (l\<lparr>g_members := butlast (g_members l) @ [(open_member l)\<lparr>m_durable_bytes := Some b\<rparr>],
    g_seq_reserved_through := r\<rparr>)"
  using assms(1)
proof (rule ledger_okE)
  fix ss m
  assume l: "g_members l = ss @ [m]" "all_sealed ss" "check_members (g_anchor l) None ss = Inr ()"
    "opens_after (m_open m) (link_after (g_anchor l) ss) (epoch_after None ss) = Inr ()"
    "m_sealed m = None" "checked_add_u64 (member_id m) 1 = Some (g_next_segment_id l)" "open_member l = m"
  let ?m = "m\<lparr>m_durable_bytes := Some b\<rparr>"
  have "\<not> durable_invalid ?m" using assms(2) l(5) by (simp add: durable_invalid_def)
  then show ?thesis using l unfolding ledger_ok_iff
    by (intro exI [of _ ss] exI [of _ ?m])
      (simp add: check_members_append check_members_single member_id_def del: check_members.simps)
qed

lemma reserve_update_ok: "ledger_ok l \<Longrightarrow> ledger_ok (l\<lparr>g_seq_reserved_through := r\<rparr>)"
  by (simp add: ledger_ok_iff)

lemma open_durable_ge:
  assumes "ledger_ok l" "m_durable_bytes (open_member l) = Some b"
  shows "of_nat header_len \<le> b"
  using assms(1)
proof (rule ledger_okE)
  fix m assume "open_member l = m" "\<not> durable_invalid m"
  with assms(2) show ?thesis by (auto simp: durable_invalid_def)
qed

lemma salvage_ok:
  assumes "ledger_ok l" "salvage_open l sid b r = Inr l'"
  shows "ledger_ok l'"
proof -
  let ?d = "case m_durable_bytes (open_member l) of None \<Rightarrow> b | Some x \<Rightarrow> min x b"
  from assms(2) have l': "l' = l\<lparr>g_members := butlast (g_members l) @ [(open_member l)\<lparr>m_durable_bytes := Some ?d\<rparr>],
      g_seq_reserved_through := max (g_seq_reserved_through l) r\<rparr>" and b: "of_nat header_len \<le> b"
    by (auto simp: salvage_open_def Let_def not_less split: if_splits)
  from b have "of_nat header_len \<le> ?d"
    using open_durable_ge [OF assms(1)] by (auto split: option.split)
  then show ?thesis unfolding l' by (rule durable_update_ok [OF assms(1)])
qed

lemma sync_ok:
  assumes "ledger_ok l" "sync_open l sid b = Inr l'"
  shows "ledger_ok l'"
proof -
  from assms(2) have l': "l' = l\<lparr>g_members := butlast (g_members l) @ [(open_member l)\<lparr>m_durable_bytes := Some b\<rparr>]\<rparr>"
    and b: "(case m_durable_bytes (open_member l) of None \<Rightarrow> of_nat header_len | Some x \<Rightarrow> x) \<le> b"
    by (auto simp: sync_open_def Let_def not_less split: if_splits)
  have "of_nat header_len \<le> b"
    using b open_durable_ge [OF assms(1)] by (auto split: option.splits)
  from durable_update_ok [OF assms(1) this, of "g_seq_reserved_through l"] show ?thesis
    unfolding l' by simp
qed

lemma check_members_prefix: "check_members p e (xs @ ys) = Inr () \<Longrightarrow> check_members p e xs = Inr ()"
  by (induction xs arbitrary: p e) (auto split: option.splits if_splits)

lemma ledger_prefix:
  assumes "ledger_ok l" "g_members l = a @ z"
  shows "check_members (g_anchor l) None a = Inr ()" "all_sealed (butlast a)"
proof -
  from assms(1) obtain ss m where l: "g_members l = ss @ [m]" "all_sealed ss"
    "check_members (g_anchor l) None (ss @ [m]) = Inr ()" unfolding ledger_ok_iff by auto
  then have "check_members (g_anchor l) None (a @ z) = Inr ()" using assms(2) by simp
  then show "check_members (g_anchor l) None a = Inr ()" by (rule check_members_prefix)
  have "butlast (a @ z) = ss" using l(1) assms(2) by simp
  then have "set (butlast a) \<subseteq> set ss" by (auto simp: butlast_append dest: in_set_butlastD split: if_splits)
  with l(2) show "all_sealed (butlast a)" by (auto simp: all_sealed_def)
qed

lemma cut_member_simps [simp]:
  "m_open (cut_member c m) = m_open m" "m_sealed (cut_member c m) = Some c"
  by (simp_all add: cut_member_def)

lemma cut_member_durable:
  "\<lbrakk>\<not> durable_invalid m; of_nat header_len \<le> sf_data_len c\<rbrakk> \<Longrightarrow> \<not> durable_invalid (cut_member c m)"
  unfolding not_less [symmetric]
  by (auto simp: durable_invalid_def cut_member_def min_less_iff_disj split: option.splits)

text \<open>The members a salvage keeps, resealed where it cuts, still chain from the anchor.\<close>

lemma set_aside_kept:
  assumes chk: "check_members (g_anchor l) None a = Inr ()" "all_sealed (butlast a)"
    and pre: "take (length a) (g_members l) = a"
    and prev: "set_aside_prev l (length a) reseal = Inr prev"
    and g: "\<And>c. reseal = Some c \<Longrightarrow> of_nat header_len \<le> sf_data_len c"
    and ms: "ms = (case reseal of Some c \<Rightarrow> if a = [] then a else butlast a @ [cut_member c (last a)] | None \<Rightarrow> a)"
  shows "check_members (g_anchor l) None ms = Inr () \<and> all_sealed ms \<and> prev = link_after (g_anchor l) ms \<and>
    epoch_after None ms = epoch_after None a"
proof (cases a rule: rev_cases)
  case Nil
  with prev ms show ?thesis by (auto simp: set_aside_prev_def link_after_def split: option.splits)
next
  case (snoc b x)
  have nth: "g_members l ! length b = x"
    using pre by (metis length_append_singleton lessI nth_append_length nth_take snoc)
  from chk snoc have b: "all_sealed b" "check_members (g_anchor l) None b = Inr ()"
    "check_members (link_after (g_anchor l) b) (epoch_after None b) [x] = Inr ()"
    by (simp_all add: check_members_append del: check_members.simps)
  then have x: "\<not> durable_invalid x" "opens_after (m_open x) (link_after (g_anchor l) b) (epoch_after None b) = Inr ()"
    by (auto split: if_splits)
  show ?thesis
  proof (cases reseal)
    case None
    with prev snoc nth obtain s where "m_sealed x = Some s" "prev = sf_link s"
      by (auto simp: set_aside_prev_def split: option.splits)
    with None b(1) chk(1) snoc ms show ?thesis by simp
  next
    case (Some c)
    with prev snoc nth have c: "seals (m_open x) c = Inr ()" "prev = sf_link c"
      by (auto simp: set_aside_prev_def split: if_splits)
    have "ms = b @ [cut_member c x]" using Some snoc ms by simp
    with b x c cut_member_durable [OF x(1) g [OF Some]] snoc show ?thesis
      by (simp add: check_members_snoc)
  qed
qed

lemma set_aside_ok:
  assumes ok: "ledger_ok l" and r: "set_aside l from_id reseal f = Inr l'"
    and g: "edit_sound l (SetAside from_id reseal f)"
  shows "ledger_ok l'"
proof -
  define a where "a = takeWhile (\<lambda>m. member_id m < from_id) (g_members l)"
  define ms where "ms = (case reseal of Some c \<Rightarrow> if a = [] then a else butlast a @ [cut_member c (last a)] | None \<Rightarrow> a)"
  have tk: "take (members_below from_id (g_members l)) (g_members l) = a"
    by (simp add: members_below_def a_def takeWhile_eq_take [symmetric])
  from r obtain prev n where prev: "set_aside_prev l (members_below from_id (g_members l)) reseal = Inr prev"
    and f: "opens_after f prev (Some (newest_epoch l)) = Inr ()" "following (o_id f) = Inr n"
    and l': "l' = l\<lparr>g_members := ms @ [member_opened f], g_next_segment_id := n\<rparr>"
    unfolding set_aside_def Let_def tk ms_def [symmetric] by (auto split: if_splits)
  have sub: "set a \<subseteq> set (g_members l)" by (auto simp: a_def dest: set_takeWhileD)
  have kept: "members_below from_id (g_members l) = length a" by (simp add: members_below_def a_def)
  have "g_members l = a @ dropWhile (\<lambda>m. member_id m < from_id) (g_members l)" by (simp add: a_def)
  note chk = ledger_prefix [OF ok this]
  have "check_members (g_anchor l) None ms = Inr () \<and> all_sealed ms \<and> prev = link_after (g_anchor l) ms \<and>
    epoch_after None ms = epoch_after None a"
    by (rule set_aside_kept [OF chk _ _ _ ms_def])
      (use tk prev g in \<open>auto simp: kept\<close>)
  then show ?thesis
    using epoch_after_newest [OF sub f(1)] f(2) l'
    by (intro ledger_ok_opened [of l' ms f]) auto
qed

lemma apply_ok:
  assumes "ledger_ok l" "edit_sound l e" "ledger_apply l e = Inr l'"
  shows "ledger_ok l'"
proof (cases e)
  case (Reserve r)
  with assms(3) have "l' = l\<lparr>g_seq_reserved_through := r\<rparr>" by (auto simp: reserve_def split: if_splits)
  with reserve_update_ok [OF assms(1)] show ?thesis by simp
qed (use assms in \<open>auto intro: rotate_ok reopen_ok advance_ok set_aside_ok rebase_ok sync_ok salvage_ok\<close>)

interpretation ledger: edit_machine ledger_apply edit_sound ledger_ok
  by unfold_locales (rule apply_ok)

section \<open>What never goes back\<close>

lemma following_gt: "following sid = Inr n \<Longrightarrow> sid < n"
  by (auto simp: following_iff dest: checked_succ(2))

lemma apply_next_id:
  assumes "ledger_apply l e = Inr l'"
  shows "g_next_segment_id l \<le> g_next_segment_id l'"
  using assms
  by (cases e)
    (auto simp: rotate_def reopen_def advance_log_start_def set_aside_def rebase_def reserve_def
      sync_open_def salvage_open_def expect_next_def Let_def not_less dest!: following_gt split: if_splits)

lemma apply_reserved:
  assumes "ledger_apply l e = Inr l'"
  shows "g_seq_reserved_through l \<le> g_seq_reserved_through l'"
  using assms
  by (cases e)
    (auto simp: rotate_def reopen_def advance_log_start_def set_aside_def rebase_def reserve_def
      sync_open_def salvage_open_def expect_next_def Let_def not_le split: if_splits)

interpretation ledger_ids: monotone_machine ledger_apply edit_sound ledger_ok g_next_segment_id
  by unfold_locales (rule apply_next_id)

interpretation ledger_reservation: monotone_machine ledger_apply edit_sound ledger_ok g_seq_reserved_through
  by unfold_locales (rule apply_reserved)

definition member_ids :: "wal_ledger \<Rightarrow> segment_id set" where
  "member_ids l = member_id ` set (g_members l)"

lemma member_id_updates [simp]:
  "member_id (m\<lparr>m_sealed := x\<rparr>) = member_id m" "member_id (m\<lparr>m_durable_bytes := y\<rparr>) = member_id m"
  "member_id (cut_member c m) = member_id m"
  by (simp_all add: member_id_def)

lemma open_member_in: "ledger_ok l \<Longrightarrow> open_member l \<in> set (g_members l)"
  by (auto simp: ledger_ok_iff open_member_def)

lemma set_aside_members:
  assumes "set_aside l from_id reseal f = Inr l'"
  shows "member_ids l' \<subseteq> insert (o_id f) (member_ids l)" "g_next_segment_id l \<le> o_id f"
proof -
  have "set (take k ms) \<subseteq> set ms" "set (butlast (take k ms)) \<subseteq> set ms" for k and ms :: "member list"
    by (auto dest: in_set_butlastD in_set_takeD)
  moreover have "last (take k ms) \<in> set ms" if "take k ms \<noteq> []" for k and ms :: "member list"
    using last_in_set [OF that] in_set_takeD by fast
  ultimately show "member_ids l' \<subseteq> insert (o_id f) (member_ids l)"
    using assms unfolding set_aside_def Let_def member_ids_def
    by (auto split: if_splits option.splits) blast+
  show "g_next_segment_id l \<le> o_id f" using assms by (auto simp: set_aside_def split: if_splits)
qed

lemma apply_member_ids:
  assumes ok: "ledger_ok l" and "ledger_apply l e = Inr l'" "sid \<in> member_ids l'"
  shows "sid \<in> member_ids l \<or> g_next_segment_id l \<le> sid"
proof -
  note o = open_member_in [OF ok]
  have d: "set (drop k ms) \<subseteq> set ms" for k and ms :: "member list" by (rule set_drop_subset)
  show ?thesis
  proof (cases e)
    case (SetAside from_id reseal f)
    with set_aside_members assms(2,3) show ?thesis by fastforce
  qed (use assms(2,3) o d in \<open>fastforce simp: member_ids_def rotate_def reopen_def advance_log_start_def
      rebase_def reserve_def sync_open_def salvage_open_def expect_next_def Let_def
      dest: in_set_butlastD split: if_splits\<close>)+
qed

section \<open>Properties\<close>

definition sample_open :: "segment_id \<Rightarrow> u64 \<Rightarrow> chain_link \<Rightarrow> open_facts" where
  "sample_open sid first prev = \<lparr>o_id = sid, o_epoch = 1, o_first_seq = first, o_prev = prev\<rparr>"

definition sample_seal :: "segment_id \<Rightarrow> u64 \<Rightarrow> u64 \<Rightarrow> sealed_facts" where
  "sample_seal sid seq len =
     \<lparr>sf_link = \<lparr>l_id = sid, l_last_seq = seq, l_digest = 0\<rparr>, sf_record_count = 1, sf_data_len = len,
      sf_max_seq_per_cf = [(0, seq)]\<rparr>"

definition sample_ledger :: wal_ledger where
  "sample_ledger = projr (genesis 5 genesis_link (sample_open 11 1 genesis_link))"

definition sample_edits :: "ledger_edit list" where
  "sample_edits =
     [SyncOpen 11 150, Rotate (sample_seal 11 7 200) (sample_open 12 8 (sf_link (sample_seal 11 7 200))), Reserve 100]"

lemmas sample_ledger_defs = sample_ledger_def sample_edits_def sample_open_def sample_seal_def genesis_def
  genesis_link_def opens_after_def follows_def following_def checked_add_u64_def member_opened_def
  header_len_def

lemma sample_genesis: "genesis 5 genesis_link (sample_open 11 1 genesis_link) = Inr sample_ledger"
  by (simp add: sample_ledger_defs)

definition sample_history :: wal_ledger where
  "sample_history = projr (apply_edits ledger_apply sample_ledger sample_edits)"

lemmas sample_apply_defs = sample_ledger_defs rotate_def reserve_def sync_open_def open_member_def expect_next_def
  member_id_def seals_def

lemma sample_run: "apply_edits ledger_apply sample_ledger sample_edits = Inr sample_history"
  by (simp add: sample_history_def sample_apply_defs)

lemma sample_guarded: "guarded ledger_apply edit_sound sample_ledger sample_edits"
  by (simp add: sample_apply_defs)

text \<open>
  C11. Every history of the ledger reads back: from a new ledger, any sequence of accepted
  edits whose facts respect the synced boundary leads to a state whose serialized form is
  accepted and deserializes to that very state. Its members' ids strictly increase, lie
  below the next id, and only the newest member is unsealed.
\<close>

theorem ledger_history_reads_back:
  assumes "genesis holder anchor f = Inr l0" "guarded ledger_apply edit_sound l0 es"
    and "apply_edits ledger_apply l0 es = Inr l"
  shows "ledger_of_image (ledger_to_image l) = Inr l \<and>
    sorted_wrt (<) (map member_id (g_members l)) \<and>
    (\<forall>m \<in> set (g_members l). member_id m < g_next_segment_id l) \<and>
    (\<exists>ss m. g_members l = ss @ [m] \<and> m_sealed m = None \<and> (\<forall>s \<in> set ss. m_sealed s \<noteq> None))"
proof -
  have ok: "ledger_ok l" using genesis_ok [OF assms(1)] assms(2,3) by (rule ledger.run_inv)
  then have "\<exists>ss m. g_members l = ss @ [m] \<and> m_sealed m = None \<and> (\<forall>s \<in> set ss. m_sealed s \<noteq> None)"
    by (auto simp: ledger_ok_iff all_sealed_def)
  with ok ledger_ids [OF ok] show ?thesis by (simp add: ledger_ok_def)
qed

theorem ledger_history_reads_back_witness:
  "ledger_of_image (ledger_to_image sample_history) = Inr sample_history \<and>
   map member_id (g_members sample_history) = [11, 12]"
proof -
  have "map member_id (g_members sample_history) = [11, 12]"
    by (simp add: sample_history_def sample_apply_defs)
  with ledger_history_reads_back [OF sample_genesis sample_guarded sample_run] show ?thesis by simp
qed



lemma retirable_run_Some:
  "retirable_run covered below ms = Some to \<Longrightarrow>
   (let tw = takeWhile (member_retirable covered) ms
    in if tw = [] then below = Some to else checked_add_u64 (member_id (last tw)) 1 = Some to)"
  by (induction covered below ms rule: retirable_run.induct) (auto simp: Let_def split: if_splits)

text \<open>
  C25. Retirement is sound and always possible: the id \<^verbatim>\<open>retirable_prefix\<close> returns is one the
  ledger accepts as its new log start, advancing to it retires exactly the longest leading
  run of sealed members whose family maxima are all covered, and nothing else.
\<close>

theorem retirable_prefix_retires:
  assumes ok: "ledger_ok l" and to: "retirable_prefix l covered = Some to"
  shows "\<exists>l'. ledger_apply l (AdvanceLogStart to) = Inr l' \<and>
    g_members l' = dropWhile (member_retirable covered) (g_members l) \<and>
    g_next_segment_id l' = g_next_segment_id l"
proof -
  define tw where "tw = takeWhile (member_retirable covered) (g_members l)"
  define dw where "dw = dropWhile (member_retirable covered) (g_members l)"
  have ms: "g_members l = tw @ dw" by (simp add: tw_def dw_def)
  have "\<not> member_retirable covered (open_member l)"
    using ok by (auto simp: ledger_ok_iff open_member_def member_retirable_def)
  with open_member_in [OF ok] have "dw \<noteq> []" by (auto simp: dw_def)
  then obtain x rest where dw: "dw = x # rest" by (cases dw) auto
  from retirable_run_Some [OF to [unfolded retirable_prefix_def]]
  have tw: "tw \<noteq> []" "checked_add_u64 (member_id (last tw)) 1 = Some to"
    unfolding tw_def [symmetric] by (auto simp: Let_def split: if_splits)
  note lt = checked_succ(3) [OF tw(2)]
  have sorted: "sorted_wrt (<) (map member_id (butlast tw @ [last tw] @ x # rest))"
    using ledger_ids(1) [OF ok] unfolding ms dw
    by (metis append.assoc append_butlast_last_id tw(1))
  have below: "member_id m < to" if "m \<in> set tw" for m
  proof -
    from that tw(1) have "m \<in> set (butlast tw) \<or> m = last tw"
      by (cases tw rule: rev_cases) auto
    with sorted lt show ?thesis by (auto simp: sorted_wrt_append)
  qed
  have x: "\<not> y < to" if "y \<in> member_id ` set (x # rest)" for y
    using that sorted by (auto simp: lt sorted_wrt_append not_le)
  have "takeWhile (\<lambda>m. member_id m < to) (tw @ x # rest) = tw"
    using below x by (simp add: takeWhile_tail [of _ x] takeWhile_append2)
  then have k: "members_below to (tw @ dw) = length tw" by (simp add: members_below_def dw)
  have drop: "dropWhile (member_retirable covered) (tw @ dw) = dw" using dw_def ms by simp
  have "log_start l < to" using below tw(1) by (cases tw) (auto simp: log_start_def ms)
  moreover have "\<not> open_segment l < to"
    using x by (auto simp: open_segment_def open_member_def ms dw)
  ultimately show ?thesis
    by (simp add: advance_log_start_def Let_def ms k drop not_le)
qed

theorem retirable_prefix_retires_witness:
  "retirable_prefix sample_history (\<lambda>cf seq. seq \<le> 7) = Some 12 \<and>
   (\<exists>l'. ledger_apply sample_history (AdvanceLogStart 12) = Inr l' \<and> map member_id (g_members l') = [12])"
proof -
  have to: "retirable_prefix sample_history (\<lambda>cf seq. seq \<le> 7) = Some 12"
    by (simp add: sample_history_def sample_apply_defs retirable_prefix_def member_retirable_def)
  have "dropWhile (member_retirable (\<lambda>cf seq. seq \<le> 7)) (g_members sample_history) = drop 1 (g_members sample_history)"
    "map member_id (drop 1 (g_members sample_history)) = [12]"
    by (simp_all add: sample_history_def sample_apply_defs member_retirable_def)
  moreover have "ledger_ok sample_history"
    using genesis_ok [OF sample_genesis] sample_guarded sample_run by (rule ledger.run_inv)
  ultimately show ?thesis using retirable_prefix_retires [OF _ to] to by auto
qed


end
