(* ===== verification/Wal_Walk.thy ===== *)
theory Wal_Walk
  imports Wal_Segment
begin

text \<open>
  Walking the frames of a segment (\<^verbatim>\<open>src/src/wal/frame.rs\<close>, the second half): frame
  sources, \<^verbatim>\<open>next_frame\<close> with its classification of everything that can stop a walk, the
  search for a verified frame behind a torn length, the read-ahead window of a file source,
  and the whole-segment validation of \<^verbatim>\<open>src/src/wal/cloud_segment.rs\<close>. Offsets are natural
  numbers below \<^verbatim>\<open>u64::MAX\<close>; the one addition the source checks is checked here.
\<close>

section \<open>Steps, errors and limits\<close>

datatype frame_step = Frame bytes nat | Eof

datatype frame_error =
    IncompleteTail midge_error
  | Corrupt midge_error
  | FrameResourceLimit midge_error

fun into_error :: "frame_error \<Rightarrow> midge_error" where
  "into_error (IncompleteTail e) = e"
| "into_error (Corrupt e) = e"
| "into_error (FrameResourceLimit e) = e"

fun is_incomplete_tail :: "frame_error \<Rightarrow> bool" where
  "is_incomplete_tail (IncompleteTail _) = True"
| "is_incomplete_tail _ = False"

record frame_limits =
  max_frame_bytes :: "nat option"
  zero_tail_scan_bytes :: "nat option"

definition no_limits :: frame_limits where
  "no_limits = \<lparr>max_frame_bytes = None, zero_tail_scan_bytes = None\<rparr>"

section \<open>Sources of frame bytes\<close>

record frame_source =
  src_len :: "nat midge_result"
  src_read :: "nat \<Rightarrow> nat \<Rightarrow> bytes midge_result"

definition slice_read :: "bytes \<Rightarrow> nat \<Rightarrow> nat \<Rightarrow> bytes midge_result" where
  "slice_read bs pos len =
     try_with (ok_or (Corruption ''WAL frame end does not fit memory'') (checked_add_usize pos len))
       (\<lambda>end. if end > length bs then Inl (Corruption ''WAL frame read past end of snapshot'')
              else Inr (slice bs pos end))"

definition slice_source :: "bytes \<Rightarrow> frame_source" where
  "slice_source bs = \<lparr>src_len = Inr (length bs), src_read = slice_read bs\<rparr>"

text \<open>
  A file source over an open file: the file's length and its positioned read are the
  operating system's, given as a source of their own. The length is read once and kept; a
  window of read-ahead bytes serves the reads that fall inside it.
\<close>

record file_frames =
  ff_file :: frame_source
  ff_len :: "nat option"
  ff_read_ahead_bytes :: nat
  ff_window :: "(nat \<times> bytes) option"

definition with_read_ahead :: "frame_source \<Rightarrow> nat \<Rightarrow> file_frames" where
  "with_read_ahead file n =
     \<lparr>ff_file = file, ff_len = None, ff_read_ahead_bytes = n, ff_window = None\<rparr>"

definition read_file :: "file_frames \<Rightarrow> nat \<Rightarrow> nat \<Rightarrow> bytes midge_result" where
  "read_file ff pos len =
     try_with (src_read (ff_file ff) pos len) (\<lambda>bs.
       if length bs \<noteq> len then Inl (Corruption ''WAL read returned another number of bytes'')
       else Inr bs)"

definition file_frames_len :: "file_frames \<Rightarrow> nat midge_result \<times> file_frames" where
  "file_frames_len ff =
     (case ff_len ff of
        Some n \<Rightarrow> (Inr n, ff)
      | None \<Rightarrow> (case src_len (ff_file ff) of
                   Inl e \<Rightarrow> (Inl e, ff)
                 | Inr n \<Rightarrow> (Inr n, ff\<lparr>ff_len := Some n\<rparr>)))"

definition window_hit :: "file_frames \<Rightarrow> nat \<Rightarrow> nat \<Rightarrow> bytes option" where
  "window_hit ff pos end =
     (case ff_window ff of
        Some (start, bs) \<Rightarrow>
          if pos \<ge> start \<and> end \<le> min u64_max (start + length bs)
          then Some (slice bs (pos - start) (pos - start + (end - pos))) else None
      | None \<Rightarrow> None)"

definition file_frames_read ::
    "file_frames \<Rightarrow> nat \<Rightarrow> nat \<Rightarrow> bytes midge_result \<times> file_frames" where
  "file_frames_read ff pos len =
     (let window_capacity = ff_read_ahead_bytes ff
      in if window_capacity = 0 \<or> len > window_capacity then (read_file ff pos len, ff)
         else if pos + len > u64_max then (Inl (Corruption ''WAL read-ahead offset overflow''), ff)
         else
           (case window_hit ff pos (pos + len) of
              Some bs \<Rightarrow> (Inr bs, ff)
            | None \<Rightarrow>
                (case file_frames_len ff of
                   (Inl e, ff) \<Rightarrow> (Inl e, ff)
                 | (Inr file_len, ff) \<Rightarrow>
                     let window_len = min window_capacity (file_len - pos)
                     in if window_len < len then (read_file ff pos len, ff)
                        else
                          (case read_file ff pos window_len of
                             Inl e \<Rightarrow> (Inl e, ff)
                           | Inr bs \<Rightarrow> (Inr (take len bs), ff\<lparr>ff_window := Some (pos, bs)\<rparr>)))))"

section \<open>The scans behind a stopped walk\<close>

function zero_filled_to_end :: "frame_source \<Rightarrow> nat \<Rightarrow> nat \<Rightarrow> frame_limits \<Rightarrow> frame_error + bool" where
  "zero_filled_to_end src pos file_len limits =
     (if pos < file_len then
        let chunk_len = (case zero_tail_scan_bytes limits of None \<Rightarrow> 1024 * 1024 | Some n \<Rightarrow> max n 1);
            len = min chunk_len (file_len - pos)
        in try_with (map_err Corrupt (src_read src pos len)) (\<lambda>chunk.
             if \<exists>b \<in> set chunk. b \<noteq> 0 then Inr False
             else zero_filled_to_end src (pos + len) file_len limits)
      else Inr True)"
  by pat_completeness auto

termination
  by (relation "measure (\<lambda>(src, pos, file_len, limits). file_len - pos)")
    (auto split: option.splits)

definition verified_at :: "codec_lib \<Rightarrow> bytes \<Rightarrow> nat \<Rightarrow> bool" where
  "verified_at lib bs payload_start \<longleftrightarrow>
     has_segment_frame_prefix (drop payload_start bs) \<and>
     (case decode_frame_header (slice bs (payload_start - wal_frame_header_len) payload_start) of
        Inl _ \<Rightarrow> False
      | Inr (payload_len, expected_crc) \<Rightarrow>
          (case checked_add_usize payload_start payload_len of
             None \<Rightarrow> False
           | Some payload_end \<Rightarrow>
               payload_end \<le> length bs \<and>
               (let payload = slice bs payload_start payload_end
                in is_ok (verify_frame_crc lib payload expected_crc) \<and>
                   decodes_as_segment_frame payload)))"

definition contains_verified_frame :: "codec_lib \<Rightarrow> bytes \<Rightarrow> bool" where
  "contains_verified_frame lib bs \<longleftrightarrow>
     \<not> length bs < saturating_add_usize wal_frame_header_len 3 \<and>
     list_ex (verified_at lib bs) [wal_frame_header_len ..< Suc (length bs - 3)]"

text \<open>One candidate of the bounded scan, and the scan over the candidates of one chunk.\<close>

definition suffix_candidate ::
    "codec_lib \<Rightarrow> frame_source \<Rightarrow> nat \<Rightarrow> nat \<Rightarrow> nat \<Rightarrow> bytes \<Rightarrow> nat \<Rightarrow> frame_error + bool" where
  "suffix_candidate lib src file_len max_bytes pos bs candidate_start =
     (if \<not> has_segment_frame_prefix (drop candidate_start bs) then Inr False
      else
        (case decode_frame_header
            (slice bs (candidate_start - wal_frame_header_len) candidate_start) of
           Inl _ \<Rightarrow> Inr False
         | Inr (payload_len, crc) \<Rightarrow>
             let absolute_start = pos + candidate_start
             in if payload_len > file_len - absolute_start then Inr False
                else if payload_len > max_bytes
                then Inl (FrameResourceLimit
                       (ResourceLimit ''WAL suffix candidate exceeds replay frame limit''))
                else try_with (map_err Corrupt (src_read src absolute_start payload_len)) (\<lambda>payload.
                       Inr (is_ok (verify_frame_crc lib payload crc) \<and>
                            decodes_as_segment_frame payload))))"

fun first_hit :: "('a \<Rightarrow> 'e + bool) \<Rightarrow> 'a list \<Rightarrow> 'e + bool" where
  "first_hit f [] = Inr False"
| "first_hit f (x # xs) = try_with (f x) (\<lambda>hit. if hit then Inr True else first_hit f xs)"

definition suffix_overlap :: nat where "suffix_overlap = wal_frame_header_len + 2"

text \<open>
  The bounded scan reads chunks that overlap by \<^const>\<open>suffix_overlap\<close> bytes. A frame bound
  of at most the overlap would leave it without progress (the replay limits refuse one, see
  \<^verbatim>\<open>StreamingReplayLimits::validate\<close>): that case is an internal error of the model.
\<close>

function suffix_scan ::
    "codec_lib \<Rightarrow> frame_source \<Rightarrow> nat \<Rightarrow> nat \<Rightarrow> nat \<Rightarrow> frame_error + bool" where
  "suffix_scan lib src file_len max_bytes pos =
     (if \<not> file_len - pos > suffix_overlap then Inr False
      else if max_bytes \<le> suffix_overlap
      then Inl (Corrupt (Internal ''the suffix scan makes no progress''))
      else
        let len = min (file_len - pos) max_bytes
        in try_with (map_err Corrupt (src_read src pos len)) (\<lambda>bs.
           try_with (first_hit (suffix_candidate lib src file_len max_bytes pos bs)
                      [wal_frame_header_len ..< Suc (length bs - 3)]) (\<lambda>hit.
             if hit then Inr True
             else suffix_scan lib src file_len max_bytes (pos + (len - suffix_overlap)))))"
  by pat_completeness auto

termination
  by (relation "measure (\<lambda>(lib, src, file_len, max_bytes, pos). file_len - pos)") auto

definition hides_verified_frame ::
    "codec_lib \<Rightarrow> frame_source \<Rightarrow> nat \<Rightarrow> nat \<Rightarrow> frame_limits \<Rightarrow> frame_error + bool" where
  "hides_verified_frame lib src payload_start file_len limits =
     (case max_frame_bytes limits of
        None \<Rightarrow>
          let suffix_start = payload_start - wal_frame_header_len
          in try_with (map_err Corrupt (src_read src suffix_start (file_len - suffix_start)))
               (\<lambda>suffix. Inr (contains_verified_frame lib suffix))
      | Some max_bytes \<Rightarrow> suffix_scan lib src file_len max_bytes payload_start)"

declare zero_filled_to_end.simps [simp del] suffix_scan.simps [simp del]

section \<open>The next frame\<close>

definition next_frame ::
    "codec_lib \<Rightarrow> frame_source \<Rightarrow> nat \<Rightarrow> frame_limits \<Rightarrow> frame_error + frame_step" where
  "next_frame lib src pos limits =
     try_with (map_err Corrupt (src_len src)) (\<lambda>file_len.
       if pos = file_len then Inr Eof
       else if pos > file_len
       then Inl (Corrupt (Corruption ''WAL replay read past EOF''))
       else if file_len - pos < wal_frame_header_len
       then Inl (IncompleteTail (Corruption ''Incomplete WAL frame header''))
       else
         try_with (map_err Corrupt (src_read src pos wal_frame_header_len)) (\<lambda>header.
         let payload_start = pos + wal_frame_header_len
         in try_with (if \<forall>b \<in> set header. b = 0
                      then zero_filled_to_end src payload_start file_len limits else Inr False)
           (\<lambda>zeros.
             if zeros then Inl (IncompleteTail (Corruption ''Zero-filled WAL tail''))
             else
               try_with (map_err Corrupt (decode_frame_header header)) (\<lambda>(payload_len, expected_crc).
               if payload_start + payload_len > u64_max
               then Inl (Corrupt (Corruption ''WAL frame length overflow''))
               else if payload_start + payload_len > file_len then
                 try_with (hides_verified_frame lib src payload_start file_len limits) (\<lambda>hides.
                   if hides
                   then Inl (Corrupt (Corruption
                          ''WAL frame length overruns EOF and hides a verified later frame''))
                   else Inl (IncompleteTail (Corruption ''Incomplete WAL record'')))
               else if (case max_frame_bytes limits of None \<Rightarrow> False | Some m \<Rightarrow> payload_len > m)
               then Inl (FrameResourceLimit (ResourceLimit
                      ''WAL frame exceeds the replay frame limit''))
               else
                 try_with (map_err Corrupt (src_read src payload_start payload_len)) (\<lambda>payload.
                 try_with (map_err Corrupt (verify_frame_crc lib payload expected_crc)) (\<lambda>_.
                   Inr (Frame payload (payload_start + payload_len))))))))"

section \<open>Frames in a byte sequence\<close>

lemma slice_source_simps [simp]:
  "src_len (slice_source bs) = Inr (length bs)" "src_read (slice_source bs) = slice_read bs"
  by (simp_all add: slice_source_def)

lemma slice_read_iff:
  "slice_read bs pos len = Inr out \<longleftrightarrow>
     pos + len \<le> usize_max \<and> pos + len \<le> length bs \<and> out = slice bs pos (pos + len)"
  by (auto simp: slice_read_def checked_add_usize_def)

lemma decode_frame_header_iff:
  "decode_frame_header hdr = Inr (n, c) \<longleftrightarrow>
     n \<le> wal_max_record_len \<and> hdr = u32_to_le (of_nat n) @ u32_to_le c"
proof
  assume d: "decode_frame_header hdr = Inr (n, c)"
  then have l: "length hdr = 8" and n: "n = unat (u32_from_le (take 4 hdr))"
    and c: "c = u32_from_le (drop 4 hdr)" and m: "n \<le> wal_max_record_len"
    by (auto simp: decode_frame_header_def wal_frame_header_len_def slice_def Let_def
        split: if_splits)
  have "u32_to_le (of_nat n) @ u32_to_le c = take 4 hdr @ drop 4 hdr"
    unfolding n c using l by (simp add: u32_to_from_le)
  with m show "n \<le> wal_max_record_len \<and> hdr = u32_to_le (of_nat n) @ u32_to_le c" by simp
next
  assume "n \<le> wal_max_record_len \<and> hdr = u32_to_le (of_nat n) @ u32_to_le c"
  then show "decode_frame_header hdr = Inr (n, c)"
    by (simp add: decode_frame_header_def slice_def wal_consts unat_of_nat)
qed

lemma frame_header_decode_iff:
  "frame_header lib p = Inr hdr \<longleftrightarrow> decode_frame_header hdr = Inr (length p, crc32c lib p)"
  by (simp add: frame_header_Inr decode_frame_header_iff)

lemma verify_frame_crc_iff: "verify_frame_crc lib p c = Inr () \<longleftrightarrow> c = crc32c lib p"
  by (auto simp: verify_frame_crc_def)

text \<open>The bytes of one frame, where its payload is within the record limit.\<close>

definition frame_bytes :: "codec_lib \<Rightarrow> bytes \<Rightarrow> bytes" where
  "frame_bytes lib p = u32_to_le (of_nat (length p)) @ u32_to_le (crc32c lib p) @ p"

lemma append_frame_iff:
  "append_frame lib dst p = Inr out \<longleftrightarrow> length p \<le> wal_max_record_len \<and> out = dst @ frame_bytes lib p"
  by (auto simp: append_frame_def frame_header_Inr frame_bytes_def)

lemma length_frame_bytes [simp]: "length (frame_bytes lib p) = wal_frame_header_len + length p"
  by (simp add: frame_bytes_def wal_frame_header_len_def)

lemma decodes_prefix:
  assumes "decodes_as_segment_frame p"
  shows "has_segment_frame_prefix (p @ rest)" "3 \<le> length p"
proof -
  consider (view) "is_ok (decode_view p)" | (foot) "is_footer_payload p"
    using assms footer_decode_exact [of p]
    by (auto simp: decodes_as_segment_frame_def is_ok_iff footer_decode_payload_def split: if_splits)
  then show "has_segment_frame_prefix (p @ rest)" "3 \<le> length p"
    by (cases; auto simp: has_segment_frame_prefix_def decode_view_def is_footer_payload_def
        prefix_len_def nth_append split: if_splits)+
qed

lemma verified_at_iff:
  assumes "wal_frame_header_len \<le> i" "length bs \<le> usize_max"
  shows "verified_at lib bs i \<longleftrightarrow>
    (\<exists>p rest. drop (i - wal_frame_header_len) bs = frame_bytes lib p @ rest \<and>
       length p \<le> wal_max_record_len \<and> decodes_as_segment_frame p)"
    (is "?v \<longleftrightarrow> ?e")
proof
  define j where "j = i - wal_frame_header_len"
  have i: "i = j + wal_frame_header_len" using assms(1) by (simp add: j_def)
  have hdr: "slice bs (i - wal_frame_header_len) i = take wal_frame_header_len (drop j bs)"
    by (simp add: i slice_def)
  have dr: "drop j bs = take wal_frame_header_len (drop j bs) @ drop i bs"
    by (simp add: i add.commute [of j] flip: drop_drop)
  { assume ?v
    then obtain n c where d: "decode_frame_header (take wal_frame_header_len (drop j bs)) = Inr (n, c)"
      and n: "i + n \<le> length bs" and c: "is_ok (verify_frame_crc lib (slice bs i (i + n)) c)"
      and p: "decodes_as_segment_frame (slice bs i (i + n))"
      by (auto simp: verified_at_def hdr checked_add_usize_def Let_def split: sum.splits prod.splits
          option.splits if_splits)
    define p where "p = slice bs i (i + n)"
    have "length p = n" "c = crc32c lib p" using n c
      by (simp_all add: p_def is_ok_iff verify_frame_crc_iff)
    moreover have "drop i bs = p @ drop (i + n) bs"
      by (simp add: p_def slice_def add.commute [of i] flip: drop_drop)
    ultimately have "drop j bs = frame_bytes lib p @ drop (i + n) bs" "length p \<le> wal_max_record_len"
      using d dr by (simp_all add: decode_frame_header_iff frame_bytes_def)
    with p show ?e unfolding p_def j_def by blast }
  { assume ?e
    then obtain p rest where e: "drop j bs = frame_bytes lib p @ rest"
      and m: "length p \<le> wal_max_record_len" and d: "decodes_as_segment_frame p"
      by (auto simp: j_def)
    have t: "take wal_frame_header_len (drop j bs) = u32_to_le (of_nat (length p)) @ u32_to_le (crc32c lib p)"
      by (simp add: e frame_bytes_def wal_frame_header_len_def)
    have di: "drop i bs = p @ rest"
      using e by (simp add: i add.commute [of j] frame_bytes_def wal_frame_header_len_def flip: drop_drop)
    then have l: "i + length p \<le> length bs" and sl: "slice bs i (i + length p) = p"
      using decodes_prefix(2) [OF d] by (auto simp: slice_def dest: arg_cong [of _ _ length])
    from l assms(2) have "checked_add_usize i (length p) = Some (i + length p)"
      by (simp add: checked_add_usize_def)
    with t m di l sl d decodes_prefix(1) [OF d] show ?v
      by (simp add: verified_at_def hdr decode_frame_header_iff [THEN iffD2]) }
qed

lemma contains_verified_frame_iff:
  assumes "length bs \<le> usize_max"
  shows "contains_verified_frame lib bs \<longleftrightarrow>
    (\<exists>pre p rest. bs = pre @ frame_bytes lib p @ rest \<and> length p \<le> wal_max_record_len \<and>
       decodes_as_segment_frame p)"
proof
  assume "contains_verified_frame lib bs"
  then obtain i where "wal_frame_header_len \<le> i" "verified_at lib bs i"
    by (auto simp: contains_verified_frame_def list_ex_iff)
  with assms verified_at_iff obtain p rest where
    "drop (i - wal_frame_header_len) bs = frame_bytes lib p @ rest" "length p \<le> wal_max_record_len"
    "decodes_as_segment_frame p" by blast
  then show "\<exists>pre p rest. bs = pre @ frame_bytes lib p @ rest \<and> length p \<le> wal_max_record_len \<and>
      decodes_as_segment_frame p" by (metis append_take_drop_id)
next
  assume "\<exists>pre p rest. bs = pre @ frame_bytes lib p @ rest \<and> length p \<le> wal_max_record_len \<and>
      decodes_as_segment_frame p"
  then obtain pre p rest where bs: "bs = pre @ frame_bytes lib p @ rest"
    and p: "length p \<le> wal_max_record_len" "decodes_as_segment_frame p" by blast
  define i where "i = length pre + wal_frame_header_len"
  have "verified_at lib bs i"
    using bs p assms by (subst verified_at_iff) (auto simp: i_def)
  moreover have "length bs = i + length p + length rest" by (simp add: bs i_def)
  then have "i \<in> {wal_frame_header_len ..< Suc (length bs - 3)}" "\<not> length bs < wal_frame_header_len + 3"
    using decodes_prefix(2) [OF p(2)] by (auto simp: i_def)
  ultimately show "contains_verified_frame lib bs"
    unfolding contains_verified_frame_def list_ex_iff set_upt
    by (auto simp only: saturating_add_usize_def min_less_iff_disj)
qed

text \<open>
  The search for a verified frame, which looks only at offsets that carry a record's or
  a footer's first bytes, is complete and sound: it succeeds on a byte sequence precisely
  when some frame with a payload that decodes as a record or a footer lies in it, at any
  offset.
\<close>

theorem contains_verified_frame_exact:
  assumes "length bs \<le> usize_max"
  shows "contains_verified_frame lib bs \<longleftrightarrow>
    (\<exists>pre p rest. bs = pre @ frame_bytes lib p @ rest \<and> length p \<le> wal_max_record_len \<and>
       decodes_as_segment_frame p)"
  using assms by (rule contains_verified_frame_iff)

definition sample_footer :: footer where
  "sample_footer = \<lparr>ft_id = 3, ft_record_count = 1, ft_first_seq = 7, ft_last_seq = 7,
     ft_data_len = 200, ft_max_seq_per_cf = [(0, 7)], ft_digest = 5\<rparr>"

lemma sample_footer_frame:
  "decodes_as_segment_frame (footer_encode_payload sample_footer)"
  "length (footer_encode_payload sample_footer) = 75"
proof -
  have "footer_wf sample_footer" by (simp add: footer_wf_def sample_footer_def)
  then show "decodes_as_segment_frame (footer_encode_payload sample_footer)"
    by (simp add: decodes_as_segment_frame_def footer_decode_encode)
qed (simp add: footer_encode_payload_def sample_footer_def footer_magic_def family_enc_def)

theorem contains_verified_frame_exact_witness:
  "contains_verified_frame stored_lib ([0] @ frame_bytes stored_lib (footer_encode_payload sample_footer))"
proof -
  have "length ([0] @ frame_bytes stored_lib (footer_encode_payload sample_footer)) \<le> usize_max"
    by (simp add: sample_footer_frame wal_frame_header_len_def)
  from contains_verified_frame_exact [OF this] show ?thesis
    using sample_footer_frame by (fastforce simp: wal_max_record_len_def)
qed

section \<open>The bounded scan\<close>

lemma first_hit_True: "first_hit f xs = Inr True \<Longrightarrow> \<exists>x \<in> set xs. f x = Inr True"
  by (induction xs) (auto split: if_splits)

lemma first_hit_False: "first_hit f xs = Inr False \<Longrightarrow> x \<in> set xs \<Longrightarrow> f x = Inr False"
  by (induction xs) (auto split: if_splits)

lemma has_segment_frame_prefix_take:
  "3 \<le> k \<Longrightarrow> has_segment_frame_prefix (take k xs) = has_segment_frame_prefix xs"
  by (auto simp: has_segment_frame_prefix_def is_footer_payload_def prefix_len_def min_def)

lemma suffix_candidate_Inr:
  assumes cand: "suffix_candidate lib (slice_source bs) (length bs) m pos (slice bs pos (pos + len)) i = Inr b"
    and i: "wal_frame_header_len \<le> i" "i + 3 \<le> len" and len: "pos + len \<le> length bs"
    and max: "length bs \<le> usize_max"
  shows "b \<longleftrightarrow> verified_at lib bs (pos + i)"
proof -
  have "drop i (slice bs pos (pos + len)) = take (len - i) (drop (pos + i) bs)"
    by (simp add: slice_def drop_take add.commute)
  then have pre: "has_segment_frame_prefix (drop i (slice bs pos (pos + len))) =
      has_segment_frame_prefix (drop (pos + i) bs)"
    using i by (simp add: has_segment_frame_prefix_take)
  have hdr: "slice (slice bs pos (pos + len)) (i - wal_frame_header_len) i =
      slice bs (pos + i - wal_frame_header_len) (pos + i)"
    using i by (auto simp: slice_def drop_take min_def add.commute)
  have rd: "slice_read bs (pos + i) n = Inr (slice bs (pos + i) (pos + i + n))"
    if "n \<le> length bs - (pos + i)" for n
  proof -
    have "pos + i + n \<le> length bs" using that i len by linarith
    with max show ?thesis by (simp add: slice_read_iff)
  qed
  show ?thesis
    using cand i len max unfolding suffix_candidate_def pre hdr verified_at_def slice_source_def
    by (auto simp: Let_def checked_add_usize_def rd split: if_splits sum.splits)
qed

lemma suffix_chunk:
  assumes hit: "first_hit (suffix_candidate lib (slice_source bs) (length bs) m pos (slice bs pos (pos + len)))
      [wal_frame_header_len ..< Suc (len - 3)] = Inr b"
    and len: "suffix_overlap < len" "pos + len \<le> length bs" "length bs \<le> usize_max"
  shows "b \<longleftrightarrow> (\<exists>i. wal_frame_header_len \<le> i \<and> i + 3 \<le> len \<and> verified_at lib bs (pos + i))"
proof -
  have mem: "i \<in> set [wal_frame_header_len ..< Suc (len - 3)] \<longleftrightarrow> wal_frame_header_len \<le> i \<and> i + 3 \<le> len" for i
    using len(1) by (auto simp: suffix_overlap_def)
  show ?thesis
  proof (cases b)
    case True
    with first_hit_True [of _ "[wal_frame_header_len ..< Suc (len - 3)]"] hit obtain i where
      i: "i \<in> set [wal_frame_header_len ..< Suc (len - 3)]"
      "suffix_candidate lib (slice_source bs) (length bs) m pos (slice bs pos (pos + len)) i = Inr True"
      by metis
    with i(1) [unfolded mem] suffix_candidate_Inr [OF i(2) _ _ len(2,3)] True show ?thesis by blast
  next
    case False
    with hit have hit: "first_hit (suffix_candidate lib (slice_source bs) (length bs) m pos
        (slice bs pos (pos + len))) [wal_frame_header_len ..< Suc (len - 3)] = Inr False" by simp
    have "\<not> verified_at lib bs (pos + i)" if i: "wal_frame_header_len \<le> i" "i + 3 \<le> len" for i
      using suffix_candidate_Inr [OF first_hit_False [OF hit, of i] i len(2,3)] i
      unfolding mem by simp
    with False show ?thesis by blast
  qed
qed

lemma suffix_shift:
  assumes none: "\<not> (\<exists>i. wal_frame_header_len \<le> i \<and> i + 3 \<le> len \<and> v (pos + i))"
    and len: "suffix_overlap < len"
  shows "(\<exists>i. wal_frame_header_len \<le> i \<and> pos + (len - suffix_overlap) + i + 3 \<le> n \<and>
        v (pos + (len - suffix_overlap) + i)) \<longleftrightarrow>
    (\<exists>i. wal_frame_header_len \<le> i \<and> pos + i + 3 \<le> n \<and> v (pos + i))" (is "?n \<longleftrightarrow> ?p")
proof
  assume ?n
  then obtain i where "wal_frame_header_len \<le> i" "pos + (len - suffix_overlap) + i + 3 \<le> n"
    "v (pos + (len - suffix_overlap) + i)" by blast
  then show ?p by (intro exI [of _ "len - suffix_overlap + i"]) (auto simp: add.assoc)
next
  assume ?p
  then obtain i where i: "wal_frame_header_len \<le> i" "pos + i + 3 \<le> n" "v (pos + i)" by blast
  with none have "len < i + 3" by (meson not_le)
  with i len have "pos + (len - suffix_overlap) + (i - (len - suffix_overlap)) = pos + i"
    "wal_frame_header_len \<le> i - (len - suffix_overlap)"
    by (auto simp: suffix_overlap_def)
  with i show ?n by (intro exI [of _ "i - (len - suffix_overlap)"]) (simp add: add.assoc)
qed

lemma suffix_scan_step:
  assumes "suffix_overlap < length bs - pos" "suffix_overlap < m" "length bs \<le> usize_max"
    and len: "len = min (length bs - pos) m"
  shows "suffix_scan lib (slice_source bs) (length bs) m pos =
    try_with (first_hit (suffix_candidate lib (slice_source bs) (length bs) m pos
        (slice bs pos (pos + len))) [wal_frame_header_len ..< Suc (len - 3)])
      (\<lambda>hit. if hit then Inr True
             else suffix_scan lib (slice_source bs) (length bs) m (pos + (len - suffix_overlap)))"
    and "suffix_overlap < len" "pos + len \<le> length bs"
proof -
  show l: "suffix_overlap < len" "pos + len \<le> length bs" using assms by auto
  then have "slice_read bs pos len = Inr (slice bs pos (pos + len))"
    "length (slice bs pos (pos + len)) = len"
    using assms by (simp_all add: slice_read_iff)
  then show "suffix_scan lib (slice_source bs) (length bs) m pos =
    try_with (first_hit (suffix_candidate lib (slice_source bs) (length bs) m pos
        (slice bs pos (pos + len))) [wal_frame_header_len ..< Suc (len - 3)])
      (\<lambda>hit. if hit then Inr True
             else suffix_scan lib (slice_source bs) (length bs) m (pos + (len - suffix_overlap)))"
    using assms(1,2) unfolding suffix_scan.simps [of _ _ _ _ pos] Let_def len [symmetric]
    by (simp add: slice_source_def)
qed

lemma suffix_scan_Inr:
  "\<lbrakk>suffix_scan lib (slice_source bs) (length bs) m pos = Inr b; length bs \<le> usize_max\<rbrakk> \<Longrightarrow>
   b \<longleftrightarrow> (\<exists>i. wal_frame_header_len \<le> i \<and> pos + i + 3 \<le> length bs \<and> verified_at lib bs (pos + i))"
proof (induction "length bs - pos" arbitrary: pos b rule: less_induct)
  case less
  define len where "len = min (length bs - pos) m"
  show ?case
  proof (cases "suffix_overlap < length bs - pos")
    case False
    then show ?thesis using less(2) by (auto simp: suffix_scan.simps suffix_overlap_def)
  next
    case True
    with less(2) have m: "suffix_overlap < m" by (auto simp: suffix_scan.simps split: if_splits)
    note step = suffix_scan_step [OF True m less(3) len_def]
    from less(2) [unfolded step(1)] obtain hit where
      hit: "first_hit (suffix_candidate lib (slice_source bs) (length bs) m pos
        (slice bs pos (pos + len))) [wal_frame_header_len ..< Suc (len - 3)] = Inr hit"
      and b: "if hit then b else suffix_scan lib (slice_source bs) (length bs) m (pos + (len - suffix_overlap)) = Inr b"
      by (auto split: if_splits)
    note chunk = suffix_chunk [OF hit step(2,3) less(3)]
    show ?thesis
    proof (cases hit)
      case True
      with b chunk step(3) show ?thesis by (simp, metis add.assoc add_le_cancel_left le_trans)
    next
      case False
      from False b have ih: "b \<longleftrightarrow> (\<exists>i. wal_frame_header_len \<le> i \<and>
          pos + (len - suffix_overlap) + i + 3 \<le> length bs \<and>
          verified_at lib bs (pos + (len - suffix_overlap) + i))"
        by (intro less(1) [OF _ _ less(3)]) (use True step(2,3) in auto)
      with suffix_shift [OF _ step(2), of "verified_at lib bs" pos "length bs"] False chunk
      show ?thesis by simp
    qed
  qed
qed

lemma contains_verified_frame_drop:
  assumes "length bs \<le> usize_max"
  shows "contains_verified_frame lib (drop pos bs) \<longleftrightarrow>
    (\<exists>i. wal_frame_header_len \<le> i \<and> pos + i + 3 \<le> length bs \<and> verified_at lib bs (pos + i))"
proof -
  have v: "verified_at lib (drop pos bs) i = verified_at lib bs (pos + i)" if "wal_frame_header_len \<le> i" for i
  proof -
    have "i - wal_frame_header_len + pos = pos + i - wal_frame_header_len" using that by simp
    then show ?thesis using that assms by (simp add: verified_at_iff)
  qed
  show ?thesis
    unfolding contains_verified_frame_def list_ex_iff set_upt
    by (auto simp: saturating_add_usize_def v not_less Bex_def)
qed

lemma first_hit_Inl: "first_hit f xs = Inl e \<Longrightarrow> \<exists>x \<in> set xs. f x = Inl e"
  by (induction xs) (auto simp: try_with_Inl split: if_splits)

text \<open>
  An offset inside the suffix that carries a readable frame header whose payload fits the
  file and exceeds the frame bound.
\<close>

definition oversized_candidate :: "bytes \<Rightarrow> nat \<Rightarrow> nat \<Rightarrow> bool" where
  "oversized_candidate bs m i \<longleftrightarrow>
     (\<exists>n c. decode_frame_header (slice bs (i - wal_frame_header_len) i) = Inr (n, c) \<and>
        m < n \<and> i + n \<le> length bs)"

lemma suffix_candidate_Inl:
  assumes cand: "suffix_candidate lib (slice_source bs) (length bs) m pos (slice bs pos (pos + len)) i = Inl e"
    and i: "wal_frame_header_len \<le> i" "i + 3 \<le> len" and len: "pos + len \<le> length bs"
    and max: "length bs \<le> usize_max"
  shows "(\<exists>r. e = FrameResourceLimit r) \<and> oversized_candidate bs m (pos + i)"
proof -
  have hdr: "slice (slice bs pos (pos + len)) (i - wal_frame_header_len) i =
      slice bs (pos + i - wal_frame_header_len) (pos + i)"
    using i by (auto simp: slice_def drop_take min_def add.commute)
  have "slice_read bs (pos + i) n = Inr (slice bs (pos + i) (pos + i + n))"
    if "n \<le> length bs - (pos + i)" for n
  proof -
    have "pos + i + n \<le> length bs" using that i len by linarith
    with max show ?thesis by (simp add: slice_read_iff)
  qed
  with cand i len show ?thesis unfolding suffix_candidate_def hdr oversized_candidate_def
    by (auto simp: Let_def slice_source_def not_less try_with_Inl split: if_splits sum.splits)
qed

lemma suffix_scan_Inl:
  "\<lbrakk>suffix_scan lib (slice_source bs) (length bs) m pos = Inl e; length bs \<le> usize_max; suffix_overlap < m\<rbrakk> \<Longrightarrow>
   (\<exists>r. e = FrameResourceLimit r) \<and> (\<exists>i > pos. oversized_candidate bs m i)"
proof (induction "length bs - pos" arbitrary: pos rule: less_induct)
  case less
  define len where "len = min (length bs - pos) m"
  have True: "suffix_overlap < length bs - pos"
    using less(2) by (auto simp: suffix_scan.simps [of _ _ _ _ pos] split: if_splits)
  note step = suffix_scan_step [OF True less(4,3) len_def]
  from less(2) [unfolded step(1)] consider
    (cand) "first_hit (suffix_candidate lib (slice_source bs) (length bs) m pos
        (slice bs pos (pos + len))) [wal_frame_header_len ..< Suc (len - 3)] = Inl e"
    | (rec) "suffix_scan lib (slice_source bs) (length bs) m (pos + (len - suffix_overlap)) = Inl e"
    by (auto simp: try_with_Inl split: if_splits)
  then show ?case
  proof cases
    case cand
    then obtain i where i: "wal_frame_header_len \<le> i" "i + 3 \<le> len"
      "suffix_candidate lib (slice_source bs) (length bs) m pos (slice bs pos (pos + len)) i = Inl e"
      using step(2) by (auto simp: suffix_overlap_def dest!: first_hit_Inl)
    with suffix_candidate_Inl [OF i(3,1,2) step(3) less(3)] show ?thesis
      by (auto simp: wal_frame_header_len_def intro!: exI [of _ "pos + i"])
  next
    case rec
    have "length bs - (pos + (len - suffix_overlap)) < length bs - pos" using True step(2) by auto
    from less(1) [OF this rec less(3,4)] obtain i where "pos + (len - suffix_overlap) < i"
      "oversized_candidate bs m i" "\<exists>r. e = FrameResourceLimit r" by blast
    moreover from this have "pos < i" by simp
    ultimately show ?thesis by blast
  qed
qed

text \<open>
  C13. The bounded scan, which reads the suffix in chunks of at most the frame bound,
  agrees with the search over the whole suffix: for a bound the replay limits accept it
  returns exactly whether a verified frame lies at or after its start, whatever chunk
  boundary the frame straddles. The only other outcome is the resource limit, and only when
  a readable header announces a payload beyond the bound that fits the file.
\<close>

theorem bounded_scan_exact:
  assumes "length bs \<le> usize_max" "suffix_overlap < m"
  shows "(case suffix_scan lib (slice_source bs) (length bs) m pos of
     Inr b \<Rightarrow> b \<longleftrightarrow> contains_verified_frame lib (drop pos bs)
   | Inl e \<Rightarrow> (\<exists>r. e = FrameResourceLimit r) \<and> (\<exists>i > pos. oversized_candidate bs m i))"
  using suffix_scan_Inr [OF _ assms(1), of lib m pos] suffix_scan_Inl [OF _ assms, of lib pos]
  by (simp add: contains_verified_frame_drop [OF assms(1)] split: sum.split)

theorem bounded_scan_exact_witness:
  "suffix_overlap < 100 \<and>
   (case suffix_scan stored_lib (slice_source (replicate 200 1)) 200 100 0 of
     Inr b \<Rightarrow> b \<longleftrightarrow> contains_verified_frame stored_lib (drop 0 (replicate 200 1))
   | Inl e \<Rightarrow> (\<exists>r. e = FrameResourceLimit r) \<and> (\<exists>i > 0. oversized_candidate (replicate 200 1) 100 i))"
proof -
  have "suffix_overlap < 100" by (simp add: suffix_overlap_def wal_frame_header_len_def)
  with bounded_scan_exact [where bs = "replicate 200 1" and m = 100 and lib = stored_lib and pos = 0] show ?thesis
    by (simp del: drop0 split: sum.split)
qed

section \<open>What stops a walk\<close>

lemma zero_filled_slice:
  "\<lbrakk>pos \<le> length bs; length bs \<le> usize_max\<rbrakk> \<Longrightarrow>
   zero_filled_to_end (slice_source bs) pos (length bs) limits = Inr (\<forall>b \<in> set (drop pos bs). b = 0)"
proof (induction "length bs - pos" arbitrary: pos rule: less_induct)
  case less
  define len where "len = min (case zero_tail_scan_bytes limits of None \<Rightarrow> 1024 * 1024 | Some n \<Rightarrow> max n 1)
    (length bs - pos)"
  show ?case
  proof (cases "pos < length bs")
    case True
    then have len: "0 < len" "pos + len \<le> length bs" by (auto simp: len_def split: option.splits)
    then have rd: "slice_read bs pos len = Inr (slice bs pos (pos + len))"
      using less(3) by (simp add: slice_read_iff)
    have split: "drop pos bs = slice bs pos (pos + len) @ drop (pos + len) bs"
      by (simp add: slice_def add.commute [of pos] flip: drop_drop)
    have "zero_filled_to_end (slice_source bs) pos (length bs) limits =
      (if \<exists>b \<in> set (slice bs pos (pos + len)). b \<noteq> 0 then Inr False
       else zero_filled_to_end (slice_source bs) (pos + len) (length bs) limits)"
      using True rd unfolding zero_filled_to_end.simps [of _ pos] Let_def len_def [symmetric]
      by (simp add: slice_source_def)
    also have "zero_filled_to_end (slice_source bs) (pos + len) (length bs) limits =
      Inr (\<forall>b \<in> set (drop (pos + len) bs). b = 0)"
      using less(1) [of "pos + len"] less(3) len True by simp
    finally show ?thesis unfolding split by auto
  qed (simp add: zero_filled_to_end.simps)
qed

lemma frame_bytes_split:
  "frame_bytes lib p = (u32_to_le (of_nat (length p)) @ u32_to_le (crc32c lib p)) @ p"
  by (simp add: frame_bytes_def)

lemma next_frame_Frame:
  assumes "next_frame lib (slice_source bs) pos limits = Inr (Frame p n)"
  shows "drop pos bs = frame_bytes lib p @ drop n bs" "n = pos + wal_frame_header_len + length p"
    "n \<le> length bs" "length p \<le> wal_max_record_len"
proof -
  from assms obtain len c where
    hdr: "decode_frame_header (slice bs pos (pos + wal_frame_header_len)) = Inr (len, c)"
    and n: "n = pos + wal_frame_header_len + len" "n \<le> length bs"
    and p: "p = slice bs (pos + wal_frame_header_len) n" and c: "c = crc32c lib p"
    by (auto simp: next_frame_def slice_source_def slice_read_iff Let_def verify_frame_crc_iff not_less
        split: if_splits)
  have l: "length p = len" using n by (simp add: p)
  show "n = pos + wal_frame_header_len + length p" "n \<le> length bs" "length p \<le> wal_max_record_len"
    using n hdr by (simp_all add: l decode_frame_header_iff)
  have "drop pos bs = slice bs pos (pos + wal_frame_header_len) @ drop (pos + wal_frame_header_len) bs"
    by (simp add: slice_def add.commute [of pos] flip: drop_drop)
  also have "drop (pos + wal_frame_header_len) bs = p @ drop n bs"
    by (simp add: p slice_def n(1) add.commute [of "pos + wal_frame_header_len"] flip: drop_drop)
  finally show "drop pos bs = frame_bytes lib p @ drop n bs"
    using hdr by (simp add: decode_frame_header_iff l c frame_bytes_split)
qed

lemma header_not_zero:
  assumes "p \<noteq> []" "length p \<le> wal_max_record_len"
  shows "\<exists>b \<in> set (u32_to_le (of_nat (length p)) @ u32_to_le (crc32c lib p)). b \<noteq> 0"
proof (rule ccontr)
  assume "\<not> ?thesis"
  then have "\<forall>b \<in> set (u32_to_le (of_nat (length p))). b = 0" by simp
  then have "u32_to_le (of_nat (length p)) = replicate 4 0" unfolding zero_bytes by simp
  also have "\<dots> = [0, 0, 0, 0]" by (simp add: eval_nat_numeral)
  also have "\<dots> = u32_to_le 0" by (simp add: u32_to_le_def le_bytes_numeral)
  finally have "unat (of_nat (length p) :: u32) = 0" by simp
  with assms show False by (simp add: unat_of_nat wal_consts)
qed

lemma next_frame_whole:
  assumes bs: "bs = pre @ frame_bytes lib p @ rest" and p: "p \<noteq> []" "length p \<le> wal_max_record_len"
    and fits: "length bs \<le> u64_max" "case max_frame_bytes limits of None \<Rightarrow> True | Some m \<Rightarrow> length p \<le> m"
  shows "next_frame lib (slice_source bs) (length pre) limits =
    Inr (Frame p (length pre + wal_frame_header_len + length p))"
proof -
  let ?h = "u32_to_le (of_nat (length p)) @ u32_to_le (crc32c lib p)"
  have l: "length bs = length pre + wal_frame_header_len + length p + length rest" by (simp add: bs)
  have h: "slice_read bs (length pre) wal_frame_header_len = Inr ?h"
    using l fits by (simp add: slice_read_iff slice_def bs frame_bytes_def wal_frame_header_len_def)
  have r: "slice_read bs (length pre + wal_frame_header_len) (length p) = Inr p"
    using l fits by (simp add: slice_read_iff slice_def bs frame_bytes_def wal_frame_header_len_def)
  have d: "decode_frame_header ?h = Inr (length p, crc32c lib p)"
    using p by (simp add: decode_frame_header_iff)
  have z: "(\<forall>b \<in> set ?h. b = 0) = False" using header_not_zero [OF p, of lib] by blast
  have m: "\<not> (case max_frame_bytes limits of None \<Rightarrow> False | Some m \<Rightarrow> length p > m)"
    using fits by (simp split: option.splits)
  show ?thesis
    unfolding next_frame_def
    using l fits(1) m p by (simp add: h r z d Let_def del: set_append)
qed





text \<open>
  A zero-filled tail is an incomplete tail under every limit: preallocated space after
  the last frame never reads as corruption, and never as a frame.
\<close>

theorem zero_tail_incomplete:
  assumes "0 < k" "length pre + k \<le> u64_max"
  shows "\<exists>e. next_frame lib (slice_source (pre @ replicate k 0)) (length pre) limits = Inl (IncompleteTail e)"
proof (cases "k < wal_frame_header_len")
  case False
  let ?bs = "pre @ replicate k (0 :: byte)"
  have h: "slice_read ?bs (length pre) wal_frame_header_len = Inr (replicate wal_frame_header_len 0)"
    using False assms(2) by (simp add: slice_read_iff slice_def min_def)
  have "zero_filled_to_end (slice_source ?bs) (length pre + wal_frame_header_len) (length ?bs) limits = Inr True"
    using False assms(2) by (subst zero_filled_slice) auto
  then show ?thesis using False assms
    by (simp add: next_frame_def h Let_def)
qed (use assms in \<open>simp add: next_frame_def\<close>)

theorem zero_tail_incomplete_witness:
  "\<exists>e. next_frame stored_lib (slice_source ([1] @ replicate 20 0)) (length [1 :: byte])
     \<lparr>max_frame_bytes = Some 16, zero_tail_scan_bytes = Some 4\<rparr> = Inl (IncompleteTail e)"
  by (rule zero_tail_incomplete) simp_all

section \<open>Read-ahead\<close>

text \<open>The window holds bytes of the file, and a cached length is the file's.\<close>

definition file_frames_ok :: "bytes \<Rightarrow> file_frames \<Rightarrow> bool" where
  "file_frames_ok bs ff \<longleftrightarrow>
     ff_file ff = slice_source bs \<and>
     (case ff_len ff of None \<Rightarrow> True | Some n \<Rightarrow> n = length bs) \<and>
     (case ff_window ff of None \<Rightarrow> True | Some (start, w) \<Rightarrow>
        start + length w \<le> length bs \<and> w = slice bs start (start + length w))"

lemma slice_slice:
  assumes "start + n \<le> length bs" "start \<le> pos" "pos + len \<le> start + n"
  shows "slice (slice bs start (start + n)) (pos - start) (pos - start + len) = slice bs pos (pos + len)"
  using assms by (simp add: slice_def drop_take min_def)

lemma window_hit_Some:
  assumes "file_frames_ok bs ff" "window_hit ff pos (pos + len) = Some out"
  shows "pos + len \<le> length bs \<and> out = slice bs pos (pos + len)"
proof -
  from assms obtain start w where w: "start + length w \<le> length bs" "w = slice bs start (start + length w)"
    and hit: "start \<le> pos" "pos + len \<le> start + length w"
    and out: "out = slice w (pos - start) (pos - start + len)"
    by (auto simp: file_frames_ok_def window_hit_def split: option.splits if_splits)
  have "out = slice (slice bs start (start + length w)) (pos - start) (pos - start + len)"
    using out w(2) by simp
  with slice_slice [OF w(1) hit] w hit show ?thesis by simp
qed

lemma read_file_slice:
  "ff_file ff = slice_source bs \<Longrightarrow> read_file ff pos len = slice_read bs pos len"
proof (cases "slice_read bs pos len")
  case (Inr out)
  assume "ff_file ff = slice_source bs"
  with Inr show ?thesis by (simp add: read_file_def) (use Inr in \<open>auto simp: slice_read_iff\<close>)
qed (simp add: read_file_def)

lemma file_frames_len_ok:
  assumes "file_frames_ok bs ff"
  obtains ff' where "file_frames_len ff = (Inr (length bs), ff')" "file_frames_ok bs ff'"
  using assms that by (auto simp: file_frames_len_def file_frames_ok_def split: option.splits)

lemma slice_read_overflow: "u64_max < pos + len \<Longrightarrow> \<not> is_ok (slice_read bs pos len)"
  by (simp add: slice_read_def checked_add_usize_def)

lemma file_frames_fill:
  assumes ok: "file_frames_ok bs ff" and len: "len \<le> n" "n \<le> length bs - pos" and max: "length bs \<le> u64_max"
  shows "(case read_file ff pos n of
            Inl e \<Rightarrow> (Inl e, ff)
          | Inr w \<Rightarrow> (Inr (take len w), ff\<lparr>ff_window := Some (pos, w)\<rparr>)) = (r, ff') \<Longrightarrow>
    file_frames_ok bs ff' \<and> (pos + len \<le> u64_max \<longrightarrow> r = slice_read bs pos len)"
proof (cases "pos \<le> length bs")
  case True
  with len have n: "pos + n \<le> length bs" by linarith
  with ok max have rd: "read_file ff pos n = Inr (slice bs pos (pos + n))"
    by (simp add: file_frames_ok_def read_file_slice slice_read_iff)
  have "slice_read bs pos len = Inr (take len (slice bs pos (pos + n)))"
    using n len max by (simp add: slice_read_iff slice_def min_def)
  moreover assume "(case read_file ff pos n of
            Inl e \<Rightarrow> (Inl e, ff)
          | Inr w \<Rightarrow> (Inr (take len w), ff\<lparr>ff_window := Some (pos, w)\<rparr>)) = (r, ff')"
  ultimately show ?thesis
    using n ok by (auto simp: rd file_frames_ok_def)
next
  case False
  then have "n = 0" "len = 0" using len by auto
  moreover have "slice_read bs pos 0 = Inl (Corruption ''WAL frame read past end of snapshot'')"
    if "pos \<le> u64_max" using False that by (simp add: slice_read_def checked_add_usize_def)
  moreover have "\<not> is_ok (slice_read bs pos 0)" using False
    by (simp add: slice_read_def checked_add_usize_def)
  moreover assume "(case read_file ff pos n of
            Inl e \<Rightarrow> (Inl e, ff)
          | Inr w \<Rightarrow> (Inr (take len w), ff\<lparr>ff_window := Some (pos, w)\<rparr>)) = (r, ff')"
  ultimately show ?thesis using ok
    by (auto simp: file_frames_ok_def read_file_slice split: sum.splits)
qed

text \<open>
  C34. Read-ahead is transparent: through a file source with any window size, every read
  returns what a direct read of the file returns, byte for byte and error for error, and the
  source stays consistent with the file, so the next read does too. The one exception is an
  offset that overflows 64 bits, which both refuse.
\<close>

theorem read_ahead_transparent:
  assumes "file_frames_ok bs ff" "length bs \<le> u64_max"
  shows "(case file_frames_read ff pos len of (r, ff') \<Rightarrow>
     file_frames_ok bs ff' \<and>
     (if pos + len \<le> u64_max then r = slice_read bs pos len else \<not> is_ok r \<and> \<not> is_ok (slice_read bs pos len)))"
proof -
  obtain r ff' where read: "file_frames_read ff pos len = (r, ff')" by fastforce
  let ?direct = "ff_read_ahead_bytes ff = 0 \<or> len > ff_read_ahead_bytes ff"
  have same: "read_file g pos len = slice_read bs pos len" if "file_frames_ok bs g" for g
    using that by (simp add: file_frames_ok_def read_file_slice)
  have "file_frames_ok bs ff' \<and> (pos + len \<le> u64_max \<longrightarrow> r = slice_read bs pos len) \<and>
      (u64_max < pos + len \<longrightarrow> \<not> is_ok r)"
  proof (cases "?direct \<or> u64_max < pos + len")
    case True
    then show ?thesis using read assms(1) same slice_read_overflow [of pos len bs]
      by (auto simp: file_frames_read_def Let_def split: if_splits)
  next
    case False
    show ?thesis
    proof (cases "window_hit ff pos (pos + len)")
      case (Some out)
      then have "slice_read bs pos len = Inr out"
        using window_hit_Some [OF assms(1) Some] assms(2) by (simp add: slice_read_iff)
      with Some False read assms(1) show ?thesis by (auto simp: file_frames_read_def Let_def)
    next
      case None
      obtain g where g: "file_frames_len ff = (Inr (length bs), g)" "file_frames_ok bs g"
        using file_frames_len_ok [OF assms(1)] .
      let ?n = "min (ff_read_ahead_bytes ff) (length bs - pos)"
      show ?thesis
        using False read None g same file_frames_fill [OF g(2) _ _ assms(2), of len ?n pos r ff']
        by (auto simp: file_frames_read_def Let_def split: if_splits)
    qed
  qed
  with read slice_read_overflow [of pos len bs] show ?thesis by auto
qed

theorem read_ahead_transparent_witness:
  "(case file_frames_read (with_read_ahead (slice_source [1, 2, 3, 4, 5]) 3) 1 2 of (r, ff) \<Rightarrow>
     r = Inr [2, 3] \<and> ff_window ff = Some (1, [2, 3, 4]) \<and>
     (case file_frames_read ff 2 2 of (r, ff') \<Rightarrow> r = Inr [3, 4]))"
proof -
  let ?bs = "[1, 2, 3, 4, 5] :: bytes"
  let ?f = "with_read_ahead (slice_source ?bs) 3"
  have w: "file_frames_ok ?bs ?f" by (simp add: file_frames_ok_def with_read_ahead_def)
  obtain r ff where r: "file_frames_read ?f 1 2 = (r, ff)" by fastforce
  obtain r' ff' where r': "file_frames_read ff 2 2 = (r', ff')" by fastforce
  have ff: "file_frames_ok ?bs ff" "r = slice_read ?bs 1 2"
    using read_ahead_transparent [OF w, of 1 2] r by simp_all
  moreover have "r' = slice_read ?bs 2 2"
    using read_ahead_transparent [OF ff(1), of 2 2] r' by simp
  moreover have "ff_window ff = Some (1, [2, 3, 4])"
    using r by (auto simp: file_frames_read_def with_read_ahead_def window_hit_def file_frames_len_def
        read_file_def slice_read_def checked_add_usize_def slice_def)
  ultimately show ?thesis unfolding r
    by (simp add: r' slice_read_def checked_add_usize_def slice_def)
qed

end
