(* ===== verification/Wal_Validate.thy ===== *)
theory Wal_Validate
  imports Wal_Walk Wal_Batch
begin

text \<open>
  Whole-segment validation (\<^verbatim>\<open>src/src/wal/cloud_segment.rs\<close>): the walk that checks every
  frame, record, family maximum and the sealed digest of a segment before the cloud may hold
  it. The theorems characterise the accepted byte sequences exactly and say what the sealed
  facts mean.
\<close>

section \<open>Validation\<close>

record segment_validation =
  sv_writer_epoch :: u64
  sv_prev :: chain_link
  sv_facts :: sealed_facts

record segment_identity =
  si_epoch :: u64
  si_prev :: chain_link
  si_link :: chain_link

definition validation_identity :: "segment_validation \<Rightarrow> segment_identity" where
  "validation_identity v =
     \<lparr>si_epoch = sv_writer_epoch v, si_prev = sv_prev v, si_link = sf_link (sv_facts v)\<rparr>"

definition max_sequence :: "segment_validation \<Rightarrow> u64" where
  "max_sequence v = l_last_seq (sf_link (sv_facts v))"

definition check_batch :: "wal_record \<Rightarrow> string + unit" where
  "check_batch record =
     (if is_transaction_batch (w_op record) then
        (case w_value record of
           None \<Rightarrow> Inl ''txn batch missing payload''
         | Some payload \<Rightarrow>
             try_with (map_err (\<lambda>_. ''txn batch decode'') (decode_txn_batch_payload record payload))
               (\<lambda>_. Inr ()))
      else Inr ())"

lemma next_frame_advances:
  assumes "next_frame lib (slice_source bs) pos limits = Inr (Frame p n)"
  shows "pos < n" "n \<le> length bs"
  using next_frame_Frame [OF assms] by (simp_all add: wal_frame_header_len_def)

function validate_walk ::
    "codec_lib \<Rightarrow> bytes \<Rightarrow> nat \<Rightarrow> segment_scan \<Rightarrow> string + segment_scan" where
  "validate_walk lib data pos scan =
     try_with (map_err (\<lambda>_. ''frame'') (next_frame lib (slice_source data) pos no_limits)) (\<lambda>step.
       case step of
         Eof \<Rightarrow> Inr scan
       | Frame payload next_pos \<Rightarrow>
           try_with (map_err (\<lambda>_. ''segment'') (scan_frame lib scan payload)) (\<lambda>(scanned, scan).
             if scanned = ScannedFooter then Inr scan
             else
               try_with (map_err (\<lambda>_. ''record decode'') (wal_decode lib payload)) (\<lambda>record.
               try_with (check_batch record) (\<lambda>_.
               try_with (map_err (\<lambda>_. ''segment'') (scan_observe scan (w_seq record) (w_cf_id record)))
                 (\<lambda>scan. validate_walk lib data next_pos scan)))))"
  by pat_completeness auto

termination
proof (relation "measure (\<lambda>(lib, data, pos, scan). length data - pos)")
  fix lib data pos and step :: frame_step and payload next_pos
  assume "map_err (\<lambda>_. ''frame'') (next_frame lib (slice_source data) pos no_limits) = Inr step"
    "step = Frame payload next_pos"
  then have "next_frame lib (slice_source data) pos no_limits = Inr (Frame payload next_pos)" by simp
  from next_frame_advances [OF this]
  show "((lib, data, next_pos, scan'), lib, data, pos, scan)
      \<in> measure (\<lambda>(lib, data, pos, scan). length data - pos)" for scan scan' :: segment_scan
    by simp
qed simp

declare validate_walk.simps [simp del]

definition validate_segment_bytes :: "codec_lib \<Rightarrow> bytes \<Rightarrow> string + segment_validation" where
  "validate_segment_bytes lib data =
     try_with (map_err (\<lambda>_. ''header'') (scan_start lib data)) (\<lambda>scan.
     try_with (validate_walk lib data header_len scan) (\<lambda>scan.
     try_with (map_err (\<lambda>_. ''segment'') (scan_finish scan (u64_of_len (length data)))) (\<lambda>_.
       case sc_footer scan of
         None \<Rightarrow> Inl ''ends without its footer''
       | Some (footer, _) \<Rightarrow>
           if ft_record_count footer = 0 then Inl ''contains no records''
           else Inr \<lparr>sv_writer_epoch = sh_epoch (sc_header scan), sv_prev = sh_prev (sc_header scan),
                     sv_facts = footer_sealed_facts footer\<rparr>)))"

definition validate_bytes :: "codec_lib \<Rightarrow> bytes \<Rightarrow> u64 \<Rightarrow> string + segment_validation" where
  "validate_bytes lib data expected_max_sequence =
     try_with (validate_segment_bytes lib data) (\<lambda>v.
       if max_sequence v \<noteq> expected_max_sequence then Inl ''max sequence differs from expected''
       else Inr v)"

section \<open>What the tail counts\<close>

lemma unat_u64_of_nat: "n \<le> u64_max \<Longrightarrow> unat (of_nat n :: u64) = n"
  by (simp add: unat_of_nat)

lemma saturating_add_of_nat:
  "m + n \<le> u64_max \<Longrightarrow> saturating_add_u64 (of_nat m) (of_nat n) = of_nat (m + n)"
  using unat_u64_of_nat [of m] unat_u64_of_nat [of n] by (simp add: saturating_add_u64_def)

text \<open>The counters after a list of records, each a sequence and a family.\<close>

definition tail_of :: "(u64 \<times> u32) list \<Rightarrow> segment_tail" where
  "tail_of xs = fold (\<lambda>(seq, cf) t. tail_count t seq cf) xs empty_tail"

lemma tail_of_Nil [simp]: "tail_of [] = empty_tail"
  by (simp add: tail_of_def)

lemma tail_of_snoc [simp]: "tail_of (xs @ [(seq, cf)]) = tail_count (tail_of xs) seq cf"
  by (simp add: tail_of_def)

lemma tail_of_last:
  "t_last_seq (tail_of xs) = (if xs = [] then None else Some (Max (fst ` set xs)))"
proof (induction xs rule: rev_induct)
  case (snoc x xs)
  then show ?case
    by (cases x) (auto simp: tail_count_def max.commute)
qed (simp add: empty_tail_def)

lemma tail_of_first: "t_first_seq (tail_of xs) = (if xs = [] then None else Some (fst (hd xs)))"
proof (induction xs rule: rev_induct)
  case (snoc x xs)
  then show ?case by (cases x) (auto simp: tail_count_def)
qed (simp add: empty_tail_def)

lemma tail_of_count:
  "length xs \<le> u64_max \<Longrightarrow> t_record_count (tail_of xs) = of_nat (length xs)"
proof (induction xs rule: rev_induct)
  case (snoc x xs)
  then have "unat (of_nat (length xs) :: u64) = length xs" by (simp add: unat_of_nat)
  with snoc show ?case
    by (cases x) (simp add: tail_count_def saturating_add_u64_def add.commute)
qed (simp add: empty_tail_def)

lemma family_max_insert_keys: "fst ` set (family_max_insert cf seq m) = insert cf (fst ` set m)"
  by (induction cf seq m rule: family_max_insert.induct) auto

lemma family_max_insert_sorted:
  "sorted_wrt (<) (map fst m) \<Longrightarrow> sorted_wrt (<) (map fst (family_max_insert cf seq m))"
proof (induction cf seq m rule: family_max_insert.induct)
  case (2 cf seq c s m)
  have "x \<in> fst ` set (family_max_insert cf seq m) \<Longrightarrow> x = cf \<or> x \<in> fst ` set m" for x
    by (simp add: family_max_insert_keys)
  with 2 show ?case by fastforce
qed simp

lemma family_max_insert_map_of:
  "sorted_wrt (<) (map fst m) \<Longrightarrow>
   map_of (family_max_insert cf seq m) =
     (map_of m)(cf \<mapsto> (case map_of m cf of None \<Rightarrow> seq | Some s \<Rightarrow> max s seq))"
proof (induction cf seq m rule: family_max_insert.induct)
  case (2 cf seq c s m)
  have "map_of m cf = None" if "cf < c"
    using 2(2) that by (auto simp: map_of_eq_None_iff)
  with 2 show ?case by (auto simp: fun_eq_iff)
qed simp

lemma tail_of_sorted: "sorted_wrt (<) (map fst (t_max_seq_per_cf (tail_of xs)))"
proof (induction xs rule: rev_induct)
  case (snoc x xs)
  then show ?case by (cases x) (simp add: tail_count_def family_max_insert_sorted)
qed (simp add: empty_tail_def)

lemma finite_family_seqs [simp]: "finite {seq. (seq, cf) \<in> set xs}"
  by (rule finite_subset [of _ "fst ` set xs"]) force+

lemma tail_of_families:
  "map_of (t_max_seq_per_cf (tail_of xs)) cf =
     (if cf \<in> snd ` set xs then Some (Max {seq. (seq, cf) \<in> set xs}) else None)"
proof (induction xs rule: rev_induct)
  case (snoc x xs)
  obtain seq c where x: "x = (seq, c)" by fastforce
  show ?case
  proof (cases "cf = c")
    case True
    have "{s. (s, cf) \<in> set (xs @ [x])} = insert seq {s. (s, cf) \<in> set xs}"
      using True x by auto
    moreover have "{s. (s, cf) \<in> set xs} \<noteq> {}" if "cf \<in> snd ` set xs" using that by auto
    moreover have "{s. (s, cf) \<in> set xs} = {}" if "cf \<notin> snd ` set xs" using that by force
    ultimately show ?thesis using True x snoc
      by (auto simp: tail_count_def family_max_insert_map_of tail_of_sorted max.commute)
  next
    case False
    then have "{s. (s, cf) \<in> set (xs @ [x])} = {s. (s, cf) \<in> set xs}" using x by auto
    with False x snoc show ?thesis
      by (auto simp: tail_count_def family_max_insert_map_of tail_of_sorted)
  qed
qed (simp add: empty_tail_def)

lemma tail_admit_iff:
  "tail_admit (tail_of xs) h seq = Inr () \<longleftrightarrow> sh_first_seq h \<le> seq \<and> (\<forall>x \<in> set xs. fst x < seq)"
proof -
  have "(case t_last_seq (tail_of xs) of None \<Rightarrow> False | Some l \<Rightarrow> seq \<le> l) \<longleftrightarrow>
      \<not> (\<forall>x \<in> set xs. fst x < seq)"
    by (auto simp: tail_of_last Max_ge_iff not_less)
  then show ?thesis by (auto simp: tail_admit_def tail_admit_all_def not_less not_le)
qed

section \<open>Sealed segments\<close>

text \<open>
  The specification: a sealed segment is a header, the frames of its records in strictly
  increasing sequence order from the header's first one, and the footer that summarises
  them. A record is a payload that decodes, and whose batch decodes when it carries one.
\<close>

definition record_in :: "codec_lib \<Rightarrow> bytes \<Rightarrow> wal_record \<Rightarrow> bool" where
  "record_in lib p r \<longleftrightarrow>
     wal_decode lib p = Inr r \<and> length p \<le> wal_max_record_len \<and> check_batch r = Inr ()"

definition segment_data :: "codec_lib \<Rightarrow> segment_header \<Rightarrow> bytes list \<Rightarrow> bytes" where
  "segment_data lib h ps = header_encode lib h @ concat (map (frame_bytes lib) ps)"

definition keys_of :: "wal_record list \<Rightarrow> (u64 \<times> u32) list" where
  "keys_of rs = map (\<lambda>r. (w_seq r, w_cf_id r)) rs"

definition sealing :: "codec_lib \<Rightarrow> segment_header \<Rightarrow> bytes list \<Rightarrow> wal_record list \<Rightarrow> footer" where
  "sealing lib h ps rs = footer_sealing lib h (tail_of (keys_of rs)) (digest_of (segment_data lib h ps))"

definition ordered_from :: "segment_header \<Rightarrow> wal_record list \<Rightarrow> bool" where
  "ordered_from h rs \<longleftrightarrow> sorted_wrt (<) (map w_seq rs) \<and> (\<forall>r \<in> set rs. sh_first_seq h \<le> w_seq r)"

definition sealed_segment ::
    "codec_lib \<Rightarrow> segment_header \<Rightarrow> bytes list \<Rightarrow> wal_record list \<Rightarrow> bytes \<Rightarrow> bool" where
  "sealed_segment lib h ps rs data \<longleftrightarrow>
     list_all2 (record_in lib) ps rs \<and> ordered_from h rs \<and>
     length (footer_encode_payload (sealing lib h ps rs)) \<le> wal_max_record_len \<and>
     data = segment_data lib h ps @ frame_bytes lib (footer_encode_payload (sealing lib h ps rs))"

text \<open>The state of the scan after the records \<open>rs\<close> in the payloads \<open>ps\<close>.\<close>

definition scan_after :: "codec_lib \<Rightarrow> segment_header \<Rightarrow> bytes list \<Rightarrow> wal_record list \<Rightarrow> segment_scan" where
  "scan_after lib h ps rs =
     \<lparr>sc_header = h, sc_digest = digest_of (segment_data lib h ps), sc_tail = tail_of (keys_of rs),
      sc_footer = None\<rparr>"

lemma scan_after_simps [simp]:
  "sc_header (scan_after lib h ps rs) = h" "sc_footer (scan_after lib h ps rs) = None"
  "sc_digest (scan_after lib h ps rs) = digest_of (segment_data lib h ps)"
  by (simp_all add: scan_after_def)

lemma digest_of_eq:
  "length bs \<le> u64_max \<Longrightarrow> digest_of bs = \<lparr>dg_bytes = bs, dg_data_len = of_nat (length bs)\<rparr>"
  by (simp add: digest_of_def digest_update_def saturating_add_u64_def unat_of_nat)

lemma digest_update_of:
  assumes "length bs + length cs \<le> u64_max"
  shows "digest_update (digest_of bs) cs = digest_of (bs @ cs)"
proof -
  have "unat (of_nat (length bs) :: u64) = length bs" "unat (of_nat (length cs) :: u64) = length cs"
    using assms by (simp_all add: unat_of_nat)
  with assms show ?thesis
    by (simp add: digest_of_eq) (simp add: digest_update_def saturating_add_u64_def)
qed

lemma wal_decode_payload:
  assumes "wal_decode lib p = Inr r"
  shows "\<not> is_footer_payload p" "p \<noteq> []"
proof -
  from assms have "take 2 p = wal_magic" "length p \<ge> 3"
    by (auto simp: wal_decode_def decode_view_def prefix_len_def split: if_splits)
  then show "\<not> is_footer_payload p" "p \<noteq> []"
    by (auto simp: is_footer_payload_def footer_magic_def wal_magic_def)
qed

lemma segment_data_snoc: "segment_data lib h (ps @ [p]) = segment_data lib h ps @ frame_bytes lib p"
  by (simp add: segment_data_def)

lemma scan_record_step:
  assumes "\<not> is_footer_payload p" "length p \<le> wal_max_record_len" "length (segment_data lib h (ps @ [p])) \<le> u64_max"
  shows "scan_frame lib (scan_after lib h ps rs) p =
    Inr (ScannedRecord, (scan_after lib h ps rs)\<lparr>sc_digest := digest_of (segment_data lib h (ps @ [p]))\<rparr>)"
  using assms
  by (simp add: scan_frame_def scan_after_def frame_header_Inr [THEN iffD2] digest_update_of
      segment_data_snoc frame_bytes_split wal_frame_header_len_def)

definition comes_next :: "segment_header \<Rightarrow> wal_record list \<Rightarrow> wal_record \<Rightarrow> bool" where
  "comes_next h rs r \<longleftrightarrow> sh_first_seq h \<le> w_seq r \<and> (\<forall>x \<in> set rs. w_seq x < w_seq r)"

lemma ordered_from_snoc: "ordered_from h (rs @ [r]) \<longleftrightarrow> ordered_from h rs \<and> comes_next h rs r"
  by (auto simp: ordered_from_def comes_next_def sorted_wrt_append)

lemma scan_observe_after:
  "scan_observe ((scan_after lib h ps rs)\<lparr>sc_digest := digest_of (segment_data lib h ps')\<rparr>) (w_seq r) (w_cf_id r) =
     (if comes_next h rs r then Inr (scan_after lib h ps' (rs @ [r]))
      else map_err Corruption (Inl (projl (tail_admit (tail_of (keys_of rs)) h (w_seq r)))))"
proof -
  have t: "tail_admit (tail_of (keys_of rs)) h (w_seq r) = Inr () \<longleftrightarrow> comes_next h rs r"
    by (simp add: tail_admit_iff comes_next_def keys_of_def)
  show ?thesis
  proof (cases "tail_admit (tail_of (keys_of rs)) h (w_seq r)")
    case (Inr u)
    with t show ?thesis
      by (simp add: scan_observe_def scan_check_record_def scan_after_def keys_of_def)
  next
    case (Inl e)
    with t show ?thesis by (simp add: scan_observe_def scan_check_record_def scan_after_def)
  qed
qed

lemma walk_record:
  assumes nf: "next_frame lib (slice_source data) pos no_limits = Inr (Frame p n)"
    and p: "\<not> is_footer_payload p" and fits: "length (segment_data lib h (ps @ [p])) \<le> u64_max"
  shows "validate_walk lib data pos (scan_after lib h ps rs) = Inr sc \<longleftrightarrow>
    (\<exists>r. record_in lib p r \<and> comes_next h rs r \<and>
       validate_walk lib data n (scan_after lib h (ps @ [p]) (rs @ [r])) = Inr sc)"
proof -
  have l: "length p \<le> wal_max_record_len" using next_frame_Frame [OF nf] by simp
  show ?thesis unfolding validate_walk.simps [of _ _ pos]
    by (auto simp: nf scan_record_step [OF p l fits] scan_observe_after record_in_def l split: if_splits)
qed

lemma walk_footer:
  assumes nf: "next_frame lib (slice_source data) pos no_limits = Inr (Frame p n)"
    and p: "is_footer_payload p" and pos: "pos = length (segment_data lib h ps)" and fits: "length data \<le> u64_max"
  shows "validate_walk lib data pos (scan_after lib h ps rs) = Inr sc \<longleftrightarrow>
    footer_decode_payload p = Inr (sealing lib h ps rs) \<and>
    sc = (scan_after lib h ps rs)\<lparr>sc_footer := Some (sealing lib h ps rs, of_nat n)\<rparr>"
proof -
  note n = next_frame_Frame [OF nf]
  have "dg_data_len (digest_of (segment_data lib h ps)) = of_nat pos"
    using n fits pos by (simp add: digest_of_eq)
  moreover have "n = pos + (wal_frame_header_len + length p)" "n \<le> u64_max" using n fits by auto
  ultimately have e: "saturating_add_u64 (dg_data_len (digest_of (segment_data lib h ps)))
      (of_nat (wal_frame_header_len + length p)) = of_nat n"
    using saturating_add_of_nat [of pos "wal_frame_header_len + length p"] by simp
  have s: "scan_sealing lib (scan_after lib h ps rs) = sealing lib h ps rs"
    by (simp add: scan_sealing_def scan_after_def sealing_def)
  show ?thesis unfolding validate_walk.simps [of _ _ pos]
    by (cases "footer_decode_payload p")
      (auto simp: nf scan_frame_def p e s Let_def split: if_splits simp del: of_nat_add)
qed

lemma take_next_frame:
  assumes "next_frame lib (slice_source data) pos no_limits = Inr (Frame p n)"
    "take pos data = segment_data lib h ps"
  shows "take n data = segment_data lib h (ps @ [p])"
proof -
  note n = next_frame_Frame [OF assms(1)]
  have "take n data = take pos data @ take (n - pos) (drop pos data)"
    using n(2) by (metis add.assoc add_diff_cancel_left' take_add)
  also have "take (n - pos) (drop pos data) = frame_bytes lib p" using n by simp
  finally show ?thesis by (simp add: assms(2) segment_data_snoc)
qed

lemma walk_sound:
  "\<lbrakk>validate_walk lib data pos (scan_after lib h ps rs) = Inr sc; sc_footer sc = Some (f, e);
    take pos data = segment_data lib h ps; pos = length (segment_data lib h ps);
    list_all2 (record_in lib) ps rs; ordered_from h rs; length data \<le> u64_max\<rbrakk> \<Longrightarrow>
   sc_header sc = h \<and>
   (\<exists>ps' rs' n. list_all2 (record_in lib) ps' rs' \<and> ordered_from h rs' \<and> f = sealing lib h ps' rs' \<and>
      footer_wf f \<and> length (footer_encode_payload f) \<le> wal_max_record_len \<and> n \<le> length data \<and>
      e = of_nat n \<and> take n data = segment_data lib h ps' @ frame_bytes lib (footer_encode_payload f))"
proof (induction "length data - pos" arbitrary: pos ps rs rule: less_induct)
  case less
  show ?case
  proof (cases "next_frame lib (slice_source data) pos no_limits")
    case (Inl err)
    with less(2) show ?thesis by (simp add: validate_walk.simps [of _ _ pos])
  next
    case (Inr step)
    show ?thesis
    proof (cases step)
      case Eof
      with less(2,3) Inr show ?thesis by (simp add: validate_walk.simps [of _ _ pos]) (auto simp: scan_after_def)
    next
      case (Frame p n)
      with Inr have nf: "next_frame lib (slice_source data) pos no_limits = Inr (Frame p n)" by simp
      note n = next_frame_Frame [OF nf] and tk = take_next_frame [OF nf less(4)]
      show ?thesis
      proof (cases "is_footer_payload p")
        case True
        from less(2) [unfolded walk_footer [OF nf True less(5,8)]] less(3)
        have "footer_decode_payload p = Inr (sealing lib h ps rs)" "sc_header sc = h"
          "f = sealing lib h ps rs" "e = of_nat n" by (auto simp: scan_after_def)
        with footer_decode_exact [of p] n tk less(6,7) show ?thesis
          by (auto simp: segment_data_snoc intro!: exI [of _ ps] exI [of _ rs] exI [of _ n])
      next
        case False
        have len: "n = length (segment_data lib h (ps @ [p]))" using tk n(3) by (metis length_take min_absorb2)
        with n(3) less(8) have fits: "length (segment_data lib h (ps @ [p])) \<le> u64_max" by simp
        from less(2) [unfolded walk_record [OF nf False fits]] obtain r where
          r: "record_in lib p r" "comes_next h rs r"
          "validate_walk lib data n (scan_after lib h (ps @ [p]) (rs @ [r])) = Inr sc" by blast
        show ?thesis
          by (rule less(1) [OF _ r(3) less(3) tk len])
            (use next_frame_advances [OF nf] less(6,7,8) r in \<open>auto simp: ordered_from_snoc list_all2_appendI\<close>)
      qed
    qed
  qed
qed

lemma sealing_wf:
  assumes "length (footer_encode_payload (sealing lib h ps rs)) \<le> wal_max_record_len"
  shows "footer_wf (sealing lib h ps rs)"
proof -
  have "adjacent_all (\<lambda>a b. fst a < fst b) (t_max_seq_per_cf (tail_of (keys_of rs)))"
    using tail_of_sorted [of "keys_of rs"]
    by (subst adjacent_all_sorted_wrt) (auto simp: sorted_wrt_map transp_def)
  moreover have "12 * length (ft_max_seq_per_cf (sealing lib h ps rs)) \<le> wal_max_record_len"
    using assms by (simp add: footer_encode_payload_def)
  ultimately show ?thesis
    by (simp add: footer_wf_def sealing_def footer_sealing_def wal_max_record_len_def)
qed

lemma footer_payload_nonempty: "footer_encode_payload f \<noteq> []" "is_footer_payload (footer_encode_payload f)"
  by (auto simp: footer_encode_payload_def is_footer_payload_iff)

lemma walk_complete:
  assumes fits: "length data \<le> u64_max" and f: "length (footer_encode_payload f) \<le> wal_max_record_len"
  shows "\<lbrakk>data = segment_data lib h (ps1 @ ps2) @ frame_bytes lib (footer_encode_payload f);
      f = sealing lib h (ps1 @ ps2) (rs1 @ rs2); list_all2 (record_in lib) ps2 rs2;
      ordered_from h (rs1 @ rs2)\<rbrakk> \<Longrightarrow>
    validate_walk lib data (length (segment_data lib h ps1)) (scan_after lib h ps1 rs1) =
      Inr ((scan_after lib h (ps1 @ ps2) (rs1 @ rs2))\<lparr>sc_footer := Some (f, of_nat (length data))\<rparr>)"
proof (induction ps2 arbitrary: ps1 rs1 rs2)
  case Nil
  then have nf: "next_frame lib (slice_source data) (length (segment_data lib h ps1)) no_limits =
      Inr (Frame (footer_encode_payload f) (length data))"
    using next_frame_whole [of data "segment_data lib h ps1" lib "footer_encode_payload f" "[]" no_limits] fits f
    by (simp add: footer_payload_nonempty no_limits_def)
  from Nil footer_decode_encode [OF sealing_wf, of lib h ps1 rs1] f show ?case
    by (subst walk_footer [OF nf footer_payload_nonempty(2) refl fits]) simp
next
  case (Cons p ps2)
  then obtain r rs where rs2: "rs2 = r # rs" and r: "record_in lib p r" and rest: "list_all2 (record_in lib) ps2 rs"
    by (auto simp: list_all2_Cons1)
  from r have p: "\<not> is_footer_payload p" "p \<noteq> []" "length p \<le> wal_max_record_len"
    using wal_decode_payload [of lib p r] by (auto simp: record_in_def)
  have data: "data = segment_data lib h ps1 @ frame_bytes lib p @
      (concat (map (frame_bytes lib) ps2) @ frame_bytes lib (footer_encode_payload f))"
    using Cons.prems(1) by (simp add: segment_data_def)
  have nf: "next_frame lib (slice_source data) (length (segment_data lib h ps1)) no_limits =
      Inr (Frame p (length (segment_data lib h (ps1 @ [p]))))"
    using next_frame_whole [OF data p(2,3) fits] by (simp add: no_limits_def segment_data_snoc)
  have "length (segment_data lib h (ps1 @ [p])) \<le> u64_max"
    using fits arg_cong [OF data, of length] by (simp add: segment_data_snoc)
  note walk = walk_record [OF nf p(1) this]
  have "ordered_from h ((rs1 @ [r]) @ rs)" using Cons.prems(4) by (simp add: rs2)
  moreover from this have "comes_next h rs1 r"
    by (auto simp: ordered_from_def comes_next_def sorted_wrt_append)
  moreover have "validate_walk lib data (length (segment_data lib h (ps1 @ [p])))
      (scan_after lib h (ps1 @ [p]) (rs1 @ [r])) =
    Inr ((scan_after lib h ((ps1 @ [p]) @ ps2) ((rs1 @ [r]) @ rs))\<lparr>sc_footer := Some (f, of_nat (length data))\<rparr>)"
    by (rule Cons.IH) (use Cons.prems rest in \<open>simp_all add: rs2\<close>)
  ultimately show ?case unfolding walk using r by (auto simp: rs2)
qed

lemma length_segment_data: "header_len + length ps \<le> length (segment_data lib h ps)"
  by (induction ps) (auto simp: segment_data_def wal_frame_header_len_def)

lemma scan_start_iff:
  "scan_start lib data = Inr sc \<longleftrightarrow>
     (\<exists>h. take header_len data = header_encode lib h \<and> sc = scan_after lib h [] [])"
proof
  assume "scan_start lib data = Inr sc"
  then obtain h where h: "header_decode lib data = Inr h"
    and sc: "sc = \<lparr>sc_header = h, sc_digest = digest_of (take header_len data), sc_tail = empty_tail,
      sc_footer = None\<rparr>" by (auto simp: scan_start_def)
  from header_decode_exact [OF h] sc show "\<exists>h. take header_len data = header_encode lib h \<and> sc = scan_after lib h [] []"
    by (intro exI [of _ h]) (simp add: scan_after_def segment_data_def keys_of_def)
next
  assume "\<exists>h. take header_len data = header_encode lib h \<and> sc = scan_after lib h [] []"
  then obtain h where h: "take header_len data = header_encode lib h" "sc = scan_after lib h [] []" by blast
  have "header_decode lib data = Inr h"
    using header_decode_encode [of lib h "drop header_len data"] append_take_drop_id [of header_len data]
    unfolding h(1) by metis
  with h show "scan_start lib data = Inr sc"
    by (simp add: scan_start_def scan_after_def segment_data_def keys_of_def)
qed

lemma validate_sound:
  assumes fits: "length data \<le> u64_max" and v: "validate_segment_bytes lib data = Inr v"
  obtains h ps rs where "sealed_segment lib h ps rs data" "rs \<noteq> []"
    "v = \<lparr>sv_writer_epoch = sh_epoch h, sv_prev = sh_prev h,
          sv_facts = footer_sealed_facts (sealing lib h ps rs)\<rparr>"
proof -
  from v obtain h sc f where h: "take header_len data = header_encode lib h"
    and walk: "validate_walk lib data header_len (scan_after lib h [] []) = Inr sc"
    and f: "sc_footer sc = Some (f, u64_of_len (length data))" "ft_record_count f \<noteq> 0"
    and v: "v = \<lparr>sv_writer_epoch = sh_epoch (sc_header sc), sv_prev = sh_prev (sc_header sc),
                sv_facts = footer_sealed_facts f\<rparr>"
    by (auto simp: validate_segment_bytes_def scan_start_iff scan_finish_def split: option.splits if_splits)
  have "take header_len data = segment_data lib h []" "header_len = length (segment_data lib h [])"
    using h by (simp_all add: segment_data_def)
  from walk_sound [OF walk f(1) this _ _ fits] obtain ps rs n where
    sc: "sc_header sc = h" and rs: "list_all2 (record_in lib) ps rs" "ordered_from h rs"
    and s: "f = sealing lib h ps rs" "length (footer_encode_payload f) \<le> wal_max_record_len"
    and n: "n \<le> length data" "u64_of_len (length data) = of_nat n"
    and data: "take n data = segment_data lib h ps @ frame_bytes lib (footer_encode_payload f)"
    by (auto simp: ordered_from_def)
  have "length data = n"
    using n fits unat_u64_of_nat [of n] unat_u64_of_nat [of "length data"] by (simp add: u64_of_len_def)
  with data rs s have "sealed_segment lib h ps rs data" by (simp add: sealed_segment_def)
  moreover have "rs \<noteq> []" using f(2) s(1)
    by (auto simp: sealing_def footer_sealing_def keys_of_def empty_tail_def)
  ultimately show ?thesis using that v s sc by blast
qed

lemma validate_complete:
  assumes fits: "length data \<le> u64_max" and s: "sealed_segment lib h ps rs data" "rs \<noteq> []"
  shows "validate_segment_bytes lib data =
    Inr \<lparr>sv_writer_epoch = sh_epoch h, sv_prev = sh_prev h,
         sv_facts = footer_sealed_facts (sealing lib h ps rs)\<rparr>"
proof -
  let ?f = "sealing lib h ps rs"
  from s(1) have rs: "list_all2 (record_in lib) ps rs" "ordered_from h rs"
    and f: "length (footer_encode_payload ?f) \<le> wal_max_record_len"
    and data: "data = segment_data lib h ps @ frame_bytes lib (footer_encode_payload ?f)"
    by (simp_all add: sealed_segment_def)
  have "take header_len data = header_encode lib h" unfolding data by (simp add: segment_data_def)
  then have start: "scan_start lib data = Inr (scan_after lib h [] [])"
    unfolding scan_start_iff by blast
  have len: "header_len = length (segment_data lib h [])" by (simp add: segment_data_def)
  have "validate_walk lib data (length (segment_data lib h [])) (scan_after lib h [] []) =
    Inr ((scan_after lib h ([] @ ps) ([] @ rs))\<lparr>sc_footer := Some (?f, of_nat (length data))\<rparr>)"
    by (rule walk_complete [OF fits f]) (use rs in \<open>simp_all add: data\<close>)
  then have walk: "validate_walk lib data header_len (scan_after lib h [] []) =
    Inr ((scan_after lib h ps rs)\<lparr>sc_footer := Some (?f, of_nat (length data))\<rparr>)"
    unfolding len append_Nil .
  have "length rs = length ps" using rs by (simp add: list_all2_lengthD)
  also have "\<dots> \<le> length data" using length_segment_data [of ps lib h] unfolding data by simp
  finally have "length rs \<le> u64_max" using fits by (rule le_trans)
  then have "unat (ft_record_count ?f) = length rs"
    using tail_of_count [of "keys_of rs"] unat_u64_of_nat [of "length rs"]
    by (simp add: sealing_def footer_sealing_def keys_of_def)
  with s(2) have "ft_record_count ?f \<noteq> 0" by auto
  with start walk fits show ?thesis
    by (simp add: validate_segment_bytes_def scan_finish_def u64_of_len_def)
qed

text \<open>
  C3. Validation accepts exactly the sealed segments: a byte sequence is accepted if and
  only if it is a header, the frames of at least one record in strictly increasing sequence
  order from the header's first one, each decodable (its batch included), and the footer
  that summarises exactly those records and the digest of exactly those bytes, with nothing
  after it. The validation returned is that header's and that footer's.
\<close>

theorem validate_segment_exact:
  assumes "length data \<le> u64_max"
  shows "validate_segment_bytes lib data = Inr v \<longleftrightarrow>
    (\<exists>h ps rs. sealed_segment lib h ps rs data \<and> rs \<noteq> [] \<and>
       v = \<lparr>sv_writer_epoch = sh_epoch h, sv_prev = sh_prev h,
            sv_facts = footer_sealed_facts (sealing lib h ps rs)\<rparr>)"
  using validate_sound [OF assms] validate_complete [OF assms] by metis

definition sample_header :: segment_header where
  "sample_header = \<lparr>sh_id = 1, sh_epoch = 4, sh_holder = 6, sh_first_seq = 9, sh_prev = genesis_link\<rparr>"

lemma sample_record_in: "\<exists>p. record_in stored_lib p sample_put"
proof -
  obtain p where p: "wal_encode stored_lib sample_put = Inr p" using sample_put_encodes by blast
  have "reject_op_specific_corruption (w_op sample_put) (w_value sample_put \<noteq> None)
      (w_range_end sample_put \<noteq> None) = Inr ()"
    by (simp add: sample_put_def reject_op_specific_corruption_def)
  from wal_decode_encode [OF stored_lib_ok(2) p this] have "wal_decode stored_lib p = Inr sample_put" .
  moreover have "length p \<le> wal_max_record_len"
    using wal_encode_Inr(1) [OF p] length_record_payload [of stored_lib sample_put]
    by (simp add: sample_put_def opt_len_def opt_len8_def wal_max_record_len_def)
  moreover have "check_batch sample_put = Inr ()"
    by (simp add: check_batch_def is_transaction_batch_def sample_put_def)
  ultimately show ?thesis unfolding record_in_def by blast
qed

lemma sample_sealed:
  assumes "record_in stored_lib p sample_put"
    and data: "data = segment_data stored_lib sample_header [p] @
      frame_bytes stored_lib (footer_encode_payload (sealing stored_lib sample_header [p] [sample_put]))"
  shows "sealed_segment stored_lib sample_header [p] [sample_put] data" "length data \<le> u64_max"
proof -
  let ?f = "sealing stored_lib sample_header [p] [sample_put]"
  have "length (ft_max_seq_per_cf ?f) = 1"
    by (simp add: sealing_def footer_sealing_def tail_of_def keys_of_def tail_count_def empty_tail_def)
  then have f: "length (footer_encode_payload ?f) = 75"
    by (simp add: footer_encode_payload_def footer_magic_def)
  with assms show "sealed_segment stored_lib sample_header [p] [sample_put] data"
    by (simp add: sealed_segment_def ordered_from_def sample_header_def sample_put_def wal_max_record_len_def)
  have "length p \<le> wal_max_record_len" using assms(1) by (simp add: record_in_def)
  with f show "length data \<le> u64_max"
    unfolding data by (simp add: segment_data_def wal_consts header_len_def)
qed

theorem validate_segment_exact_witness:
  "\<exists>data v. validate_segment_bytes stored_lib data = Inr v \<and> sv_writer_epoch v = 4"
proof -
  obtain p where p: "record_in stored_lib p sample_put" using sample_record_in by blast
  note s = sample_sealed [OF p refl]
  from s(1) validate_segment_exact [OF s(2), of stored_lib] show ?thesis
    by (fastforce simp: sample_header_def)
qed

lemma sorted_last_Max:
  assumes "sorted_wrt (<) (map f rs)" "rs \<noteq> []"
  shows "Max (f ` set rs) = (f (last rs) :: u64)"
proof (rule Max_eqI)
  fix y assume "y \<in> f ` set rs"
  then obtain i where i: "i < length rs" "y = f (rs ! i)" by (auto simp: in_set_conv_nth)
  show "y \<le> f (last rs)"
  proof (cases "i = length rs - 1")
    case False
    then have "f (rs ! i) < f (rs ! (length rs - 1))"
      using sorted_wrt_nth_less [OF assms(1), of i "length rs - 1"] i by simp
    with i assms(2) show ?thesis by (simp add: last_conv_nth)
  qed (use i assms(2) in \<open>simp add: last_conv_nth\<close>)
qed (use assms in auto)

lemma sealed_counts:
  assumes "sealed_segment lib h ps rs data" "length data \<le> u64_max"
  shows "length rs \<le> u64_max" "length (segment_data lib h ps) \<le> u64_max"
proof -
  have "length rs = length ps" using assms by (auto simp: sealed_segment_def dest: list_all2_lengthD)
  moreover show "length (segment_data lib h ps) \<le> u64_max"
    using assms by (simp add: sealed_segment_def)
  ultimately show "length rs \<le> u64_max" using length_segment_data [of ps lib h] by simp
qed

lemma sealing_last:
  assumes "ordered_from h rs"
  shows "ft_last_seq (sealing lib h ps rs) = (if rs = [] then l_last_seq (sh_prev h) else w_seq (last rs))"
proof -
  have "fst ` set (keys_of rs) = w_seq ` set rs" by (force simp: keys_of_def)
  with sorted_last_Max [of w_seq rs] assms show ?thesis
    by (auto simp: sealing_def footer_sealing_def tail_of_last ordered_from_def keys_of_def empty_tail_def)
qed

lemma sealing_families:
  "map_of (ft_max_seq_per_cf (sealing lib h ps rs)) cf =
     (if \<exists>r \<in> set rs. w_cf_id r = cf then Some (Max {w_seq r | r. r \<in> set rs \<and> w_cf_id r = cf}) else None)"
proof -
  have "{seq. (seq, cf) \<in> set (keys_of rs)} = {w_seq r | r. r \<in> set rs \<and> w_cf_id r = cf}"
    "cf \<in> snd ` set (keys_of rs) \<longleftrightarrow> (\<exists>r \<in> set rs. w_cf_id r = cf)"
    by (force simp: keys_of_def)+
  then show ?thesis by (simp add: sealing_def footer_sealing_def tail_of_families)
qed

lemma sealed_facts_hold:
  assumes seg: "sealed_segment lib h ps rs data" "length data \<le> u64_max" and rs: "rs \<noteq> []"
    and facts: "facts = footer_sealed_facts (sealing lib h ps rs)"
  shows "l_id (sf_link facts) = sh_id h \<and>
    l_last_seq (sf_link facts) = w_seq (last rs) \<and>
    unat (sf_record_count facts) = length rs \<and>
    unat (sf_data_len facts) = length (segment_data lib h ps) \<and>
    l_digest (sf_link facts) = xxh3_128 lib (segment_data lib h ps) \<and>
    map_of (sf_max_seq_per_cf facts) cf =
      (if \<exists>r \<in> set rs. w_cf_id r = cf then Some (Max {w_seq r | r. r \<in> set rs \<and> w_cf_id r = cf}) else None)"
proof -
  note le = sealed_counts [OF seg]
  have "ordered_from h rs" using seg by (simp add: sealed_segment_def)
  then have "ft_last_seq (sealing lib h ps rs) = w_seq (last rs)" using rs by (simp add: sealing_last)
  moreover have "unat (ft_record_count (sealing lib h ps rs)) = length rs"
    using le(1) tail_of_count [of "keys_of rs"] unat_u64_of_nat [of "length rs"]
    by (simp add: sealing_def footer_sealing_def keys_of_def)
  moreover have "ft_data_len (sealing lib h ps rs) = of_nat (length (segment_data lib h ps))"
    "ft_digest (sealing lib h ps rs) = xxh3_128 lib (segment_data lib h ps)"
    "ft_id (sealing lib h ps rs) = sh_id h"
    using le(2) by (simp_all add: sealing_def footer_sealing_def digest_of_eq digest_value_def)
  ultimately show ?thesis using unat_u64_of_nat [OF le(2)]
    by (simp add: facts footer_sealed_facts_def sealing_families)
qed

text \<open>
  The sealed facts mean what they say: for a sealed segment with records, the facts hold
  the segment's id, the sequence of its last record, the number of its records, the length
  and digest of the bytes before the footer, and for each column family exactly the highest
  sequence a record of that family has.
\<close>

theorem sealed_facts_exact:
  assumes seg: "sealed_segment lib h ps rs data" "length data \<le> u64_max" and rs: "rs \<noteq> []"
    and facts: "facts = footer_sealed_facts (sealing lib h ps rs)"
  shows "l_id (sf_link facts) = sh_id h \<and>
    l_last_seq (sf_link facts) = w_seq (last rs) \<and>
    unat (sf_record_count facts) = length rs \<and>
    unat (sf_data_len facts) = length (segment_data lib h ps) \<and>
    l_digest (sf_link facts) = xxh3_128 lib (segment_data lib h ps) \<and>
    map_of (sf_max_seq_per_cf facts) cf =
      (if \<exists>r \<in> set rs. w_cf_id r = cf then Some (Max {w_seq r | r. r \<in> set rs \<and> w_cf_id r = cf}) else None)"
  using assms by (rule sealed_facts_hold)

theorem sealed_facts_exact_witness:
  "\<exists>p. record_in stored_lib p sample_put \<and>
     (let facts = footer_sealed_facts (sealing stored_lib sample_header [p] [sample_put])
      in l_last_seq (sf_link facts) = 9 \<and> unat (sf_record_count facts) = 1 \<and>
         map_of (sf_max_seq_per_cf facts) 3 = Some 9)"
proof -
  obtain p where p: "record_in stored_lib p sample_put" using sample_record_in by blast
  from sealed_facts_exact [OF sample_sealed [OF p refl] _ refl, of 3] p show ?thesis
    by (intro exI [of _ p]) (simp add: Let_def sample_put_def)
qed

section \<open>Chained segments\<close>

text \<open>
  Replay admits the segments of a chain one after the other, and seals each with the link
  its scan found. An item is a sealed segment: its header, payloads and records.
\<close>

type_synonym segment = "segment_header \<times> bytes list \<times> wal_record list"

definition segment_link :: "codec_lib \<Rightarrow> segment \<Rightarrow> chain_link" where
  "segment_link lib = (\<lambda>(h, ps, rs). sf_link (footer_sealed_facts (sealing lib h ps rs)))"

fun chain_segments :: "codec_lib \<Rightarrow> chain_state \<Rightarrow> segment list \<Rightarrow> chain_state midge_result" where
  "chain_segments lib c [] = Inr c"
| "chain_segments lib c (s # ss) =
     try_with (chain_admit c (fst s) (sh_id (fst s))) (\<lambda>c.
       chain_segments lib (chain_seal c (segment_link lib s)) ss)"

definition chain_seqs :: "segment list \<Rightarrow> u64 list" where
  "chain_seqs ss = concat (map (\<lambda>(h, ps, rs). map w_seq rs) ss)"

lemma chain_admit_Inr:
  "chain_admit c h sid = Inr c' \<longleftrightarrow>
     \<not> ch_open c \<and> sh_id h = sid \<and> (\<forall>p. ch_expected_prev c = Some p \<longrightarrow> sh_prev h = p) \<and>
     l_last_seq (sh_prev h) < sh_first_seq h \<and> (\<forall>e. ch_epoch c = Some e \<longrightarrow> e \<le> sh_epoch h) \<and>
     l_id (sh_prev h) < sh_id h \<and> c' = c\<lparr>ch_epoch := Some (sh_epoch h), ch_open := True\<rparr>"
  by (auto simp: chain_admit_def follows_def header_open_facts_def Let_def not_le not_less
      split: option.splits if_splits)

lemma ordered_bounds:
  assumes "ordered_from h rs" "r \<in> set rs"
  shows "sh_first_seq h \<le> w_seq r" "w_seq r \<le> ft_last_seq (sealing lib h ps rs)"
proof -
  have "rs \<noteq> []" using assms(2) by auto
  then have "ft_last_seq (sealing lib h ps rs) = Max (w_seq ` set rs)"
    using sorted_last_Max [of w_seq rs] assms(1) by (simp add: sealing_last ordered_from_def)
  with assms show "sh_first_seq h \<le> w_seq r" "w_seq r \<le> ft_last_seq (sealing lib h ps rs)"
    by (auto simp: ordered_from_def)
qed

lemma sealing_past_prev:
  assumes "ordered_from h rs" "l_last_seq (sh_prev h) < sh_first_seq h"
  shows "l_last_seq (sh_prev h) \<le> ft_last_seq (sealing lib h ps rs)"
proof (cases "rs = []")
  case False
  then have "last rs \<in> set rs" by simp
  from ordered_bounds(1) [OF assms(1) this] ordered_bounds(2) [OF assms(1) this, of lib ps] assms(2)
  show ?thesis by order
qed (use assms in \<open>simp add: sealing_last\<close>)

lemma chain_segments_ordered:
  "\<lbrakk>chain_segments lib c ss = Inr c'; \<forall>(h, ps, rs) \<in> set ss. ordered_from h rs\<rbrakk> \<Longrightarrow>
   sorted_wrt (<) (chain_seqs ss) \<and> sorted_wrt (<) (map (\<lambda>s. sh_id (fst s)) ss) \<and>
   sorted (map (\<lambda>s. sh_epoch (fst s)) ss) \<and>
   (\<forall>p. ch_expected_prev c = Some p \<longrightarrow>
      (\<forall>s \<in> set (chain_seqs ss). l_last_seq p < s) \<and> (\<forall>s \<in> set ss. l_id p < sh_id (fst s))) \<and>
   (\<forall>e. ch_epoch c = Some e \<longrightarrow> (\<forall>s \<in> set ss. e \<le> sh_epoch (fst s)))"
proof (induction ss arbitrary: c)
  case Nil
  then show ?case by (simp add: chain_seqs_def)
next
  case (Cons s ss)
  obtain h ps rs where s: "s = (h, ps, rs)" by (cases s) auto
  from Cons.prems(2) have ord: "ordered_from h rs" by (simp add: s)
  from Cons.prems(1) obtain c1 where c1: "chain_admit c h (sh_id h) = Inr c1"
    and rest: "chain_segments lib (chain_seal c1 (segment_link lib s)) ss = Inr c'" by (auto simp: s)
  note adm = c1 [unfolded chain_admit_Inr]
  let ?link = "segment_link lib s"
  have link: "l_id ?link = sh_id h" "l_last_seq ?link = ft_last_seq (sealing lib h ps rs)"
    by (simp_all add: s segment_link_def footer_sealed_facts_def sealing_def footer_sealing_def)
  have c2: "ch_expected_prev (chain_seal c1 ?link) = Some ?link" "ch_epoch (chain_seal c1 ?link) = Some (sh_epoch h)"
    using adm by (simp_all add: chain_seal_def)
  have ih: "sorted_wrt (<) (chain_seqs ss)" "sorted_wrt (<) (map (\<lambda>s. sh_id (fst s)) ss)"
    "sorted (map (\<lambda>s. sh_epoch (fst s)) ss)" "\<forall>x \<in> set (chain_seqs ss). l_last_seq ?link < x"
    "\<forall>x \<in> set ss. sh_id h < sh_id (fst x)" "\<forall>x \<in> set ss. sh_epoch h \<le> sh_epoch (fst x)"
    using Cons.IH [OF rest] Cons.prems(2) c2 link by auto
  have seqs: "chain_seqs (s # ss) = map w_seq rs @ chain_seqs ss" by (simp add: chain_seqs_def s)
  have "w_seq r < x" if "r \<in> set rs" "x \<in> set (chain_seqs ss)" for r x
    using ordered_bounds(2) [OF ord that(1), of lib ps] ih(4) that(2) link by force
  then have "sorted_wrt (<) (chain_seqs (s # ss))"
    using ord ih(1) by (simp add: seqs sorted_wrt_append ordered_from_def)
  moreover have "l_last_seq (sh_prev h) < x" if "x \<in> set (chain_seqs (s # ss))" for x
  proof (cases "x \<in> set (chain_seqs ss)")
    case True
    with ih(4) sealing_past_prev [OF ord, of lib ps] adm link show ?thesis by force
  next
    case False
    with that obtain r where "r \<in> set rs" "x = w_seq r" by (auto simp: seqs)
    with ordered_bounds(1) [OF ord] adm show ?thesis by force
  qed
  moreover have "l_id (sh_prev h) < sh_id (fst x)" if "x \<in> set (s # ss)" for x
    using that ih(5) adm by (auto simp: s)
  ultimately show ?case using ih adm by (auto simp: s)
qed

text \<open>
  C4. The order of replay: when a chain of sealed segments is admitted segment by segment,
  the sequences of all their records, in segment order, strictly increase across the whole
  chain, as do the segment ids, and the writer epochs never decrease. So no two segments
  of an admitted chain hold the same sequence, whoever wrote them.
\<close>

theorem chained_records_ordered:
  assumes "chain_segments lib (chain_new anchor) segs = Inr c"
    and "\<forall>(h, ps, rs) \<in> set segs. \<exists>data. sealed_segment lib h ps rs data"
  shows "sorted_wrt (<) (chain_seqs segs) \<and> sorted_wrt (<) (map (\<lambda>s. sh_id (fst s)) segs) \<and>
    sorted (map (\<lambda>s. sh_epoch (fst s)) segs)"
proof -
  have "\<forall>(h, ps, rs) \<in> set segs. ordered_from h rs"
    using assms(2) by (fastforce simp: sealed_segment_def)
  from chain_segments_ordered [OF assms(1) this] show ?thesis by blast
qed

theorem chained_records_ordered_witness:
  "\<exists>p. record_in stored_lib p sample_put \<and>
     is_ok (chain_segments stored_lib (chain_new (Some genesis_link)) [(sample_header, [p], [sample_put])]) \<and>
     sorted_wrt (<) (chain_seqs [(sample_header, [p], [sample_put])])"
proof -
  obtain p where p: "record_in stored_lib p sample_put" using sample_record_in by blast
  let ?segs = "[(sample_header, [p], [sample_put])]"
  obtain c where c: "chain_segments stored_lib (chain_new (Some genesis_link)) ?segs = Inr c"
    by (simp add: chain_admit_Inr chain_new_def sample_header_def genesis_link_def)
  have "\<forall>(h, ps, rs) \<in> set ?segs. \<exists>data. sealed_segment stored_lib h ps rs data"
    using sample_sealed(1) [OF p refl] by auto
  from chained_records_ordered [OF c this] c p show ?thesis by (auto simp: is_ok_iff)
qed

end
