(* ===== verification/Wal_Names.thy ===== *)
theory Wal_Names
  imports Midge_Prelude "HOL-Library.Char_ord"
begin

text \<open>
  Names of WAL segments (\<^verbatim>\<open>src/src/wal/mod.rs\<close>): local file names and epoch-scoped object keys.
  A string is its list of characters; \<^verbatim>\<open>{:020}\<close> pads the decimal digits with zeros on the
  left. The theorems show that the parsers accept exactly the formatted names and that a
  listing in name order is one in id order.
\<close>

section \<open>Formatting and parsing\<close>

definition wal_segment_id_width :: nat where "wal_segment_id_width = 20"
definition wal_prefix :: string where "wal_prefix = ''wal/''"
definition wal_dir :: string where "wal_dir = ''wal''"

definition digit :: "nat \<Rightarrow> char" where
  "digit d = char_of (48 + d)"

fun decimal :: "nat \<Rightarrow> string" where
  "decimal n = (if n < 10 then [digit n] else decimal (n div 10) @ [digit (n mod 10)])"

declare decimal.simps [simp del]

definition padded :: "nat \<Rightarrow> nat \<Rightarrow> string" where
  "padded w n = replicate (w - length (decimal n)) (CHR ''0'') @ decimal n"

definition segment_file_name :: "u64 \<Rightarrow> string" where
  "segment_file_name sid = padded wal_segment_id_width (unat sid) @ ''.wal''"

definition segment_key :: "u64 \<Rightarrow> string" where
  "segment_key sid = wal_dir @ ''/'' @ segment_file_name sid"

definition segment_object_key :: "u64 \<Rightarrow> u64 \<Rightarrow> string" where
  "segment_object_key sid writer_epoch =
     wal_prefix @ ''epochs/'' @ padded wal_segment_id_width (unat writer_epoch) @ ''/'' @
     segment_file_name sid"

text \<open>\<^verbatim>\<open>strip_prefix\<close>, \<^verbatim>\<open>strip_suffix\<close>, \<^verbatim>\<open>split_once\<close>, \<^verbatim>\<open>is_ascii_digit\<close> and \<^verbatim>\<open>str::parse::<u64>\<close>
  on a string of digits.\<close>

definition strip_prefix :: "string \<Rightarrow> string \<Rightarrow> string option" where
  "strip_prefix p s = (if take (length p) s = p then Some (drop (length p) s) else None)"

definition strip_suffix :: "string \<Rightarrow> string \<Rightarrow> string option" where
  "strip_suffix p s =
     (if length p \<le> length s \<and> drop (length s - length p) s = p
      then Some (take (length s - length p) s) else None)"

fun split_once :: "char \<Rightarrow> string \<Rightarrow> (string \<times> string) option" where
  "split_once c [] = None"
| "split_once c (x # xs) =
     (if x = c then Some ([], xs)
      else map_option (\<lambda>(a, b). (x # a, b)) (split_once c xs))"

definition is_ascii_digit :: "char \<Rightarrow> bool" where
  "is_ascii_digit c \<longleftrightarrow> 48 \<le> (of_char c :: nat) \<and> (of_char c :: nat) \<le> 57"

definition digits_value :: "string \<Rightarrow> nat" where
  "digits_value s = fold (\<lambda>c v. 10 * v + (of_char c - 48)) s 0"

definition parse_u64 :: "string \<Rightarrow> u64 option" where
  "parse_u64 s = (if digits_value s \<le> u64_max then Some (of_nat (digits_value s)) else None)"

definition parse_padded_id :: "string \<Rightarrow> u64 option" where
  "parse_padded_id digits =
     (if length digits \<noteq> wal_segment_id_width \<or> \<not> list_all is_ascii_digit digits then None
      else parse_u64 digits)"

definition parse_segment_file_name :: "string \<Rightarrow> u64 option" where
  "parse_segment_file_name name = Option.bind (strip_suffix ''.wal'' name) parse_padded_id"

definition parse_segment_object_key :: "string \<Rightarrow> (u64 \<times> u64) option" where
  "parse_segment_object_key key =
     Option.bind (strip_prefix wal_prefix key) (\<lambda>rest.
     Option.bind (strip_prefix ''epochs/'' rest) (\<lambda>rest.
     Option.bind (split_once (CHR ''/'') rest) (\<lambda>(epoch, file_name).
     Option.bind (parse_padded_id epoch) (\<lambda>e.
     Option.bind (parse_segment_file_name file_name) (\<lambda>sid. Some (e, sid))))))"

section \<open>Digits of a fixed width\<close>

primrec fixed :: "nat \<Rightarrow> nat \<Rightarrow> string" where
  "fixed 0 n = []"
| "fixed (Suc k) n = fixed k (n div 10) @ [digit (n mod 10)]"

lemma length_fixed [simp]: "length (fixed k n) = k"
  by (induction k arbitrary: n) auto

lemma of_char_digit [simp]: "d < 10 \<Longrightarrow> of_char (digit d) = 48 + d"
  by (simp add: digit_def)

lemma digit_of_char: "is_ascii_digit c \<Longrightarrow> digit (of_char c - 48) = c"
  by (simp add: is_ascii_digit_def digit_def)

lemma fixed_zero: "fixed k 0 = replicate k (CHR ''0'')"
proof (induction k)
  case (Suc k)
  have "of_char (CHR ''0'') = (48 :: nat)" by simp
  then have "digit 0 = CHR ''0''" unfolding digit_def by (metis add_0_right char_of_char)
  with Suc show ?case by (simp flip: replicate_append_same)
qed simp

lemma decimal_fixed: "n < 10 ^ k \<Longrightarrow> k > 0 \<Longrightarrow> padded k n = fixed k n"
proof (induction n arbitrary: k rule: less_induct)
  case (less n)
  then obtain k' where k: "k = Suc k'" by (cases k) auto
  show ?case
  proof (cases "n < 10")
    case True
    then show ?thesis by (simp add: k padded_def decimal.simps [of n] fixed_zero)
  next
    case False
    then have k': "k' > 0" using less.prems k by (cases k') auto
    have "n div 10 < n" "n div 10 < 10 ^ k'" using False less.prems by (auto simp: k)
    from less.IH [OF this k'] False show ?thesis
      by (simp add: k padded_def decimal.simps [of n])
  qed
qed

lemma unat_fits: "unat (w :: u64) < 10 ^ wal_segment_id_width"
  by (rule le_less_trans [OF unat_u64_le]) (simp add: wal_segment_id_width_def)

lemma unat_padded: "padded wal_segment_id_width (unat (w :: u64)) = fixed wal_segment_id_width (unat w)"
  by (rule decimal_fixed [OF unat_fits]) (simp add: wal_segment_id_width_def)

lemma fixed_digits: "c \<in> set (fixed k n) \<Longrightarrow> is_ascii_digit c"
proof (induction k arbitrary: n)
  case (Suc k)
  have "n mod 10 < 10" by simp
  then have "is_ascii_digit (digit (n mod 10))" by (simp add: is_ascii_digit_def)
  with Suc show ?case by auto
qed simp

lemma digits_value_snoc: "digits_value (s @ [c]) = 10 * digits_value s + (of_char c - 48)"
  by (simp add: digits_value_def)

lemma digits_value_fixed: "n < 10 ^ k \<Longrightarrow> digits_value (fixed k n) = n"
proof (induction k arbitrary: n)
  case (Suc k)
  then have "n div 10 < 10 ^ k" by auto
  with Suc show ?case by (simp add: digits_value_snoc)
qed (simp add: digits_value_def)

lemma fixed_digits_value:
  "list_all is_ascii_digit s \<Longrightarrow> fixed (length s) (digits_value s) = s \<and> digits_value s < 10 ^ length s"
proof (induction s rule: rev_induct)
  case (snoc c s)
  then have c: "is_ascii_digit c" "of_char c - 48 < (10 :: nat)" by (auto simp: is_ascii_digit_def)
  with snoc show ?case by (simp add: digits_value_snoc digit_of_char)
qed (simp add: digits_value_def)

lemma parse_padded_id_iff:
  "parse_padded_id s = Some w \<longleftrightarrow> s = fixed wal_segment_id_width (unat w)"
proof
  assume "parse_padded_id s = Some w"
  then have s: "length s = wal_segment_id_width" "list_all is_ascii_digit s"
    and v: "digits_value s \<le> u64_max" "w = of_nat (digits_value s)"
    by (auto simp: parse_padded_id_def parse_u64_def split: if_splits)
  from v have "unat w = digits_value s" by (simp add: unat_of_nat)
  with fixed_digits_value [OF s(2)] s(1) show "s = fixed wal_segment_id_width (unat w)" by simp
next
  assume s: "s = fixed wal_segment_id_width (unat w)"
  have "digits_value s = unat w" unfolding s by (rule digits_value_fixed [OF unat_fits])
  moreover have "list_all is_ascii_digit s"
    unfolding s list_all_iff by (blast intro: fixed_digits)
  ultimately show "parse_padded_id s = Some w"
    by (simp add: parse_padded_id_def parse_u64_def s)
qed

section \<open>Names\<close>

lemma strip_prefix_Some: "strip_prefix p s = Some r \<longleftrightarrow> s = p @ r"
  by (auto simp: strip_prefix_def) (metis append_take_drop_id)

lemma strip_suffix_Some: "strip_suffix p s = Some r \<longleftrightarrow> s = r @ p"
  by (auto simp: strip_suffix_def) (metis append_take_drop_id)

lemma split_once_append: "c \<notin> set a \<Longrightarrow> split_once c (a @ c # b) = Some (a, b)"
  by (induction a) auto

lemma split_once_Some: "split_once c s = Some (a, b) \<longleftrightarrow> c \<notin> set a \<and> s = a @ c # b"
proof
  show "split_once c s = Some (a, b) \<Longrightarrow> c \<notin> set a \<and> s = a @ c # b"
    by (induction s arbitrary: a) (auto split: if_splits)
qed (simp add: split_once_append)

lemma parse_segment_file_name_iff:
  "parse_segment_file_name name = Some sid \<longleftrightarrow> name = segment_file_name sid"
  by (auto simp: parse_segment_file_name_def segment_file_name_def bind_eq_Some_conv
      strip_suffix_Some parse_padded_id_iff unat_padded)

text \<open>
  C38. Segment names parse exactly: a local name is read as a segment id if and only if it is
  that id's formatted name, and an object key as an epoch and an id if and only if it is
  their formatted key. So no two segments share a name and nothing else is taken for one.
\<close>

theorem segment_names_exact:
  "(parse_segment_file_name name = Some sid \<longleftrightarrow> name = segment_file_name sid) \<and>
   (parse_segment_object_key key = Some (epoch, sid) \<longleftrightarrow> key = segment_object_key sid epoch)"
proof
  let ?e = "fixed wal_segment_id_width (unat epoch)"
  have "CHR ''/'' \<notin> set ?e"
  proof
    assume "CHR ''/'' \<in> set ?e"
    from fixed_digits [OF this] show False by (simp add: is_ascii_digit_def)
  qed
  then show "parse_segment_object_key key = Some (epoch, sid) \<longleftrightarrow> key = segment_object_key sid epoch"
    by (auto simp: parse_segment_object_key_def segment_object_key_def bind_eq_Some_conv
        strip_prefix_Some split_once_Some parse_padded_id_iff parse_segment_file_name_iff unat_padded)
qed (rule parse_segment_file_name_iff)

lemma list_less_append:
  "length (a :: string) = length b \<Longrightarrow> (a @ c < b @ d) \<longleftrightarrow> (a < b \<or> (a = b \<and> c < d))"
  by (induction a b rule: list_induct2) auto

lemma digit_less: "m < 10 \<Longrightarrow> n < 10 \<Longrightarrow> (digit m < digit n) = (m < n)"
  by (simp add: digit_def less_char_def)

lemma fixed_inject: "m < 10 ^ k \<Longrightarrow> n < 10 ^ k \<Longrightarrow> (fixed k m = fixed k n) = (m = n)"
  by (metis digits_value_fixed)

lemma fixed_less: "m < 10 ^ k \<Longrightarrow> n < 10 ^ k \<Longrightarrow> (fixed k m < fixed k n) = (m < n)"
proof (induction k arbitrary: m n)
  case (Suc k)
  have b: "m div 10 < 10 ^ k" "n div 10 < 10 ^ k" using Suc.prems by auto
  have "m < n \<longleftrightarrow> m div 10 < n div 10 \<or> (m div 10 = n div 10 \<and> m mod 10 < n mod 10)"
    using div_mult_mod_eq [of m 10] div_mult_mod_eq [of n 10] by linarith
  then show ?case using Suc.IH [OF b] b
    by (simp add: list_less_append fixed_inject digit_less)
qed simp

text \<open>
  Listings sort like ids: file names compare as strings exactly as their ids compare as
  numbers, and object keys as their pairs of epoch and id.
\<close>

theorem segment_names_ordered:
  "(segment_file_name a < segment_file_name b \<longleftrightarrow> a < b) \<and>
   (segment_object_key a e < segment_object_key b f \<longleftrightarrow> e < f \<or> (e = f \<and> a < b))"
  by (simp add: segment_file_name_def segment_object_key_def unat_padded list_less_append
      fixed_less [OF unat_fits unat_fits] fixed_inject [OF unat_fits unat_fits] word_less_nat_alt
      word_unat_eq_iff)

end
