(* ===== verification/Btree.thy ===== *)
theory Btree
  imports Midge_Prelude
begin

text \<open>
  The ordered map of the Rust standard library (\<^verbatim>\<open>BTreeMap\<close>) as the sources use it: an
  association list in strictly ascending key order, so that iteration is the list itself.
  The interface \<open>map_store\<close> states what a client relies on.
\<close>

locale map_store =
  fixes get :: "'s \<Rightarrow> 'k \<Rightarrow> 'v option"
    and put :: "'k \<Rightarrow> 'v \<Rightarrow> 's \<Rightarrow> 's"
    and del :: "'k \<Rightarrow> 's \<Rightarrow> 's"
    and valid :: "'s \<Rightarrow> bool"
  assumes get_put: "valid s \<Longrightarrow> get (put k v s) = (get s)(k \<mapsto> v)"
    and get_del: "valid s \<Longrightarrow> get (del k s) = (get s)(k := None)"
    and valid_put: "valid s \<Longrightarrow> valid (put k v s)"
    and valid_del: "valid s \<Longrightarrow> valid (del k s)"
begin

text \<open>What a pass over some keys leaves, when it replaces each present value by \<open>f\<close> of it.\<close>

definition touch :: "('v \<Rightarrow> 'v) \<Rightarrow> 'k \<Rightarrow> 's \<Rightarrow> 's" where
  "touch f k s = (case get s k of None \<Rightarrow> s | Some v \<Rightarrow> put k (f v) s)"

lemma touch_valid: "valid s \<Longrightarrow> valid (touch f k s)"
  by (simp add: touch_def valid_put split: option.splits)

lemma get_touch:
  "valid s \<Longrightarrow> get (touch f k s) = (\<lambda>x. if x = k then map_option f (get s k) else get s x)"
  by (auto simp: touch_def get_put fun_eq_iff split: option.splits)

lemma fold_touch:
  assumes "\<And>v. f (f v) = f v"
  shows "valid s \<Longrightarrow> valid (fold (touch f) ks s) \<and>
    get (fold (touch f) ks s) = (\<lambda>x. if x \<in> set ks then map_option f (get s x) else get s x)"
proof (induction ks arbitrary: s)
  case (Cons k ks)
  have "map_option f (map_option f v) = map_option f v" for v
    using assms by (cases v) simp_all
  with Cons touch_valid [OF Cons.prems, of f k] show ?case
    by (auto simp: get_touch fun_eq_iff)
qed (simp add: fun_eq_iff)

end

fun bt_insert :: "'k :: linorder \<Rightarrow> 'v \<Rightarrow> ('k \<times> 'v) list \<Rightarrow> ('k \<times> 'v) list" where
  "bt_insert k v [] = [(k, v)]"
| "bt_insert k v ((x, y) # m) =
     (if k < x then (k, v) # (x, y) # m
      else if k = x then (k, v) # m
      else (x, y) # bt_insert k v m)"

definition bt_remove :: "'k :: linorder \<Rightarrow> ('k \<times> 'v) list \<Rightarrow> ('k \<times> 'v) list" where
  "bt_remove k m = filter (\<lambda>(x, _). x \<noteq> k) m"

definition bt_ok :: "('k :: linorder \<times> 'v) list \<Rightarrow> bool" where
  "bt_ok m \<longleftrightarrow> sorted_wrt (<) (map fst m)"

lemma bt_insert_keys: "fst ` set (bt_insert k v m) = insert k (fst ` set m)"
  by (induction k v m rule: bt_insert.induct) auto

lemma bt_insert_ok: "bt_ok m \<Longrightarrow> bt_ok (bt_insert k v m)"
  unfolding bt_ok_def
proof (induction k v m rule: bt_insert.induct)
  case (2 k v x y m)
  have "z \<in> fst ` set (bt_insert k v m) \<Longrightarrow> z = k \<or> z \<in> fst ` set m" for z
    by (simp add: bt_insert_keys)
  with 2 show ?case by fastforce
qed simp

lemma bt_insert_get: "bt_ok m \<Longrightarrow> map_of (bt_insert k v m) = (map_of m)(k \<mapsto> v)"
  unfolding bt_ok_def by (induction k v m rule: bt_insert.induct) (auto simp: fun_eq_iff)

lemma bt_remove_get: "map_of (bt_remove k m) = (map_of m)(k := None)"
  by (induction m) (auto simp: bt_remove_def fun_eq_iff)

lemma bt_remove_ok: "bt_ok m \<Longrightarrow> bt_ok (bt_remove k m)"
  unfolding bt_ok_def bt_remove_def
  by (induction m) (auto simp: sorted_wrt_append)

interpretation bt: map_store map_of bt_insert bt_remove bt_ok
  by unfold_locales (simp_all add: bt_insert_get bt_remove_get bt_insert_ok bt_remove_ok)

lemma bt_ok_distinct: "bt_ok m \<Longrightarrow> distinct (map fst m)"
  by (simp add: bt_ok_def strict_sorted_iff)

lemma bt_ok_Cons [simp]: "bt_ok ((k, v) # m) \<longleftrightarrow> bt_ok m \<and> (\<forall>x \<in> fst ` set m. k < x)"
  by (auto simp: bt_ok_def)

lemma bt_ok_Nil [simp]: "bt_ok []"
  by (simp add: bt_ok_def)

end
