(* ===== verification/Wal_Publish.thy ===== *)
theory Wal_Publish
  imports Wal_Validate Wal_Names Btree
begin

text \<open>
  What the writer publishes: catalog entries (the first half of
  \<^verbatim>\<open>src/src/wal/cloud_catalog.rs\<close>), the acknowledgements a writer holds and the run of uploads
  one publication adds (\<^verbatim>\<open>src/src/wal/publish.rs\<close>). The theorems characterise the run and the
  additions exactly and follow one segment through its acknowledgements.
\<close>

section \<open>Catalog entries\<close>

record catalog_entry =
  ce_epoch :: u64
  ce_prev :: chain_link
  ce_facts :: sealed_facts
  ce_size_bytes :: u64
  ce_crc32c :: u32

definition entry_id :: "catalog_entry \<Rightarrow> segment_id" where
  "entry_id e = l_id (sf_link (ce_facts e))"

definition entry_max_sequence :: "catalog_entry \<Rightarrow> u64" where
  "entry_max_sequence e = l_last_seq (sf_link (ce_facts e))"

definition entry_link :: "catalog_entry \<Rightarrow> chain_link" where
  "entry_link e = sf_link (ce_facts e)"

definition entry_object_key :: "catalog_entry \<Rightarrow> string" where
  "entry_object_key e = segment_object_key (entry_id e) (ce_epoch e)"

definition describing :: "codec_lib \<Rightarrow> segment_validation \<Rightarrow> bytes \<Rightarrow> catalog_entry" where
  "describing lib v bs =
     (let identity = validation_identity v
      in \<lparr>ce_epoch = si_epoch identity, ce_prev = si_prev identity, ce_facts = sv_facts v,
          ce_size_bytes = u64_of_len (length bs), ce_crc32c = crc32c lib bs\<rparr>)"

definition from_sealed_bytes :: "codec_lib \<Rightarrow> bytes \<Rightarrow> string + catalog_entry" where
  "from_sealed_bytes lib bs =
     try_with (validate_segment_bytes lib bs) (\<lambda>v. Inr (describing lib v bs))"

definition check_facts :: "catalog_entry \<Rightarrow> sealed_facts \<Rightarrow> string + unit" where
  "check_facts e facts =
     (if ce_facts e \<noteq> facts then Inl ''footer facts differ from catalog'' else Inr ())"

definition entry_check :: "catalog_entry \<Rightarrow> segment_identity \<Rightarrow> string + unit" where
  "entry_check e identity =
     (if l_id (si_link identity) \<noteq> entry_id e then Inl ''header names another segment''
      else if si_epoch identity \<noteq> ce_epoch e then Inl ''header names another writer epoch''
      else if si_prev identity \<noteq> ce_prev e then Inl ''links another segment than the catalog''
      else if si_link identity \<noteq> sf_link (ce_facts e)
      then Inl ''seals sequences with another digest than the catalog''
      else Inr ())"

definition entry_validate_bytes :: "codec_lib \<Rightarrow> catalog_entry \<Rightarrow> bytes \<Rightarrow> string + unit" where
  "entry_validate_bytes lib e bs =
     (if u64_of_len (length bs) \<noteq> ce_size_bytes e then Inl ''size does not match catalog''
      else if crc32c lib bs \<noteq> ce_crc32c e then Inl ''crc32c does not match catalog''
      else
        try_with (validate_segment_bytes lib bs) (\<lambda>v.
        try_with (entry_check e (validation_identity v)) (\<lambda>_.
          check_facts e (sv_facts v))))"

section \<open>Acknowledgements\<close>

datatype ack = Uploaded catalog_entry | Published catalog_entry

fun ack_entry :: "ack \<Rightarrow> catalog_entry" where
  "ack_entry (Uploaded e) = e"
| "ack_entry (Published e) = e"

definition ack_max_sequence :: "ack \<Rightarrow> u64" where
  "ack_max_sequence a = entry_max_sequence (ack_entry a)"

type_synonym ack_set = "(segment_id \<times> ack) list"

record owed_segment =
  ow_segment_id :: segment_id
  ow_max_sequence :: u64

definition acks_recovered :: "(segment_id \<times> catalog_entry) list \<Rightarrow> ack_set" where
  "acks_recovered published = map (\<lambda>(sid, e). (sid, Published e)) published"

definition record_upload :: "catalog_entry \<Rightarrow> ack_set \<Rightarrow> ack_set" where
  "record_upload e acks =
     (case map_of acks (entry_id e) of
        Some (Published _) \<Rightarrow> acks
      | _ \<Rightarrow> bt_insert (entry_id e) (Uploaded e) acks)"

definition withdraw :: "segment_id \<Rightarrow> ack_set \<Rightarrow> bool \<times> ack_set" where
  "withdraw sid acks =
     (case map_of acks sid of
        Some (Uploaded _) \<Rightarrow> (True, bt_remove sid acks)
      | _ \<Rightarrow> (False, acks))"

definition publish_one :: "segment_id \<Rightarrow> ack_set \<Rightarrow> ack_set" where
  "publish_one sid acks =
     (case map_of acks sid of
        Some (Uploaded e) \<Rightarrow> bt_insert sid (Published e) acks
      | _ \<Rightarrow> acks)"

definition mark_published :: "owed_segment list \<Rightarrow> ack_set \<Rightarrow> ack_set" where
  "mark_published run acks = fold (\<lambda>s. publish_one (ow_segment_id s)) run acks"

definition retire_pruned :: "segment_id \<Rightarrow> ack_set \<Rightarrow> ack_set" where
  "retire_pruned sid acks = bt_remove sid acks"

definition acks_published :: "ack_set \<Rightarrow> (segment_id \<times> u64) list" where
  "acks_published acks =
     List.map_filter (\<lambda>(sid, a). case a of Published e \<Rightarrow> Some (sid, entry_max_sequence e) | Uploaded _ \<Rightarrow> None) acks"

fun oldest_published_facts :: "ack_set \<Rightarrow> sealed_facts option" where
  "oldest_published_facts [] = None"
| "oldest_published_facts ((sid, a) # acks) =
     (case a of Published e \<Rightarrow> Some (ce_facts e) | Uploaded _ \<Rightarrow> oldest_published_facts acks)"

definition unpublished :: "owed_segment list \<Rightarrow> ack_set \<Rightarrow> catalog_entry list" where
  "unpublished run acks =
     List.map_filter (\<lambda>s. case map_of acks (ow_segment_id s) of Some (Uploaded e) \<Rightarrow> Some e | _ \<Rightarrow> None) run"

definition held :: "ack_set \<Rightarrow> nat \<times> u64" where
  "held acks =
     fold (\<lambda>sz (n, b). (n + 1, saturating_add_u64 b sz))
       (List.map_filter (\<lambda>(_, a). case a of Uploaded e \<Rightarrow> Some (ce_size_bytes e) | Published _ \<Rightarrow> None) acks) (0, 0)"

definition acked_max_sequence :: "ack_set \<Rightarrow> segment_id \<Rightarrow> u64 option" where
  "acked_max_sequence acks sid = map_option ack_max_sequence (map_of acks sid)"

section \<open>Runs and additions\<close>

datatype refusal =
    Unordered u64 u64
  | SequenceMismatch u64 u64 u64
  | Conflict u64
  | BehindHead u64 u64
  | Unchained u64 chain_link
  | EpochMismatch u64 u64

fun refusal_segment_id :: "refusal \<Rightarrow> u64 option" where
  "refusal_segment_id (Unordered previous nxt) = Some nxt"
| "refusal_segment_id (SequenceMismatch sid _ _) = Some sid"
| "refusal_segment_id (Conflict sid) = Some sid"
| "refusal_segment_id (BehindHead sid _) = Some sid"
| "refusal_segment_id (Unchained sid _) = Some sid"
| "refusal_segment_id (EpochMismatch _ _) = None"

fun refusal_error :: "refusal \<Rightarrow> midge_error" where
  "refusal_error (Conflict _) = Corruption ''cloud WAL publication refused''"
| "refusal_error (BehindHead _ _) = Corruption ''cloud WAL publication refused''"
| "refusal_error (Unchained _ _) = Corruption ''cloud WAL publication refused''"
| "refusal_error (Unordered _ _) = Internal ''cloud WAL publication refused''"
| "refusal_error (SequenceMismatch _ _ _) = Internal ''cloud WAL publication refused''"
| "refusal_error (EpochMismatch _ _) = Fenced ''cloud WAL catalog mutation requires fencing epoch''"

fun ascending_from :: "u64 option \<Rightarrow> u64 list \<Rightarrow> refusal + unit" where
  "ascending_from previous [] = Inr ()"
| "ascending_from previous (nxt # ids) =
     (case previous of
        Some p \<Rightarrow> if p \<ge> nxt then Inl (Unordered p nxt) else ascending_from (Some nxt) ids
      | None \<Rightarrow> ascending_from (Some nxt) ids)"

definition ascending :: "u64 list \<Rightarrow> refusal + unit" where
  "ascending ids = ascending_from None ids"

fun uploaded_prefix :: "ack_set \<Rightarrow> owed_segment list \<Rightarrow> refusal + owed_segment list" where
  "uploaded_prefix acks [] = Inr []"
| "uploaded_prefix acks (s # owed) =
     (case acked_max_sequence acks (ow_segment_id s) of
        None \<Rightarrow> Inr []
      | Some uploaded_max \<Rightarrow>
          if uploaded_max \<noteq> ow_max_sequence s
          then Inl (SequenceMismatch (ow_segment_id s) (ow_max_sequence s) uploaded_max)
          else try_with (uploaded_prefix acks owed) (\<lambda>run. Inr (s # run)))"

definition uploaded_run :: "owed_segment list \<Rightarrow> ack_set \<Rightarrow> refusal + owed_segment list" where
  "uploaded_run owed acks =
     try_with (ascending (map ow_segment_id owed)) (\<lambda>_. uploaded_prefix acks owed)"

text \<open>
  The loop of \<open>additions\<close>: \<open>started\<close> says that an addition was found, so that the published
  prefix has ended; the result is what is left of the run from the first addition on.
\<close>

fun additions_from ::
    "chain_link \<Rightarrow> u64 option \<Rightarrow> catalog_entry list \<Rightarrow> bool \<Rightarrow> catalog_entry list \<Rightarrow> refusal + catalog_entry list" where
  "additions_from head epoch published started [] = Inr []"
| "additions_from head epoch published started (e # run) =
     (case find (\<lambda>p. entry_id p = entry_id e) published of
        Some p \<Rightarrow>
          if p = e \<and> \<not> started then additions_from head epoch published started run
          else Inl (Conflict (entry_id e))
      | None \<Rightarrow>
          if entry_id e \<le> l_id head then Inl (BehindHead (entry_id e) (l_id head))
          else if ce_prev e \<noteq> head \<or> entry_max_sequence e \<le> l_last_seq head \<or>
                  (case epoch of None \<Rightarrow> False | Some ep \<Rightarrow> ce_epoch e < ep)
          then Inl (Unchained (entry_id e) head)
          else
            try_with (additions_from (entry_link e) (Some (ce_epoch e)) published True run)
              (\<lambda>added. Inr (e # added)))"

definition last_epoch :: "catalog_entry list \<Rightarrow> u64 option" where
  "last_epoch es = (if es = [] then None else Some (ce_epoch (last es)))"

definition additions ::
    "chain_link \<Rightarrow> catalog_entry list \<Rightarrow> catalog_entry list \<Rightarrow> refusal + catalog_entry list" where
  "additions head published run =
     try_with (ascending (map entry_id run)) (\<lambda>_.
       additions_from head (last_epoch published) published False run)"


section \<open>What an entry says\<close>

lemma describing_facts [simp]:
  "ce_facts (describing lib v bs) = sv_facts v" "ce_epoch (describing lib v bs) = sv_writer_epoch v"
  "ce_prev (describing lib v bs) = sv_prev v" "ce_size_bytes (describing lib v bs) = u64_of_len (length bs)"
  "entry_id (describing lib v bs) = l_id (sf_link (sv_facts v))"
  by (simp_all add: describing_def validation_identity_def Let_def entry_id_def)

text \<open>
  C32. An entry names exactly its segment: bytes pass the check of an entry if and only if
  they are a valid sealed segment and the entry is the one that describes it, field by
  field. So an object that was swapped, cut or rewritten under the same name is refused.
\<close>

theorem entry_names_its_bytes:
  "entry_validate_bytes lib e bs = Inr () \<longleftrightarrow>
     (\<exists>v. validate_segment_bytes lib bs = Inr v \<and> e = describing lib v bs)"
proof
  assume "entry_validate_bytes lib e bs = Inr ()"
  then obtain v where "validate_segment_bytes lib bs = Inr v"
    "ce_size_bytes e = u64_of_len (length bs)" "ce_crc32c e = crc32c lib bs" "ce_facts e = sv_facts v"
    "ce_epoch e = sv_writer_epoch v" "ce_prev e = sv_prev v"
    by (auto simp: entry_validate_bytes_def entry_check_def check_facts_def validation_identity_def
        split: if_splits)
  then show "\<exists>v. validate_segment_bytes lib bs = Inr v \<and> e = describing lib v bs"
    by (intro exI [of _ v]) (simp add: describing_def validation_identity_def Let_def)
next
  assume "\<exists>v. validate_segment_bytes lib bs = Inr v \<and> e = describing lib v bs"
  then show "entry_validate_bytes lib e bs = Inr ()"
    by (auto simp: entry_validate_bytes_def entry_check_def check_facts_def validation_identity_def
        describing_def entry_id_def Let_def)
qed

section \<open>The uploaded run\<close>

lemma ascending_from_iff:
  "ascending_from p ids = Inr () \<longleftrightarrow>
     sorted_wrt (<) ids \<and> (\<forall>q. p = Some q \<longrightarrow> (\<forall>i \<in> set ids. q < i))"
  by (induction p ids rule: ascending_from.induct) (auto split: option.splits)

lemma ascending_iff: "ascending ids = Inr () \<longleftrightarrow> sorted_wrt (<) ids"
  by (simp add: ascending_def ascending_from_iff)

definition acked :: "ack_set \<Rightarrow> owed_segment \<Rightarrow> bool" where
  "acked acks s \<longleftrightarrow> map_of acks (ow_segment_id s) \<noteq> None"

lemma uploaded_prefix_iff:
  "uploaded_prefix acks owed = Inr run \<longleftrightarrow>
     run = takeWhile (acked acks) owed \<and>
     (\<forall>s \<in> set run. acked_max_sequence acks (ow_segment_id s) = Some (ow_max_sequence s))"
proof (induction owed arbitrary: run)
  case (Cons s owed)
  then show ?case
    by (cases "map_of acks (ow_segment_id s)")
      (auto simp: acked_def acked_max_sequence_def)
qed auto

text \<open>
  The run is the longest acknowledged prefix: a run is chosen if and only if the owed
  segments are listed in ascending order and the run is their leading part up to the first
  one without an acknowledgement, each with the last sequence its writer sealed. So no
  upload is published past a missing one, and none that could be is left out.
\<close>

theorem uploaded_run_exact:
  "uploaded_run owed acks = Inr run \<longleftrightarrow>
     sorted_wrt (<) (map ow_segment_id owed) \<and> run = takeWhile (acked acks) owed \<and>
     (\<forall>s \<in> set run. acked_max_sequence acks (ow_segment_id s) = Some (ow_max_sequence s))"
  by (simp add: uploaded_run_def uploaded_prefix_iff) (metis ascending_iff)

section \<open>Additions\<close>

text \<open>Entries that continue one history after a link and an epoch.\<close>

fun entries_chain :: "chain_link \<Rightarrow> u64 option \<Rightarrow> catalog_entry list \<Rightarrow> bool" where
  "entries_chain head epoch [] = True"
| "entries_chain head epoch (e # es) =
     (ce_prev e = head \<and> l_id head < entry_id e \<and> l_last_seq head < entry_max_sequence e \<and>
      (case epoch of None \<Rightarrow> True | Some ep \<Rightarrow> ep \<le> ce_epoch e) \<and>
      entries_chain (entry_link e) (Some (ce_epoch e)) es)"

definition head_after :: "chain_link \<Rightarrow> catalog_entry list \<Rightarrow> chain_link" where
  "head_after anchor es = (if es = [] then anchor else entry_link (last es))"

definition epoch_last :: "u64 option \<Rightarrow> catalog_entry list \<Rightarrow> u64 option" where
  "epoch_last ep es = (if es = [] then ep else Some (ce_epoch (last es)))"

lemma entry_link_id [simp]: "l_id (entry_link e) = entry_id e" "l_last_seq (entry_link e) = entry_max_sequence e"
  by (simp_all add: entry_link_def entry_id_def entry_max_sequence_def)

lemma entries_chain_append:
  "entries_chain head ep (es @ fs) \<longleftrightarrow>
     entries_chain head ep es \<and> entries_chain (head_after head es) (epoch_last ep es) fs"
  by (induction head ep es rule: entries_chain.induct) (auto simp: head_after_def epoch_last_def)

lemma entries_chain_ids:
  "entries_chain head ep es \<Longrightarrow> sorted_wrt (<) (map entry_id es) \<and> (\<forall>e \<in> set es. l_id head < entry_id e)"
proof (induction head ep es rule: entries_chain.induct)
  case (2 head ep e es)
  then show ?case by fastforce
qed simp

lemma additions_started:
  assumes "\<forall>p \<in> set published. entry_id p \<le> l_id head"
  shows "additions_from head ep published True run = Inr added \<longleftrightarrow>
    added = run \<and> entries_chain head ep run"
  using assms
proof (induction run arbitrary: head ep added)
  case (Cons e run)
  show ?case
  proof (cases "l_id head < entry_id e")
    case True
    then have none: "find (\<lambda>p. entry_id p = entry_id e) published = None"
      using Cons.prems by (auto simp: find_None_iff)
    have "\<forall>p \<in> set published. entry_id p \<le> l_id (entry_link e)" using Cons.prems True by auto
    from Cons.IH [OF this] True none show ?thesis
      by (auto simp: not_le not_less split: option.splits)
  qed (auto split: option.splits simp: not_less)
qed auto

lemma additions_from_iff:
  assumes pub: "\<forall>p \<in> set published. entry_id p \<le> l_id head" "distinct (map entry_id published)"
  shows "additions_from head ep published False run = Inr added \<longleftrightarrow>
    (\<exists>pre. run = pre @ added \<and> set pre \<subseteq> set published \<and> entries_chain head ep added)"
proof (induction run)
  case (Cons e run)
  show ?case
  proof (cases "find (\<lambda>p. entry_id p = entry_id e) published")
    case None
    then have e: "e \<notin> set published" by (auto simp: find_None_iff)
    have "additions_from head ep published False (e # run) =
        additions_from head ep published True (e # run)" using None by simp
    with additions_started [OF pub(1), of ep "e # run" added] e show ?thesis
      by (auto simp: Cons_eq_append_conv)
  next
    case (Some p)
    then have p: "p \<in> set published" "entry_id p = entry_id e" by (auto simp: find_Some_iff)
    then have behind: "entry_id e \<le> l_id head" using pub(1) by auto
    have "e \<in> set published \<longleftrightarrow> p = e" using p pub(2) by (auto dest: distinct_map [THEN iffD1] inj_onD)
    then show ?thesis using Some Cons.IH behind by (auto simp: Cons_eq_append_conv)
  qed
qed auto

lemma additions_iff:
  assumes "\<forall>p \<in> set published. entry_id p \<le> l_id head" "distinct (map entry_id published)"
  shows "additions head published run = Inr added \<longleftrightarrow>
    sorted_wrt (<) (map entry_id run) \<and>
    (\<exists>pre. run = pre @ added \<and> set pre \<subseteq> set published \<and>
       entries_chain head (last_epoch published) added)"
  by (simp add: additions_def additions_from_iff [OF assms]) (metis ascending_iff)

section \<open>The life of an acknowledgement\<close>

datatype ack_edit =
    RecordUpload catalog_entry
  | Withdraw segment_id
  | MarkPublished "owed_segment list"
  | RetirePruned segment_id

fun ack_step :: "ack_set \<Rightarrow> ack_edit \<Rightarrow> ack_set" where
  "ack_step acks (RecordUpload e) = record_upload e acks"
| "ack_step acks (Withdraw sid) = snd (withdraw sid acks)"
| "ack_step acks (MarkPublished run) = mark_published run acks"
| "ack_step acks (RetirePruned sid) = retire_pruned sid acks"

text \<open>Marking is one pass that turns every present upload of the run into a publication.\<close>

definition publish_ack :: "ack \<Rightarrow> ack" where
  "publish_ack a = Published (ack_entry a)"

lemma bt_insert_same: "bt_ok m \<Longrightarrow> map_of m k = Some v \<Longrightarrow> bt_insert k v m = m"
proof (induction k v m rule: bt_insert.induct)
  case (2 k v x y m)
  have "\<not> k < x" if "map_of m k = Some v"
  proof -
    from map_of_SomeD [OF that] have "k \<in> fst ` set m" by force
    with 2(2) show ?thesis by force
  qed
  with 2 show ?case by (auto split: if_splits)
qed simp

lemma publish_one_touch: "bt_ok acks \<Longrightarrow> publish_one sid acks = bt.touch publish_ack sid acks"
  by (auto simp: publish_one_def bt.touch_def publish_ack_def bt_insert_same split: option.splits ack.splits)

lemma mark_published_touch:
  "bt_ok acks \<Longrightarrow> mark_published run acks = fold (bt.touch publish_ack) (map ow_segment_id run) acks"
  unfolding mark_published_def
  by (induction run arbitrary: acks) (auto simp: publish_one_touch bt.touch_valid)

lemma mark_published_get:
  assumes "bt_ok acks"
  shows "bt_ok (mark_published run acks)"
    "map_of (mark_published run acks) sid =
       (if sid \<in> ow_segment_id ` set run then map_option publish_ack (map_of acks sid) else map_of acks sid)"
  using bt.fold_touch [of publish_ack acks "map ow_segment_id run"] assms
  by (simp_all add: mark_published_touch publish_ack_def)

lemma ack_step_ok: "bt_ok acks \<Longrightarrow> bt_ok (ack_step acks e)"
  by (cases e) (auto simp: record_upload_def withdraw_def retire_pruned_def mark_published_get
      bt.valid_put bt.valid_del split: option.splits ack.splits)

lemma ack_step_published:
  assumes "bt_ok acks" "map_of acks sid = Some (Published e)" "edit \<noteq> RetirePruned sid"
  shows "map_of (ack_step acks edit) sid = Some (Published e)"
  using assms by (cases edit) (auto simp: record_upload_def withdraw_def retire_pruned_def
      mark_published_get publish_ack_def bt.get_put bt.get_del split: option.splits ack.splits)


lemma mark_published_unpublished: "bt_ok acks \<Longrightarrow> unpublished run (mark_published run acks) = []"
  by (auto simp: unpublished_def List.map_filter_def mark_published_get publish_ack_def filter_empty_conv
      split: option.splits ack.splits)

text \<open>
  C33. A publication is never taken back: whatever uploads are recorded, withdrawn or marked
  afterwards, a published acknowledgement keeps its entry until pruning retires that very
  segment, and after a run is marked published nothing of it is left to publish.
\<close>

theorem published_ack_survives:
  assumes "bt_ok acks" "map_of acks sid = Some (Published e)" "RetirePruned sid \<notin> set edits"
  shows "map_of (foldl ack_step acks edits) sid = Some (Published e) \<and>
    unpublished run (mark_published run (foldl ack_step acks edits)) = []"
proof -
  have "bt_ok (foldl ack_step acks edits) \<and> map_of (foldl ack_step acks edits) sid = Some (Published e)"
    using assms
  proof (induction edits arbitrary: acks)
    case (Cons x edits)
    then show ?case using ack_step_ok [of acks x] ack_step_published [of acks sid e x] by auto
  qed simp
  then show ?thesis by (simp add: mark_published_unpublished)
qed

definition sample_entry :: "segment_id \<Rightarrow> u64 \<Rightarrow> chain_link \<Rightarrow> catalog_entry" where
  "sample_entry sid seq prev =
     \<lparr>ce_epoch = 4, ce_prev = prev,
      ce_facts = \<lparr>sf_link = \<lparr>l_id = sid, l_last_seq = seq, l_digest = 77\<rparr>, sf_record_count = 1,
        sf_data_len = 200, sf_max_seq_per_cf = [(3, seq)]\<rparr>,
      ce_size_bytes = 300, ce_crc32c = 5\<rparr>"

theorem published_ack_survives_witness:
  "map_of (foldl ack_step [(11, Published (sample_entry 11 20 genesis_link))]
     [Withdraw 11, RecordUpload (sample_entry 11 21 genesis_link), RetirePruned 12]) 11 =
   Some (Published (sample_entry 11 20 genesis_link))"
  using published_ack_survives [of "[(11, Published (sample_entry 11 20 genesis_link))]" 11
      "sample_entry 11 20 genesis_link"
      "[Withdraw 11, RecordUpload (sample_entry 11 21 genesis_link), RetirePruned 12]" "[]"]
  by simp

theorem uploaded_run_exact_witness:
  "uploaded_run [\<lparr>ow_segment_id = 11, ow_max_sequence = 20\<rparr>, \<lparr>ow_segment_id = 12, ow_max_sequence = 30\<rparr>]
     [(11, Uploaded (sample_entry 11 20 genesis_link))] =
   Inr [\<lparr>ow_segment_id = 11, ow_max_sequence = 20\<rparr>]"
  unfolding uploaded_run_exact
  by (simp add: acked_def acked_max_sequence_def ack_max_sequence_def entry_max_sequence_def sample_entry_def)

end
