(* ===== verification/Wal_Catalog.thy ===== *)
theory Wal_Catalog
  imports Wal_Publish
begin

text \<open>
  The publication catalog (\<^verbatim>\<open>src/src/wal/cloud_catalog.rs\<close> and
  \<^verbatim>\<open>src/src/wal/cloud_catalog/allocation.rs\<close>): the chain of published segments, its mutators,
  the validation of a decoded catalog and the memory it is charged. A shared generation id is
  its ordinal. The JSON library and the sizes the compiler gives to rows are parameters. The
  theorems show that every reachable catalog validates, what each mutator keeps, and that
  publication and retirement go through whenever they should.
\<close>

section \<open>The catalog\<close>

definition catalog_format_version :: u32 where "catalog_format_version = 3"
definition generation_none :: u64 where "generation_none = 0"

record catalog =
  k_format_version :: u32
  k_fencing_epoch :: u64
  k_anchor :: chain_link
  k_next_segment_id :: segment_id
  k_seq_floor :: u64
  k_retired_by :: u64
  k_segments :: "catalog_entry list"

datatype catalog_refusal =
    CatalogEpochMismatch u64 u64
  | NotOldestPrefix segment_id "segment_id option"
  | Changed segment_id
  | GenerationRegression u64 u64
  | NotSuffix segment_id

datatype catalog_decode_error = Incompatible u32 | Invalid string

definition catalog_head :: "catalog \<Rightarrow> chain_link" where
  "catalog_head c =
     (if k_segments c = [] then k_anchor c else sf_link (ce_facts (last (k_segments c))))"

definition max_of :: "u64 list \<Rightarrow> u64 option" where
  "max_of xs = (if xs = [] then None else Some (Max (set xs)))"

definition facts_invalid :: "catalog_entry \<Rightarrow> bool" where
  "facts_invalid e =
     (let facts = ce_facts e; families = sf_max_seq_per_cf facts
      in sf_record_count facts = 0 \<or> families = [] \<or>
         sf_data_len facts < of_nat header_len \<or> sf_data_len facts \<ge> ce_size_bytes e \<or>
         \<not> adjacent_all (\<lambda>a b. fst a < fst b) families \<or>
         (\<exists>(_, sequence) \<in> set families. sequence = 0 \<or> sequence > l_last_seq (sf_link facts)) \<or>
         max_of (map snd families) \<noteq> Some (l_last_seq (sf_link facts)) \<or>
         sf_record_count facts < of_nat (length families))"

fun validate_entries :: "u64 \<Rightarrow> chain_link \<Rightarrow> u64 \<Rightarrow> catalog_entry list \<Rightarrow> string + unit" where
  "validate_entries fencing prev epoch [] = Inr ()"
| "validate_entries fencing prev epoch (e # es) =
     (if ce_prev e \<noteq> prev then Inl ''cloud WAL catalog segment links another segment before it''
      else if entry_id e \<le> l_id prev \<or> l_last_seq (sf_link (ce_facts e)) \<le> l_last_seq prev
      then Inl ''cloud WAL catalog segment does not follow the one before it''
      else if ce_epoch e < epoch then Inl ''cloud WAL catalog segment lowers the writer epoch''
      else if ce_epoch e > fencing
      then Inl ''cloud WAL catalog segment writer epoch exceeds fencing epoch''
      else if facts_invalid e then Inl ''cloud WAL catalog segment has invalid sealing facts''
      else if ce_size_bytes e = 0 then Inl ''cloud WAL catalog segment has invalid size''
      else validate_entries fencing (sf_link (ce_facts e)) (ce_epoch e) es)"

definition catalog_validate :: "catalog \<Rightarrow> string + unit" where
  "catalog_validate c =
     (if k_format_version c \<noteq> catalog_format_version
      then Inl ''unsupported cloud WAL publication catalog format version''
      else if k_fencing_epoch c = 0 then Inl ''cloud WAL catalog fencing epoch must be non-zero''
      else if (k_anchor c = genesis_link) \<noteq> (k_retired_by c = generation_none)
      then Inl ''cloud WAL catalog retired anchor and shared generation disagree''
      else
        try_with (validate_entries (k_fencing_epoch c) (k_anchor c) 0 (k_segments c)) (\<lambda>_.
          if k_next_segment_id c \<le> l_id (catalog_head c)
          then Inl ''cloud WAL catalog next segment id does not pass its head''
          else Inr ()))"

definition catalog_empty :: "u64 \<Rightarrow> string + catalog" where
  "catalog_empty fencing_epoch =
     (let c = \<lparr>k_format_version = catalog_format_version, k_fencing_epoch = fencing_epoch,
               k_anchor = genesis_link, k_next_segment_id = 1, k_seq_floor = 0,
               k_retired_by = generation_none, k_segments = []\<rparr>
      in try_with (catalog_validate c) (\<lambda>_. Inr c))"

definition covered_entry :: "(u32 \<Rightarrow> u64 \<Rightarrow> bool) \<Rightarrow> catalog_entry \<Rightarrow> bool" where
  "covered_entry covered e \<longleftrightarrow>
     sf_max_seq_per_cf (ce_facts e) \<noteq> [] \<and>
     (\<forall>(cf, maximum) \<in> set (sf_max_seq_per_cf (ce_facts e)). covered cf maximum)"

definition catalog_retirable_prefix :: "catalog \<Rightarrow> (u32 \<Rightarrow> u64 \<Rightarrow> bool) \<Rightarrow> catalog_entry list" where
  "catalog_retirable_prefix c covered = takeWhile (covered_entry covered) (k_segments c)"

definition catalog_entry_of :: "catalog \<Rightarrow> segment_id \<Rightarrow> catalog_entry option" where
  "catalog_entry_of c sid = find (\<lambda>e. entry_id e = sid) (k_segments c)"

definition is_pristine :: "catalog \<Rightarrow> bool" where
  "is_pristine c \<longleftrightarrow>
     k_segments c = [] \<and> k_anchor c = genesis_link \<and> k_next_segment_id c = 1 \<and>
     k_seq_floor c = 0 \<and> k_retired_by c = generation_none"

section \<open>Mutators\<close>

definition fence_to :: "catalog \<Rightarrow> u64 \<Rightarrow> catalog_refusal + bool \<times> catalog" where
  "fence_to c writer_epoch =
     (if writer_epoch < k_fencing_epoch c
      then Inl (CatalogEpochMismatch (k_fencing_epoch c) writer_epoch)
      else Inr (writer_epoch \<noteq> k_fencing_epoch c, c\<lparr>k_fencing_epoch := writer_epoch\<rparr>))"

definition append_additions :: "catalog \<Rightarrow> u64 \<Rightarrow> catalog_entry list \<Rightarrow> refusal + catalog_entry list" where
  "append_additions c fencing_epoch run =
     (if fencing_epoch \<noteq> k_fencing_epoch c
      then Inl (EpochMismatch (k_fencing_epoch c) fencing_epoch)
      else
        try_with (additions (catalog_head c) (k_segments c) run) (\<lambda>added.
          case find (\<lambda>e. ce_epoch e > k_fencing_epoch c) added of
            Some e \<Rightarrow> Inl (EpochMismatch (k_fencing_epoch c) (ce_epoch e))
          | None \<Rightarrow> Inr added))"

definition extend_validated :: "catalog \<Rightarrow> catalog_entry list \<Rightarrow> bool \<times> catalog" where
  "extend_validated c added =
     (if added = [] then (False, c)
      else (True, c\<lparr>k_next_segment_id :=
                      max (k_next_segment_id c) (saturating_add_u64 (entry_id (last added)) 1),
                    k_segments := k_segments c @ added\<rparr>))"

definition append_run :: "catalog \<Rightarrow> u64 \<Rightarrow> catalog_entry list \<Rightarrow> refusal + bool \<times> catalog" where
  "append_run c fencing_epoch run =
     try_with (append_additions c fencing_epoch run) (\<lambda>added. Inr (extend_validated c added))"

definition require_epoch :: "catalog \<Rightarrow> u64 \<Rightarrow> catalog_refusal + unit" where
  "require_epoch c writer_epoch =
     (if writer_epoch = k_fencing_epoch c then Inr ()
      else Inl (CatalogEpochMismatch (k_fencing_epoch c) writer_epoch))"

fun check_oldest :: "catalog_entry list \<Rightarrow> nat \<Rightarrow> segment_id list \<Rightarrow> catalog_refusal + unit" where
  "check_oldest segs i [] = Inr ()"
| "check_oldest segs i (sid # pending) =
     (if i < length segs \<and> entry_id (segs ! i) = sid then check_oldest segs (Suc i) pending
      else Inl (NotOldestPrefix sid
             (if i < length segs then Some (entry_id (segs ! i))
              else if segs = [] then None else Some (entry_id (hd segs)))))"

definition oldest_prefix :: "catalog \<Rightarrow> segment_id list \<Rightarrow> catalog_refusal + segment_id list" where
  "oldest_prefix c candidates =
     (let pending = filter (\<lambda>sid. sid > l_id (k_anchor c)) candidates
      in try_with (check_oldest (k_segments c) 0 pending) (\<lambda>_. Inr pending))"

definition retire_prefix ::
    "catalog \<Rightarrow> u64 \<Rightarrow> catalog_entry list \<Rightarrow> u64 \<Rightarrow> catalog_refusal + segment_id list \<times> catalog" where
  "retire_prefix c fencing_epoch expected generation =
     try_with (require_epoch c fencing_epoch) (\<lambda>_.
       if generation = generation_none \<or> generation < k_retired_by c
       then Inl (GenerationRegression (k_retired_by c) generation)
       else
         try_with (oldest_prefix c (map entry_id expected)) (\<lambda>pending.
           case find (\<lambda>(actual, e). actual \<noteq> e)
               (zip (k_segments c) (filter (\<lambda>e. entry_id e \<in> set pending) expected)) of
             Some (_, e) \<Rightarrow> Inl (Changed (entry_id e))
           | None \<Rightarrow>
               if pending = [] then Inr (pending, c)
               else Inr (pending,
                      c\<lparr>k_anchor := sf_link (ce_facts (k_segments c ! (length pending - 1))),
                        k_retired_by := generation,
                        k_segments := drop (length pending) (k_segments c)\<rparr>)))"

definition set_aside_suffix ::
    "catalog \<Rightarrow> u64 \<Rightarrow> segment_id option \<Rightarrow> catalog_entry list \<Rightarrow> u64 \<Rightarrow> catalog_refusal + bool \<times> catalog" where
  "set_aside_suffix c fencing_epoch from_id expected floor_seq =
     try_with (require_epoch c fencing_epoch) (\<lambda>_.
       let kept = (case from_id of
                     None \<Rightarrow> length (k_segments c)
                   | Some f \<Rightarrow> length (takeWhile (\<lambda>e. entry_id e < f) (k_segments c)))
       in if drop kept (k_segments c) \<noteq> expected
          then Inl (NotSuffix (case from_id of None \<Rightarrow> k_next_segment_id c | Some f \<Rightarrow> f))
          else Inr (kept < length (k_segments c) \<or> floor_seq > k_seq_floor c,
                    c\<lparr>k_segments := take kept (k_segments c),
                      k_seq_floor := max (k_seq_floor c) floor_seq\<rparr>))"

section \<open>The document\<close>

text \<open>
  What the code uses of the JSON library: the version probe, the document itself, and
  writing it.
\<close>

record json_lib =
  j_probe :: "bytes \<Rightarrow> string + u32 option"
  j_catalog :: "bytes \<Rightarrow> string + catalog"
  j_write :: "catalog \<Rightarrow> string + bytes"

definition validate_format :: "json_lib \<Rightarrow> bytes \<Rightarrow> catalog_decode_error + unit" where
  "validate_format j bs =
     try_with (map_err (\<lambda>e. Invalid (''JSON: '' @ e)) (j_probe j bs)) (\<lambda>version.
       case version of
         Some v \<Rightarrow> if v = catalog_format_version then Inr () else Inl (Incompatible v)
       | None \<Rightarrow> Inl (Invalid ''the document names no format version''))"

definition decode_known_format :: "json_lib \<Rightarrow> bytes \<Rightarrow> catalog_decode_error + catalog" where
  "decode_known_format j bs =
     try_with (map_err (\<lambda>e. Invalid (''JSON: '' @ e)) (j_catalog j bs)) (\<lambda>c.
     try_with (map_err Invalid (catalog_validate c)) (\<lambda>_. Inr c))"

definition catalog_decode :: "json_lib \<Rightarrow> bytes \<Rightarrow> catalog_decode_error + catalog" where
  "catalog_decode j bs = try_with (validate_format j bs) (\<lambda>_. decode_known_format j bs)"

definition catalog_encode :: "json_lib \<Rightarrow> catalog \<Rightarrow> string + bytes" where
  "catalog_encode j c =
     try_with (catalog_validate c) (\<lambda>_.
       map_err (\<lambda>e. ''serialize cloud WAL publication catalog: '' @ e) (j_write j c))"


section \<open>Valid catalogs\<close>

definition entry_fit :: "u64 \<Rightarrow> catalog_entry \<Rightarrow> bool" where
  "entry_fit fencing e \<longleftrightarrow> ce_epoch e \<le> fencing \<and> \<not> facts_invalid e \<and> ce_size_bytes e \<noteq> 0"

lemma validate_entries_iff:
  "validate_entries fencing prev epoch es = Inr () \<longleftrightarrow>
     entries_chain prev (Some epoch) es \<and> (\<forall>e \<in> set es. entry_fit fencing e)"
  by (induction fencing prev epoch es rule: validate_entries.induct)
    (auto simp: entry_fit_def entry_link_def entry_max_sequence_def not_le not_less)

definition catalog_ok :: "catalog \<Rightarrow> bool" where
  "catalog_ok c \<longleftrightarrow> catalog_validate c = Inr ()"

lemma catalog_head_after: "catalog_head c = head_after (k_anchor c) (k_segments c)"
  by (simp add: catalog_head_def head_after_def entry_link_def)

lemma catalog_ok_iff:
  "catalog_ok c \<longleftrightarrow>
     k_format_version c = catalog_format_version \<and> k_fencing_epoch c \<noteq> 0 \<and>
     (k_anchor c = genesis_link \<longleftrightarrow> k_retired_by c = generation_none) \<and>
     entries_chain (k_anchor c) (Some 0) (k_segments c) \<and>
     (\<forall>e \<in> set (k_segments c). entry_fit (k_fencing_epoch c) e) \<and>
     l_id (catalog_head c) < k_next_segment_id c"
  by (auto simp: catalog_ok_def catalog_validate_def validate_entries_iff not_le)

lemma epoch_zero: "entries_chain head (Some 0) es = entries_chain head None es"
  by (cases es) auto

lemma last_epoch_chain:
  "entries_chain head (last_epoch es) fs = entries_chain head (epoch_last (Some 0) es) fs"
  by (simp add: last_epoch_def epoch_last_def epoch_zero)

lemma entries_chain_head:
  assumes "entries_chain anchor ep es"
  shows "l_id anchor \<le> l_id (head_after anchor es) \<and> (\<forall>e \<in> set es. entry_id e \<le> l_id (head_after anchor es))"
  using assms
proof (induction anchor ep es rule: entries_chain.induct)
  case (2 head ep e es)
  then have ih: "l_id (entry_link e) \<le> l_id (head_after (entry_link e) es)"
    "\<forall>x \<in> set es. entry_id x \<le> l_id (head_after (entry_link e) es)" by simp_all
  have "head_after head (e # es) = head_after (entry_link e) es" by (simp add: head_after_def)
  with 2 ih show ?case by auto
qed (simp add: head_after_def)

lemma catalog_ok_ids:
  assumes "catalog_ok c"
  shows "sorted_wrt (<) (map entry_id (k_segments c))" "distinct (map entry_id (k_segments c))"
    "\<forall>e \<in> set (k_segments c). l_id (k_anchor c) < entry_id e"
    "\<forall>e \<in> set (k_segments c). entry_id e \<le> l_id (catalog_head c)"
    "\<forall>e \<in> set (k_segments c). entry_id e < k_next_segment_id c"
    "l_id (k_anchor c) < k_next_segment_id c"
proof -
  note ok = assms [unfolded catalog_ok_iff]
  from ok entries_chain_ids [of "k_anchor c" "Some 0" "k_segments c"]
  show s: "sorted_wrt (<) (map entry_id (k_segments c))"
    and "\<forall>e \<in> set (k_segments c). l_id (k_anchor c) < entry_id e" by auto
  from s show "distinct (map entry_id (k_segments c))" by (simp add: strict_sorted_iff)
  from ok entries_chain_head [of "k_anchor c" "Some 0" "k_segments c"]
  show "\<forall>e \<in> set (k_segments c). entry_id e \<le> l_id (catalog_head c)"
    "\<forall>e \<in> set (k_segments c). entry_id e < k_next_segment_id c"
    "l_id (k_anchor c) < k_next_segment_id c"
    unfolding catalog_head_after by (auto dest: le_less_trans)
qed

section \<open>Entries of sealed segments\<close>

text \<open>
  The entries a writer publishes: each describes the bytes of a sealed segment that was opened
  past its predecessor, and its id is not the last one.
\<close>

definition sealed_entry :: "codec_lib \<Rightarrow> catalog_entry \<Rightarrow> bool" where
  "sealed_entry lib e \<longleftrightarrow>
     (\<exists>bs h ps rs v. sealed_segment lib h ps rs bs \<and> length bs \<le> u64_max \<and> rs \<noteq> [] \<and>
        l_last_seq (sh_prev h) < sh_first_seq h \<and> validate_segment_bytes lib bs = Inr v \<and>
        v = \<lparr>sv_writer_epoch = sh_epoch h, sv_prev = sh_prev h,
             sv_facts = footer_sealed_facts (sealing lib h ps rs)\<rparr> \<and>
        e = describing lib v bs) \<and> entry_id e \<noteq> - 1"

lemma family_in:
  assumes "(cf, seq) \<in> set (ft_max_seq_per_cf (sealing lib h ps rs))"
  shows "\<exists>r \<in> set rs. w_cf_id r = cf" "seq = Max {w_seq r | r. r \<in> set rs \<and> w_cf_id r = cf}"
proof -
  have "sorted_wrt (<) (map fst (ft_max_seq_per_cf (sealing lib h ps rs)))"
    using tail_of_sorted [of "keys_of rs"] by (simp add: sealing_def footer_sealing_def)
  then have "distinct (map fst (ft_max_seq_per_cf (sealing lib h ps rs)))"
    by (simp add: strict_sorted_iff)
  from map_of_is_SomeI [OF this assms]
  show "\<exists>r \<in> set rs. w_cf_id r = cf" "seq = Max {w_seq r | r. r \<in> set rs \<and> w_cf_id r = cf}"
    by (auto simp: sealing_families split: if_splits)
qed

lemma family_seq:
  assumes "(cf, seq) \<in> set (ft_max_seq_per_cf (sealing lib h ps rs))"
  shows "\<exists>r \<in> set rs. w_cf_id r = cf \<and> seq = w_seq r"
proof -
  let ?S = "{w_seq r | r. r \<in> set rs \<and> w_cf_id r = cf}"
  have "finite ?S" by (rule finite_subset [of _ "w_seq ` set rs"]) auto
  moreover have "?S \<noteq> {}" using family_in(1) [OF assms] by auto
  ultimately have "Max ?S \<in> ?S" by (rule Max_in)
  with family_in(2) [OF assms] show ?thesis by auto
qed

lemma families_count: "length (ft_max_seq_per_cf (sealing lib h ps rs)) \<le> length rs"
proof -
  let ?m = "ft_max_seq_per_cf (sealing lib h ps rs)"
  have "sorted_wrt (<) (map fst ?m)"
    using tail_of_sorted [of "keys_of rs"] by (simp add: sealing_def footer_sealing_def)
  then have "length ?m = card (set (map fst ?m))"
    using distinct_card [of "map fst ?m"] by (simp add: strict_sorted_iff)
  also have "set (map fst ?m) \<subseteq> w_cf_id ` set rs" using family_seq by fastforce
  then have "card (set (map fst ?m)) \<le> card (w_cf_id ` set rs)" by (intro card_mono) auto
  also have "\<dots> \<le> length rs" using card_image_le [of "set rs" w_cf_id] card_length [of rs] by simp
  finally show ?thesis .
qed

lemma last_family:
  assumes "ordered_from h rs" "rs \<noteq> []"
  shows "(w_cf_id (last rs), w_seq (last rs)) \<in> set (ft_max_seq_per_cf (sealing lib h ps rs))"
proof -
  let ?S = "{w_seq r | r. r \<in> set rs \<and> w_cf_id r = w_cf_id (last rs)}"
  have "finite ?S" by (rule finite_subset [of _ "w_seq ` set rs"]) auto
  moreover have "w_seq (last rs) \<in> ?S" using assms(2) by auto
  moreover have "x \<le> w_seq (last rs)" if "x \<in> ?S" for x
    using that ordered_bounds(2) [OF assms(1)] assms by (auto simp: sealing_last)
  ultimately have "Max ?S = w_seq (last rs)" by (intro Max_eqI) auto
  then have "map_of (ft_max_seq_per_cf (sealing lib h ps rs)) (w_cf_id (last rs)) = Some (w_seq (last rs))"
    using assms(2) by (auto simp: sealing_families)
  then show ?thesis by (rule map_of_SomeD)
qed


lemma sealed_facts_valid:
  assumes seg: "sealed_segment lib h ps rs bs" "length bs \<le> u64_max" "rs \<noteq> []"
    and first: "l_last_seq (sh_prev h) < sh_first_seq h"
    and e: "ce_facts e = footer_sealed_facts (sealing lib h ps rs)" "ce_size_bytes e = u64_of_len (length bs)"
  shows "\<not> facts_invalid e"
proof -
  let ?f = "footer_sealed_facts (sealing lib h ps rs)" and ?m = "ft_max_seq_per_cf (sealing lib h ps rs)"
  note hold = sealed_facts_hold [OF seg refl]
  have m: "sf_max_seq_per_cf ?f = ?m" by (simp add: footer_sealed_facts_def)
  have ord: "ordered_from h rs" using seg(1) by (simp add: sealed_segment_def)
  have count: "unat (sf_record_count ?f) = length rs" "unat (sf_data_len ?f) = length (segment_data lib h ps)"
    and lst: "l_last_seq (sf_link ?f) = w_seq (last rs)" using hold by simp_all
  note lastf = last_family [OF ord seg(3), of lib ps]
  have "sf_record_count ?f \<noteq> 0" using count(1) seg(3) by auto
  moreover have "?m \<noteq> []" using lastf by auto
  moreover have "\<not> sf_data_len ?f < of_nat header_len"
    using count(2) length_segment_data [of ps lib h] by (simp add: word_less_nat_alt header_len_def)
  moreover have "sf_data_len ?f < ce_size_bytes e"
    using count(2) seg(1,2) by (simp add: word_less_nat_alt e unat_u64_of_len sealed_segment_def
        wal_frame_header_len_def)
  moreover have "adjacent_all (\<lambda>a b. fst a < fst b) ?m"
    using sealing_wf [of lib h ps rs] seg(1) by (simp add: sealed_segment_def footer_wf_def)
  moreover have bound: "seq \<noteq> 0 \<and> seq \<le> w_seq (last rs)" if "(cf, seq) \<in> set ?m" for cf seq
  proof -
    from family_seq [OF that] obtain r where r: "r \<in> set rs" "seq = w_seq r" by blast
    from ordered_bounds(1) [OF ord r(1)] ordered_bounds(2) [OF ord r(1), of lib ps] first r(2) seg(3) ord
    show ?thesis by (auto simp: sealing_last)
  qed
  moreover have "max_of (map snd ?m) = Some (w_seq (last rs))"
  proof -
    have "Max (snd ` set ?m) = w_seq (last rs)"
      using bound lastf by (intro Max_eqI) force+
    with \<open>?m \<noteq> []\<close> show ?thesis by (simp add: max_of_def)
  qed
  moreover have "\<not> sf_record_count ?f < of_nat (length ?m)"
    using families_count [of lib h ps rs] count(1) sealed_counts(1) [OF seg(1,2)]
    by (simp add: word_less_nat_alt unat_of_nat)
  ultimately show ?thesis by (fastforce simp: facts_invalid_def e(1) m lst Let_def)
qed

lemma sealed_entry_fit:
  assumes "sealed_entry lib e" "ce_epoch e \<le> fencing"
  shows "entry_fit fencing e"
proof -
  from assms(1) obtain bs h ps rs where seg: "sealed_segment lib h ps rs bs" "length bs \<le> u64_max" "rs \<noteq> []"
    "l_last_seq (sh_prev h) < sh_first_seq h"
    and e: "ce_facts e = footer_sealed_facts (sealing lib h ps rs)" "ce_size_bytes e = u64_of_len (length bs)"
    by (auto simp: sealed_entry_def)
  have "0 < length bs" using seg(1) length_segment_data [of ps lib h]
    by (simp add: sealed_segment_def header_len_def wal_frame_header_len_def)
  then have "ce_size_bytes e \<noteq> 0"
    using seg(2) unat_u64_of_len [of "length bs"] by (auto simp: e)
  with sealed_facts_valid [OF seg e] assms(2) show ?thesis by (simp add: entry_fit_def)
qed

lemma sealed_entry_id: "sealed_entry lib e \<Longrightarrow> entry_id e \<noteq> - 1"
  by (simp add: sealed_entry_def)

section \<open>The mutators as a machine\<close>

datatype catalog_edit =
    FenceTo u64
  | AppendRun u64 "catalog_entry list"
  | RetirePrefix u64 "catalog_entry list" u64
  | SetAsideSuffix u64 "segment_id option" "catalog_entry list" u64

fun catalog_step :: "catalog \<Rightarrow> catalog_edit \<Rightarrow> (refusal + catalog_refusal) + catalog" where
  "catalog_step c (FenceTo e) = map_err Inr (try_with (fence_to c e) (\<lambda>(_, c). Inr c))"
| "catalog_step c (AppendRun e run) = map_err Inl (try_with (append_run c e run) (\<lambda>(_, c). Inr c))"
| "catalog_step c (RetirePrefix e expct g) =
     map_err Inr (try_with (retire_prefix c e expct g) (\<lambda>(_, c). Inr c))"
| "catalog_step c (SetAsideSuffix e from_id expct floor_seq) =
     map_err Inr (try_with (set_aside_suffix c e from_id expct floor_seq) (\<lambda>(_, c). Inr c))"

fun entries_sealed :: "codec_lib \<Rightarrow> catalog \<Rightarrow> catalog_edit \<Rightarrow> bool" where
  "entries_sealed lib c (AppendRun e run) = (\<forall>x \<in> set run. sealed_entry lib x)"
| "entries_sealed lib c _ = True"

lemma find_refuses:
  assumes "\<And>x. \<exists>e. g x = Inl e"
  shows "(case find P xs of None \<Rightarrow> r | Some x \<Rightarrow> g x) = Inr z \<longleftrightarrow> (\<forall>x \<in> set xs. \<not> P x) \<and> r = Inr z"
proof (cases "find P xs")
  case (Some x)
  then have "x \<in> set xs" "P x" by (auto simp: find_Some_iff)
  with Some assms [of x] show ?thesis by auto
next
  case None
  then have "\<forall>x \<in> set xs. \<not> P x" by (simp add: find_None_iff)
  with None show ?thesis by simp
qed

lemma append_additions_iff:
  assumes ok: "catalog_ok c"
  shows "append_additions c e run = Inr added \<longleftrightarrow>
    e = k_fencing_epoch c \<and> sorted_wrt (<) (map entry_id run) \<and>
    (\<exists>pre. run = pre @ added \<and> set pre \<subseteq> set (k_segments c) \<and>
       entries_chain (catalog_head c) (last_epoch (k_segments c)) added) \<and>
    (\<forall>x \<in> set added. ce_epoch x \<le> k_fencing_epoch c)"
  by (auto simp: append_additions_def additions_iff [OF catalog_ok_ids(4,2) [OF ok]] find_refuses not_less)

lemma append_keeps_ok:
  assumes ok: "catalog_ok c" and run: "append_additions c e run = Inr added"
    and fit: "\<forall>x \<in> set added. entry_fit (k_fencing_epoch c) x \<and> entry_id x \<noteq> - 1"
  shows "catalog_ok (snd (extend_validated c added))"
proof (cases "added = []")
  case False
  let ?c = "snd (extend_validated c added)"
  have segs: "k_segments ?c = k_segments c @ added" "k_anchor ?c = k_anchor c"
    using False by (simp_all add: extend_validated_def)
  from run [unfolded append_additions_iff [OF ok]] have
    "entries_chain (catalog_head c) (epoch_last (Some 0) (k_segments c)) added"
    by (auto simp: last_epoch_chain)
  then have "entries_chain (k_anchor ?c) (Some 0) (k_segments ?c)"
    using ok by (simp add: segs entries_chain_append catalog_ok_iff catalog_head_after)
  moreover have "catalog_head ?c = entry_link (last added)"
    using False by (simp add: catalog_head_after segs head_after_def)
  moreover have "entry_id (last added) < saturating_add_u64 (entry_id (last added)) 1"
  proof -
    have "entry_id (last added) \<noteq> - 1" using fit False by simp
    then have "unat (entry_id (last added)) \<noteq> u64_max" by (metis unat_u64_max word_unat_eq_iff)
    moreover have "unat (entry_id (last added)) \<le> u64_max" by simp
    ultimately have "unat (entry_id (last added)) + 1 \<le> u64_max" by linarith
    then show ?thesis by (simp add: word_less_nat_alt unat_saturating_add_u64)
  qed
  ultimately show ?thesis
    using ok fit False by (auto simp: catalog_ok_iff extend_validated_def less_max_iff_disj)
qed (use ok in \<open>simp add: extend_validated_def\<close>)


lemma check_oldest_iff:
  "check_oldest segs i pending = Inr () \<longleftrightarrow> pending = map entry_id (take (length pending) (drop i segs))"
proof (induction segs i pending rule: check_oldest.induct)
  case (2 segs i sid pending)
  then show ?case
    by (cases "i < length segs") (auto simp flip: Cons_nth_drop_Suc)
qed simp

text \<open>What of the expected entries still is to retire.\<close>

definition still_pending :: "catalog \<Rightarrow> catalog_entry list \<Rightarrow> catalog_entry list" where
  "still_pending c expct = filter (\<lambda>e. l_id (k_anchor c) < entry_id e) expct"

lemma zip_all_eq:
  "length ys \<le> length xs \<Longrightarrow> (\<forall>(x, y) \<in> set (zip xs ys). x = y) \<longleftrightarrow> ys = take (length ys) xs"
proof (induction ys arbitrary: xs)
  case (Cons y ys)
  then show ?case by (cases xs) auto
qed simp

lemma retire_prefix_iff:
  "retire_prefix c e expct g = Inr (ids, c') \<longleftrightarrow>
     e = k_fencing_epoch c \<and> g \<noteq> generation_none \<and> k_retired_by c \<le> g \<and>
     (let pend = still_pending c expct; n = length pend
      in pend = take n (k_segments c) \<and> ids = map entry_id pend \<and>
         c' = (if pend = [] then c
               else c\<lparr>k_anchor := head_after (k_anchor c) pend, k_retired_by := g,
                      k_segments := drop n (k_segments c)\<rparr>))"
proof -
  let ?p = "still_pending c expct"
  have pend: "filter (\<lambda>sid. l_id (k_anchor c) < sid) (map entry_id expct) = map entry_id ?p"
    by (simp add: still_pending_def filter_map comp_def)
  have same: "filter (\<lambda>e. entry_id e \<in> entry_id ` set ?p) expct = ?p"
    unfolding still_pending_def by (rule filter_cong) auto
  have eq: "map entry_id ?p = map entry_id (take (length ?p) (k_segments c)) \<and>
      (\<forall>x \<in> set (zip (k_segments c) ?p). \<not> (case x of (actual, e) \<Rightarrow> actual \<noteq> e)) \<longleftrightarrow>
      ?p = take (length ?p) (k_segments c)" (is "?l \<longleftrightarrow> ?r")
  proof
    assume ?l
    then have "length ?p \<le> length (k_segments c)"
      by (metis length_map length_take min.cobounded1)
    with zip_all_eq [of ?p "k_segments c"] \<open>?l\<close> show ?r by auto
  next
    assume r: ?r
    then have "length ?p \<le> length (k_segments c)" by (metis length_take min.cobounded1)
    from zip_all_eq [OF this] r show ?l by auto
  qed
  have anchor: "sf_link (ce_facts (k_segments c ! (length ?p - 1))) = head_after (k_anchor c) ?p"
    if "?p = take (length ?p) (k_segments c)" "?p \<noteq> []"
  proof -
    have "last ?p = ?p ! (length ?p - 1)" using that(2) by (rule last_conv_nth)
    also have "\<dots> = k_segments c ! (length ?p - 1)" using that by (metis diff_less length_greater_0_conv nth_take zero_less_one)
    finally show ?thesis using that(2) by (simp add: head_after_def entry_link_def)
  qed
  have oldest: "oldest_prefix c (map entry_id expct) = Inr pending \<longleftrightarrow>
      pending = map entry_id ?p \<and> map entry_id ?p = map entry_id (take (length ?p) (k_segments c))" for pending
    using check_oldest_iff [of "k_segments c" 0 "map entry_id ?p"]
    unfolding oldest_prefix_def pend Let_def by auto
  have "retire_prefix c e expct g = Inr (ids, c') \<longleftrightarrow>
      e = k_fencing_epoch c \<and> g \<noteq> generation_none \<and> k_retired_by c \<le> g \<and>
      (?l \<and> ids = map entry_id ?p \<and>
        c' = (if ?p = [] then c
              else c\<lparr>k_anchor := sf_link (ce_facts (k_segments c ! (length ?p - 1))), k_retired_by := g,
                     k_segments := drop (length ?p) (k_segments c)\<rparr>))"
    by (auto simp: retire_prefix_def require_epoch_def oldest same find_refuses split: prod.splits)
  with eq anchor show ?thesis by (auto simp: Let_def)
qed


lemma head_after_append: "head_after (head_after a xs) ys = head_after a (xs @ ys)"
  by (simp add: head_after_def)

lemma entries_chain_weaken: "entries_chain h ep es \<Longrightarrow> entries_chain h (Some 0) es"
  by (cases es) auto

lemma retire_keeps_ok:
  assumes ok: "catalog_ok c" and r: "retire_prefix c e expct g = Inr (ids, c')"
  shows "catalog_ok c' \<and> catalog_head c' = catalog_head c"
proof -
  let ?p = "still_pending c expct"
  from r have g: "g \<noteq> generation_none" and p: "?p = take (length ?p) (k_segments c)"
    and c': "c' = (if ?p = [] then c
               else c\<lparr>k_anchor := head_after (k_anchor c) ?p, k_retired_by := g,
                      k_segments := drop (length ?p) (k_segments c)\<rparr>)"
    by (simp_all add: retire_prefix_iff Let_def)
  show ?thesis
  proof (cases "?p = []")
    case False
    let ?rest = "drop (length ?p) (k_segments c)"
    have segs: "k_segments c = ?p @ ?rest" using p by (metis append_take_drop_id)
    from ok have "entries_chain (k_anchor c) (Some 0) (?p @ ?rest)" using segs by (simp add: catalog_ok_iff)
    then have "entries_chain (head_after (k_anchor c) ?p) (Some 0) ?rest"
      by (auto simp only: entries_chain_append intro: entries_chain_weaken)
    moreover have "head_after (k_anchor c) ?p \<noteq> genesis_link"
    proof -
      have "last ?p \<in> set (k_segments c)" using False segs by (metis UnCI last_in_set set_append)
      with catalog_ok_ids(3) [OF ok] have "l_id (k_anchor c) < entry_id (last ?p)" by blast
      then have "l_id (head_after (k_anchor c) ?p) \<noteq> 0" using False by (auto simp: head_after_def)
      then show ?thesis by (auto simp: genesis_link_def)
    qed
    moreover have "catalog_head c' = catalog_head c"
      unfolding catalog_head_after using False segs by (simp add: c' head_after_append)
    ultimately show ?thesis
      using ok False g by (auto simp: c' catalog_ok_iff dest: in_set_dropD)
  qed (use ok c' in simp)
qed

lemma set_aside_keeps_ok:
  assumes ok: "catalog_ok c" and s: "set_aside_suffix c e f expct fl = Inr (b, c')"
  shows "catalog_ok c'"
proof -
  from s obtain n where c': "c' = c\<lparr>k_segments := take n (k_segments c), k_seq_floor := max (k_seq_floor c) fl\<rparr>"
    by (auto simp: set_aside_suffix_def Let_def split: if_splits)
  have "entries_chain (k_anchor c) (Some 0) (take n (k_segments c) @ drop n (k_segments c))"
    using ok by (simp add: catalog_ok_iff)
  then have chain: "entries_chain (k_anchor c) (Some 0) (take n (k_segments c))"
    unfolding entries_chain_append by blast
  have "l_id (catalog_head c') < k_next_segment_id c"
  proof (cases "take n (k_segments c) = []")
    case True
    then show ?thesis using catalog_ok_ids(6) [OF ok] by (simp add: c' catalog_head_def)
  next
    case False
    then have "last (take n (k_segments c)) \<in> set (k_segments c)" by (metis in_set_takeD last_in_set)
    with catalog_ok_ids(5) [OF ok] False show ?thesis
      by (auto simp: c' catalog_head_def entry_id_def)
  qed
  with ok chain show ?thesis by (auto simp: c' catalog_ok_iff dest: in_set_takeD)
qed

lemma fence_keeps_ok:
  assumes ok: "catalog_ok c" and f: "fence_to c e = Inr (b, c')"
  shows "catalog_ok c'"
proof -
  from f have e: "k_fencing_epoch c \<le> e" and c': "c' = c\<lparr>k_fencing_epoch := e\<rparr>"
    by (auto simp: fence_to_def split: if_splits)
  have "e \<noteq> 0" using ok e by (auto simp: catalog_ok_iff)
  moreover have "entry_fit e x" if "x \<in> set (k_segments c)" for x
    using ok that e by (force simp: catalog_ok_iff entry_fit_def)
  ultimately show ?thesis using ok by (auto simp: c' catalog_ok_iff catalog_head_def split: if_splits)
qed

lemma append_run_ok:
  assumes ok: "catalog_ok c" and r: "append_run c e run = Inr (b, c')"
    and sealed: "\<forall>x \<in> set run. sealed_entry lib x"
  shows "catalog_ok c'"
proof -
  from r obtain added where a: "append_additions c e run = Inr added" "c' = snd (extend_validated c added)"
    by (auto simp: append_run_def)
  from a(1) [unfolded append_additions_iff [OF ok]] have
    "set added \<subseteq> set run" "\<forall>x \<in> set added. ce_epoch x \<le> k_fencing_epoch c" by auto
  with sealed have "\<forall>x \<in> set added. entry_fit (k_fencing_epoch c) x \<and> entry_id x \<noteq> - 1"
    by (meson sealed_entry_fit sealed_entry_id subsetD)
  from append_keeps_ok [OF ok a(1) this] a(2) show ?thesis by simp
qed

lemma catalog_step_ok:
  assumes "catalog_ok c" "entries_sealed lib c ed" "catalog_step c ed = Inr c'"
  shows "catalog_ok c'"
  using assms
  by (cases ed) (auto dest: append_run_ok retire_keeps_ok set_aside_keeps_ok fence_keeps_ok)

text \<open>What never falls: the owner, the next id, the anchor, the sequence floor, the generation.\<close>

datatype catalog_frontier = Owner | NextId | Anchor | SeqFloor | Generation

primrec catalog_rank :: "catalog \<Rightarrow> catalog_frontier \<Rightarrow> u64" where
  "catalog_rank c Owner = k_fencing_epoch c"
| "catalog_rank c NextId = k_next_segment_id c"
| "catalog_rank c Anchor = l_id (k_anchor c)"
| "catalog_rank c SeqFloor = k_seq_floor c"
| "catalog_rank c Generation = k_retired_by c"

lemma catalog_rank_le:
  "catalog_rank c \<le> catalog_rank c' \<longleftrightarrow>
     k_fencing_epoch c \<le> k_fencing_epoch c' \<and> k_next_segment_id c \<le> k_next_segment_id c' \<and>
     l_id (k_anchor c) \<le> l_id (k_anchor c') \<and> k_seq_floor c \<le> k_seq_floor c' \<and>
     k_retired_by c \<le> k_retired_by c'"
proof -
  have "(\<forall>f. P f) \<longleftrightarrow> P Owner \<and> P NextId \<and> P Anchor \<and> P SeqFloor \<and> P Generation" for P
    by (metis catalog_frontier.exhaust)
  then show ?thesis by (simp add: le_fun_def)
qed

lemma catalog_step_rank:
  assumes ok: "catalog_ok c" and s: "catalog_step c ed = Inr c'"
  shows "catalog_rank c \<le> catalog_rank c'"
proof (cases ed)
  case (FenceTo e)
  with s show ?thesis by (auto simp: fence_to_def catalog_rank_le split: if_splits)
next
  case (AppendRun e run)
  with s show ?thesis
    by (auto simp: append_run_def extend_validated_def catalog_rank_le split: if_splits)
next
  case (RetirePrefix e expct g)
  let ?p = "still_pending c expct"
  from s RetirePrefix have g: "k_retired_by c \<le> g"
    and c': "c' = (if ?p = [] then c
               else c\<lparr>k_anchor := head_after (k_anchor c) ?p, k_retired_by := g,
                      k_segments := drop (length ?p) (k_segments c)\<rparr>)"
    by (auto simp: retire_prefix_iff Let_def)
  have "l_id (k_anchor c) < entry_id (last ?p)" if "?p \<noteq> []"
    using last_in_set [OF that] by (simp add: still_pending_def)
  then show ?thesis using g by (auto simp: c' catalog_rank_le head_after_def)
next
  case (SetAsideSuffix e f expct fl)
  with s show ?thesis by (auto simp: set_aside_suffix_def Let_def catalog_rank_le split: if_splits)
qed

interpretation catalog: monotone_machine catalog_step "entries_sealed lib" catalog_ok catalog_rank for lib
  by unfold_locales (auto intro: catalog_step_ok catalog_step_rank)

lemma catalog_empty_ok: "catalog_empty e = Inr c \<Longrightarrow> catalog_ok c \<and> e \<noteq> 0"
  by (auto simp: catalog_empty_def catalog_ok_def catalog_validate_def Let_def split: if_splits)



lemma sample_sealed_entry:
  "\<exists>x. sealed_entry stored_lib x \<and> ce_epoch x = 4 \<and> ce_prev x = genesis_link \<and> entry_id x = 1 \<and>
     entry_max_sequence x = 9"
proof -
  obtain p where p: "record_in stored_lib p sample_put" using sample_record_in by blast
  let ?rs = "[sample_put]"
  let ?facts = "footer_sealed_facts (sealing stored_lib sample_header [p] ?rs)"
  define data where "data = segment_data stored_lib sample_header [p] @
      frame_bytes stored_lib (footer_encode_payload (sealing stored_lib sample_header [p] ?rs))"
  note s = sample_sealed [OF p data_def]
  have "validate_segment_bytes stored_lib data =
      Inr \<lparr>sv_writer_epoch = sh_epoch sample_header, sv_prev = sh_prev sample_header, sv_facts = ?facts\<rparr>"
    (is "_ = Inr ?v") by (rule validate_complete [OF s(2,1)]) simp
  moreover have f: "l_id (sf_link ?facts) = 1" "l_last_seq (sf_link ?facts) = 9"
    using sealed_facts_hold [OF s(1,2) _ refl] by (simp_all add: sample_header_def sample_put_def)
  ultimately have "sealed_entry stored_lib (describing stored_lib ?v data)"
    unfolding sealed_entry_def using s
    by (intro conjI exI [of _ data] exI [of _ sample_header] exI [of _ "[p]"] exI [of _ ?rs] exI [of _ ?v])
      (simp_all add: sample_header_def genesis_link_def)
  with f show ?thesis
    by (intro exI [of _ "describing stored_lib ?v data"]) (simp add: sample_header_def entry_max_sequence_def)
qed

definition new_catalog :: catalog where
  "new_catalog =
     \<lparr>k_format_version = catalog_format_version, k_fencing_epoch = 5, k_anchor = genesis_link,
      k_next_segment_id = 1, k_seq_floor = 0, k_retired_by = generation_none, k_segments = []\<rparr>"

lemma new_catalog_sel [simp]: "k_fencing_epoch new_catalog = 5" "k_segments new_catalog = []"
  by (simp_all add: new_catalog_def)

lemma new_catalog_empty: "catalog_empty 5 = Inr new_catalog" "catalog_ok new_catalog"
  by (simp_all add: catalog_empty_def new_catalog_def catalog_ok_def catalog_validate_def Let_def
      catalog_head_def genesis_link_def)

lemma sample_append:
  assumes "ce_epoch x = 4" "ce_prev x = genesis_link" "entry_id x = 1" "entry_max_sequence x = 9"
  shows "append_run new_catalog 5 [x] = Inr (True, new_catalog\<lparr>k_next_segment_id := 2, k_segments := [x]\<rparr>)"
  using assms
  by (simp add: append_run_def append_additions_def additions_def ascending_def new_catalog_def
      catalog_head_def genesis_link_def last_epoch_def extend_validated_def saturating_add_u64_def)





section \<open>Publication\<close>

lemma append_run_iff:
  assumes ok: "catalog_ok c"
  shows "append_run c e run = Inr (b, c') \<longleftrightarrow>
    e = k_fencing_epoch c \<and> sorted_wrt (<) (map entry_id run) \<and>
    (\<exists>pre added. run = pre @ added \<and> set pre \<subseteq> set (k_segments c) \<and>
       entries_chain (catalog_head c) (last_epoch (k_segments c)) added \<and>
       (\<forall>x \<in> set added. ce_epoch x \<le> k_fencing_epoch c) \<and> b = (added \<noteq> []) \<and>
       c' = (if added = [] then c
             else c\<lparr>k_next_segment_id := max (k_next_segment_id c) (saturating_add_u64 (entry_id (last run)) 1),
                    k_segments := k_segments c @ added\<rparr>))"
proof -
  have "append_run c e run = Inr (b, c') \<longleftrightarrow>
      (\<exists>added. append_additions c e run = Inr added \<and> extend_validated c added = (b, c'))"
    by (simp add: append_run_def)
  moreover have "extend_validated c added = (b, c') \<longleftrightarrow> b = (added \<noteq> []) \<and>
      c' = (if added = [] then c
            else c\<lparr>k_next_segment_id := max (k_next_segment_id c) (saturating_add_u64 (entry_id (last run)) 1),
                   k_segments := k_segments c @ added\<rparr>)" if "run = pre @ added" for pre added
    by (cases "added = []") (auto simp: extend_validated_def that)
  ultimately show ?thesis unfolding append_additions_iff [OF ok] by blast
qed

text \<open>
  C19. Publication is exact and repeatable: on a valid catalog a run is appended if and only
  if the writer owns the catalog and the run, in ascending order, is some already published
  entries followed by entries that chain onto the head under the owner's epoch; these and
  only these are added. The same run appended again, as after a lost acknowledgement,
  changes nothing.
\<close>

theorem append_exact:
  assumes ok: "catalog_ok c" and sealed: "\<forall>x \<in> set run. sealed_entry lib x"
  shows "(append_run c e run = Inr (b, c') \<longleftrightarrow>
      e = k_fencing_epoch c \<and> sorted_wrt (<) (map entry_id run) \<and>
      (\<exists>pre added. run = pre @ added \<and> set pre \<subseteq> set (k_segments c) \<and>
         entries_chain (catalog_head c) (last_epoch (k_segments c)) added \<and>
         (\<forall>x \<in> set added. ce_epoch x \<le> k_fencing_epoch c) \<and> b = (added \<noteq> []) \<and>
         c' = (if added = [] then c
               else c\<lparr>k_next_segment_id := max (k_next_segment_id c) (saturating_add_u64 (entry_id (last run)) 1),
                      k_segments := k_segments c @ added\<rparr>))) \<and>
    (append_run c e run = Inr (b, c') \<longrightarrow> append_run c' e run = Inr (False, c'))"
proof (intro conjI impI)
  assume r: "append_run c e run = Inr (b, c')"
  have ok': "catalog_ok c'" using append_run_ok [OF ok r sealed] .
  from r [unfolded append_run_iff [OF ok]] have "e = k_fencing_epoch c'" "sorted_wrt (<) (map entry_id run)"
    "set run \<subseteq> set (k_segments c')" by (auto split: if_splits)
  then show "append_run c' e run = Inr (False, c')"
    unfolding append_run_iff [OF ok'] by auto
qed (rule append_run_iff [OF ok])

theorem append_exact_witness:
  "\<exists>x c. append_run new_catalog 5 [x] = Inr (True, c) \<and> append_run c 5 [x] = Inr (False, c)"
proof -
  obtain x where x: "sealed_entry stored_lib x" "ce_epoch x = 4" "ce_prev x = genesis_link"
    "entry_id x = 1" "entry_max_sequence x = 9" using sample_sealed_entry by blast
  note app = sample_append [OF x(2-5)]
  from append_exact [OF new_catalog_empty(2), of "[x]" stored_lib 5] x(1) app show ?thesis by auto
qed

text \<open>The acknowledgements agree with the catalog: keyed by id, and published only if it holds them.\<close>

definition acks_match :: "catalog \<Rightarrow> ack_set \<Rightarrow> bool" where
  "acks_match c acks \<longleftrightarrow> bt_ok acks \<and>
     (\<forall>sid a. map_of acks sid = Some a \<longrightarrow> entry_id (ack_entry a) = sid) \<and>
     (\<forall>sid x. map_of acks sid = Some (Published x) \<longrightarrow> x \<in> set (k_segments c))"


lemma append_run_segments:
  assumes "catalog_ok c" "append_run c e run = Inr (b, c')"
  obtains pre added where "run = pre @ added" "set pre \<subseteq> set (k_segments c)" "k_segments c' = k_segments c @ added"
proof -
  from assms(2) [unfolded append_run_iff [OF assms(1)]] obtain pre added where
    "run = pre @ added" "set pre \<subseteq> set (k_segments c)"
    "c' = (if added = [] then c
           else c\<lparr>k_next_segment_id := max (k_next_segment_id c) (saturating_add_u64 (entry_id (last run)) 1),
                  k_segments := k_segments c @ added\<rparr>)" by blast
  then show ?thesis using that [of pre added] by simp
qed

lemma in_unpublished:
  "x \<in> set (unpublished run acks) \<longleftrightarrow> (\<exists>s \<in> set run. map_of acks (ow_segment_id s) = Some (Uploaded x))"
  by (force simp: unpublished_def List.map_filter_def split: option.splits ack.splits)

text \<open>
  C20. One publication of a writer: the run chosen from the owed segments is a leading part of
  them, and once what it has unpublished is appended, every segment of the run is in the
  catalog with the last sequence its writer sealed, nothing outside the run was added, and
  the acknowledgements marked accordingly again agree with the catalog.
\<close>

theorem publication_contiguous:
  assumes ok: "catalog_ok c" "acks_match c acks" and run: "uploaded_run owed acks = Inr run"
    and app: "append_run c e (unpublished run acks) = Inr (b, c')"
  shows "(\<exists>rest. owed = run @ rest) \<and>
    (\<forall>s \<in> set run. \<exists>x \<in> set (k_segments c'). entry_id x = ow_segment_id s \<and>
       entry_max_sequence x = ow_max_sequence s) \<and>
    (\<forall>x \<in> set (k_segments c'). x \<in> set (k_segments c) \<or> entry_id x \<in> ow_segment_id ` set run) \<and>
    acks_match c' (mark_published run acks)"
proof -
  from run have r: "run = takeWhile (acked acks) owed"
    and m: "\<forall>s \<in> set run. acked_max_sequence acks (ow_segment_id s) = Some (ow_max_sequence s)"
    by (auto simp: uploaded_run_def uploaded_prefix_iff)
  have bt: "bt_ok acks" and ids: "\<And>sid a. map_of acks sid = Some a \<Longrightarrow> entry_id (ack_entry a) = sid"
    and pub: "\<And>sid x. map_of acks sid = Some (Published x) \<Longrightarrow> x \<in> set (k_segments c)"
    using ok(2) by (auto simp: acks_match_def)
  obtain pre added where u: "unpublished run acks = pre @ added" "set pre \<subseteq> set (k_segments c)"
    "k_segments c' = k_segments c @ added" using append_run_segments [OF ok(1) app] .
  then have sub: "set (k_segments c) \<subseteq> set (k_segments c')"
    "set (unpublished run acks) \<subseteq> set (k_segments c')" by auto
  have held: "ack_entry a \<in> set (k_segments c')" if "s \<in> set run" "map_of acks (ow_segment_id s) = Some a" for s a
  proof (cases a)
    case (Uploaded x)
    with that have "x \<in> set (unpublished run acks)" by (auto simp: in_unpublished)
    with sub Uploaded show ?thesis by auto
  qed (use that sub pub in auto)
  have "\<exists>x \<in> set (k_segments c'). entry_id x = ow_segment_id s \<and> entry_max_sequence x = ow_max_sequence s"
    if "s \<in> set run" for s
  proof -
    from m that obtain a where "map_of acks (ow_segment_id s) = Some a" "ack_max_sequence a = ow_max_sequence s"
      by (auto simp: acked_max_sequence_def)
    with held [OF that] ids show ?thesis by (auto simp: ack_max_sequence_def)
  qed
  moreover have "x \<in> set (k_segments c) \<or> entry_id x \<in> ow_segment_id ` set run" if "x \<in> set (k_segments c')" for x
  proof (cases "x \<in> set (k_segments c)")
    case False
    with that u have "x \<in> set (unpublished run acks)" by auto
    then show ?thesis using ids by (fastforce simp: in_unpublished)
  qed simp
  moreover have "acks_match c' (mark_published run acks)"
    using mark_published_get [OF bt, of run] ids held pub sub(1)
    by (fastforce simp: acks_match_def publish_ack_def split: if_splits)
  moreover have "owed = run @ dropWhile (acked acks) owed" by (simp add: r)
  ultimately show ?thesis by blast
qed

theorem publication_contiguous_witness:
  "\<exists>x c. append_run new_catalog 5
       (unpublished [\<lparr>ow_segment_id = 1, ow_max_sequence = 9\<rparr>] [(1, Uploaded x)]) = Inr (True, c) \<and>
     acks_match c (mark_published [\<lparr>ow_segment_id = 1, ow_max_sequence = 9\<rparr>] [(1, Uploaded x)])"
proof -
  obtain x where x: "ce_epoch x = 4" "ce_prev x = genesis_link" "entry_id x = 1" "entry_max_sequence x = 9"
    using sample_sealed_entry by blast
  let ?o = "[\<lparr>ow_segment_id = 1, ow_max_sequence = 9\<rparr>] :: owed_segment list" and ?a = "[(1, Uploaded x)]"
  have run: "uploaded_run ?o ?a = Inr ?o" using x
    by (simp add: uploaded_run_def ascending_def acked_max_sequence_def ack_max_sequence_def)
  have un: "unpublished ?o ?a = [x]" by (simp add: unpublished_def List.map_filter_def)
  have match: "acks_match new_catalog ?a" using x by (simp add: acks_match_def)
  note app = sample_append [OF x, folded un]
  from publication_contiguous [OF new_catalog_empty(2) match run app] app show ?thesis by blast
qed

text \<open>
  C24. Retirement goes through and keeps the chain: on a valid catalog its owner can retire
  the longest leading run of covered entries under any generation that is not older, exactly
  these leave, and the head and the next id stay. Asked again, nothing more retires.
\<close>

theorem retirement_goes_through:
  assumes ok: "catalog_ok c" and g: "g \<noteq> generation_none" "k_retired_by c \<le> g"
    and pre: "pre = catalog_retirable_prefix c covered"
  shows "\<exists>c'. retire_prefix c (k_fencing_epoch c) pre g = Inr (map entry_id pre, c') \<and>
    k_segments c' = dropWhile (covered_entry covered) (k_segments c) \<and>
    catalog_head c' = catalog_head c \<and> k_next_segment_id c' = k_next_segment_id c \<and>
    catalog_validate c' = Inr () \<and> retire_prefix c' (k_fencing_epoch c) pre g = Inr ([], c')"
proof -
  have segs: "k_segments c = pre @ dropWhile (covered_entry covered) (k_segments c)"
    by (simp add: pre catalog_retirable_prefix_def)
  then have sub: "set pre \<subseteq> set (k_segments c)" by (metis Un_upper1 set_append)
  then have all: "still_pending c pre = pre"
    unfolding still_pending_def using catalog_ok_ids(3) [OF ok] by (auto simp: filter_id_conv)
  let ?c = "if pre = [] then c
    else c\<lparr>k_anchor := head_after (k_anchor c) pre, k_retired_by := g, k_segments := drop (length pre) (k_segments c)\<rparr>"
  have "take (length pre) (k_segments c) = pre" "drop (length pre) (k_segments c) = dropWhile (covered_entry covered) (k_segments c)"
    by (subst segs, simp)+
  then have r: "retire_prefix c (k_fencing_epoch c) pre g = Inr (map entry_id pre, ?c)"
    and rest: "k_segments ?c = dropWhile (covered_entry covered) (k_segments c)"
    using g segs by (auto simp: retire_prefix_iff all Let_def)
  have "still_pending ?c pre = []"
  proof (cases "pre = []")
    case False
    have "entries_chain (k_anchor c) (Some 0) (pre @ dropWhile (covered_entry covered) (k_segments c))"
      using ok segs by (simp add: catalog_ok_iff)
    then have "entries_chain (k_anchor c) (Some 0) pre" unfolding entries_chain_append by blast
    from entries_chain_head [OF this] False show ?thesis
      by (auto simp: still_pending_def filter_empty_conv not_less)
  qed (simp add: still_pending_def)
  then have "retire_prefix ?c (k_fencing_epoch c) pre g = Inr ([], ?c)"
    using g by (simp add: retire_prefix_iff Let_def)
  with retire_keeps_ok [OF ok r] r rest show ?thesis
    by (intro exI [of _ ?c]) (auto simp: catalog_ok_def)
qed


theorem retirement_goes_through_witness:
  "\<exists>x c'. retire_prefix (new_catalog\<lparr>k_next_segment_id := 2, k_segments := [x]\<rparr>) 5 [x] 8 = Inr ([1], c') \<and>
     k_segments c' = [] \<and> catalog_validate c' = Inr ()"
proof -
  obtain x where x: "sealed_entry stored_lib x" "ce_epoch x = 4" "ce_prev x = genesis_link"
    "entry_id x = 1" "entry_max_sequence x = 9" using sample_sealed_entry by blast
  let ?c = "new_catalog\<lparr>k_next_segment_id := 2, k_segments := [x]\<rparr>"
  have ok: "catalog_ok ?c" using append_run_ok [OF new_catalog_empty(2) sample_append [OF x(2-5)]] x(1) by simp
  then have "sf_max_seq_per_cf (ce_facts x) \<noteq> []"
    by (simp add: catalog_ok_iff entry_fit_def facts_invalid_def Let_def)
  then have pre: "[x] = catalog_retirable_prefix ?c (\<lambda>_ _. True)"
    and rest: "dropWhile (covered_entry (\<lambda>_ _. True)) [x] = []"
    by (simp_all add: catalog_retirable_prefix_def covered_entry_def)
  have "(8 :: u64) \<noteq> generation_none" "k_retired_by ?c \<le> 8"
    by (simp_all add: generation_none_def new_catalog_def)
  from retirement_goes_through [OF ok this pre] rest x(4) show ?thesis by auto
qed

section \<open>Memory charged to a catalog\<close>

text \<open>
  The size of a row and of a family maximum are the compiler's, so they are parameters; a
  vector's capacity is a parameter of the retained charge. \<open>n\<close> rows of decoded entries are
  counted by their numbers of families.
\<close>

function next_power_of_two :: "nat \<Rightarrow> nat \<Rightarrow> nat" where
  "next_power_of_two p n = (if p = 0 \<or> n \<le> p then p else next_power_of_two (2 * p) n)"
  by pat_completeness auto

termination
  by (relation "measure (\<lambda>(p, n). n - p)") auto

declare next_power_of_two.simps [simp del]

definition checked_next_power_of_two :: "nat \<Rightarrow> nat option" where
  "checked_next_power_of_two n =
     (let p = next_power_of_two 1 n in if p \<le> usize_max then Some p else None)"

definition vector_peak :: "nat \<Rightarrow> nat \<Rightarrow> nat" where
  "vector_peak len element_bytes =
     (if len = 0 then 0
      else
        let capacity = max 4 (case checked_next_power_of_two len of None \<Rightarrow> usize_max | Some p \<Rightarrow> p)
        in saturating_mul_usize (saturating_add_usize capacity (capacity div 2)) element_bytes)"

definition frontier_bytes :: "nat \<Rightarrow> nat \<Rightarrow> nat" where
  "frontier_bytes family_bytes families = saturating_mul_usize families family_bytes"

record counted =
  n_len :: nat
  n_nested :: nat

definition counted_bytes :: "counted \<Rightarrow> nat \<Rightarrow> nat" where
  "counted_bytes n element_bytes = saturating_add_usize (vector_peak (n_len n) element_bytes) (n_nested n)"

definition count_step :: "nat \<Rightarrow> counted \<Rightarrow> counted" where
  "count_step nested n =
     \<lparr>n_len = saturating_add_usize (n_len n) 1, n_nested = saturating_add_usize (n_nested n) nested\<rparr>"

definition entry_nested_bytes :: "nat \<Rightarrow> nat \<Rightarrow> nat" where
  "entry_nested_bytes family_bytes families =
     counted_bytes (fold count_step (replicate families 0) \<lparr>n_len = 0, n_nested = 0\<rparr>) family_bytes"

definition decode_allocation_bound :: "nat \<Rightarrow> nat \<Rightarrow> nat list \<Rightarrow> nat" where
  "decode_allocation_bound row_bytes family_bytes rows =
     saturating_add_usize
       (counted_bytes (fold count_step (map (entry_nested_bytes family_bytes) rows) \<lparr>n_len = 0, n_nested = 0\<rparr>)
          row_bytes) 4096"

definition retained_allocation_bytes :: "nat \<Rightarrow> nat \<Rightarrow> nat \<Rightarrow> nat list \<Rightarrow> nat" where
  "retained_allocation_bytes row_bytes family_bytes capacity family_capacities =
     fold (\<lambda>fc bs. saturating_add_usize bs (frontier_bytes family_bytes fc)) family_capacities
       (saturating_add_usize (saturating_mul_usize capacity row_bytes) 4096)"

definition prefix_copy_allocation_bytes :: "nat \<Rightarrow> nat \<Rightarrow> catalog \<Rightarrow> nat \<Rightarrow> nat" where
  "prefix_copy_allocation_bytes row_bytes family_bytes c n =
     fold (\<lambda>e bs. saturating_add_usize bs (frontier_bytes family_bytes (length (sf_max_seq_per_cf (ce_facts e)))))
       (take n (k_segments c)) (saturating_mul_usize n row_bytes)"

definition append_growth_bytes :: "nat \<Rightarrow> nat \<Rightarrow> nat \<Rightarrow> catalog \<Rightarrow> catalog_entry list \<Rightarrow> nat" where
  "append_growth_bytes row_bytes family_bytes capacity c added =
     (let required = saturating_add_usize (length (k_segments c)) (length added);
          rows = (if required > capacity then required else 0)
      in fold (\<lambda>e bs. saturating_add_usize bs (frontier_bytes family_bytes (length (sf_max_seq_per_cf (ce_facts e)))))
           added (saturating_mul_usize rows row_bytes))"


lemma saturating_sum:
  "b \<le> usize_max \<Longrightarrow>
   fold (\<lambda>x bs. saturating_add_usize bs (f x)) xs b = min usize_max (b + sum_list (map f xs))"
  by (induction xs arbitrary: b) (auto simp: saturating_add_usize_def)

lemma count_steps:
  "n_len n \<le> usize_max \<Longrightarrow> n_nested n \<le> usize_max \<Longrightarrow>
   fold count_step xs n =
     \<lparr>n_len = min usize_max (n_len n + length xs), n_nested = min usize_max (n_nested n + sum_list xs)\<rparr>"
  by (induction xs arbitrary: n) (auto simp: count_step_def saturating_add_usize_def)

lemma entry_nested_bytes_eq:
  "entry_nested_bytes fb families = min usize_max (vector_peak (min usize_max families) fb)"
  unfolding entry_nested_bytes_def counted_bytes_def
  by (subst (1 2) count_steps) (simp_all add: saturating_add_usize_def sum_list_replicate)

lemma vector_peak_le: "vector_peak n b \<le> usize_max"
  by (simp add: vector_peak_def saturating_mul_usize_def Let_def)

lemma decode_allocation_bound_eq:
  "decode_allocation_bound rb fb rows =
     min usize_max (vector_peak (min usize_max (length rows)) rb +
       sum_list (map (entry_nested_bytes fb) rows) + 4096)"
  using vector_peak_le
  by (simp add: decode_allocation_bound_def count_steps counted_bytes_def saturating_add_usize_def)

text \<open>The capacity a vector reaches when it grows by doubling from four elements.\<close>

definition grown_capacity :: "nat \<Rightarrow> nat" where
  "grown_capacity n = (if n = 0 then 0 else max 4 (next_power_of_two 1 n))"

lemma vector_peak_covers:
  assumes "cap \<le> grown_capacity n" "n \<le> usize_max"
  shows "min usize_max (cap * b) \<le> vector_peak n b"
proof (cases "n = 0")
  case False
  let ?c = "max 4 (case checked_next_power_of_two n of None \<Rightarrow> usize_max | Some p \<Rightarrow> p)"
  have "min usize_max cap \<le> ?c"
    using assms(1) False by (auto simp: grown_capacity_def checked_next_power_of_two_def Let_def)
  moreover have "?c \<le> usize_max" by (auto simp: checked_next_power_of_two_def Let_def)
  ultimately have c: "min usize_max cap \<le> saturating_add_usize ?c (?c div 2)"
    by (simp add: saturating_add_usize_def)
  have "min usize_max (cap * b) \<le> min usize_max (min usize_max cap * b)"
    by (cases "cap \<le> usize_max"; cases "b = 0") auto
  also have "\<dots> \<le> min usize_max (saturating_add_usize ?c (?c div 2) * b)"
    using mult_le_mono1 [OF c, of b] by linarith
  finally show ?thesis using False by (simp add: vector_peak_def saturating_mul_usize_def Let_def)
qed (use assms in \<open>simp add: grown_capacity_def vector_peak_def\<close>)


lemma nested_covers:
  "list_all2 (\<lambda>cap n. cap \<le> grown_capacity n \<and> n \<le> usize_max) caps rows \<Longrightarrow>
   min usize_max (sum_list (map (frontier_bytes fb) caps)) \<le>
   min usize_max (sum_list (map (entry_nested_bytes fb) rows))"
proof (induction rule: list_all2_induct)
  case (Cons cap caps n rows)
  have "frontier_bytes fb cap \<le> entry_nested_bytes fb n"
    using vector_peak_covers [of cap n fb] Cons(1) vector_peak_le [of n fb]
    by (simp add: frontier_bytes_def saturating_mul_usize_def entry_nested_bytes_eq)
  with Cons show ?case by simp
qed simp

text \<open>
  What a catalog is charged before it is decoded covers what it holds once decoded, for any
  vector capacities that doubling from four elements reaches.
\<close>

theorem decode_bound_covers:
  assumes "capacity \<le> grown_capacity (length rows)" "length rows \<le> usize_max"
    and "list_all2 (\<lambda>cap n. cap \<le> grown_capacity n \<and> n \<le> usize_max) caps rows"
  shows "retained_allocation_bytes rb fb capacity caps \<le> decode_allocation_bound rb fb rows"
proof -
  have "min usize_max (capacity * rb) \<le> vector_peak (length rows) rb"
    using assms(1,2) by (rule vector_peak_covers)
  with nested_covers [OF assms(3), of fb] show ?thesis
    unfolding retained_allocation_bytes_def decode_allocation_bound_eq
    using assms(2)
    by (subst saturating_sum) (simp_all add: saturating_add_usize_def saturating_mul_usize_def)
qed



end
