(* ===== verification/Wal_Planner.thy ===== *)
theory Wal_Planner
  imports Wal_Ledger Wal_Catalog
begin

text \<open>
  Recovery planning (\<^verbatim>\<open>src/src/wal/planner.rs\<close>): where a cache's ledger stands against the
  catalog, which probed segments replay, what salvage sets aside and how the local history
  continues. The planner's mutable state is a record that each step returns changed. The
  theorems show that a strict plan drops nothing, that what replays is one chain in
  ascending order, that the sequences of everything left out stay reserved, and that the
  catalog and the ledger accept what the plan asks of them.
\<close>

section \<open>Lineage\<close>

datatype lineage = Fresh | Joined | Behind bool | Diverged

definition sealed_links :: "wal_ledger \<Rightarrow> chain_link list" where
  "sealed_links l = List.map_filter (\<lambda>m. map_option sf_link (m_sealed m)) (g_members l)"

definition lineage_of :: "catalog \<Rightarrow> wal_ledger option \<Rightarrow> lineage" where
  "lineage_of c ledger =
     (case ledger of
        None \<Rightarrow> Fresh
      | Some l \<Rightarrow>
          let head = catalog_head c; anchor = g_anchor l;
              in_chain = (anchor = head \<or> (\<exists>k \<in> set (sealed_links l). k = head));
              continues = (case find (\<lambda>sid. sid > l_id head) (map member_id (g_members l)) of
                             Some sid \<Rightarrow> sid | None \<Rightarrow> open_segment l)
          in if in_chain \<and> k_next_segment_id c \<le> continues then Joined
             else if \<not> in_chain \<and> l_id head < l_id anchor
             then Behind (k_seq_floor c \<ge> l_last_seq anchor)
             else Diverged)"

section \<open>Probes and plans\<close>

datatype open_end = OpenWhole | OpenTorn | OpenDamaged string u64

record open_probe =
  op_header :: segment_header
  op_len :: u64
  op_valid_bytes :: u64
  op_record_count :: u64
  op_max_sequence :: u64
  op_end :: open_end

datatype probe = ProbeSealed segment_header chain_link | ProbeOpen open_probe | ProbeDamaged string u64

record probes =
  pb_remote :: "(segment_id \<times> probe) list"
  pb_local :: "(segment_id \<times> probe) list"

datatype replay_source = Remote | Local
datatype expectation = ExpectMember member u128 | ExpectPublished catalog_entry

definition expect_member :: "wal_ledger \<Rightarrow> member \<Rightarrow> expectation" where
  "expect_member l m = ExpectMember m (g_holder l)"

record planned_segment =
  ps_id :: segment_id
  ps_source :: replay_source
  ps_sealed :: bool
  ps_expect :: expectation

record segment_facts =
  sg_max_sequence :: u64
  sg_writer_epoch :: u64

datatype history_action =
    HistGenesis chain_link segment_id
  | HistKeep "segment_id option"
  | HistSetAside segment_id segment_id
  | HistRebase chain_link segment_id

record open_cut =
  oc_id :: segment_id
  oc_valid_bytes :: u64
  oc_retain :: bool

record recovery_plan =
  rp_anchor :: chain_link
  rp_replay :: "planned_segment list"
  rp_remote_segments :: "(segment_id \<times> segment_facts) list"
  rp_local_segments :: "(segment_id \<times> segment_facts) list"
  rp_opened_in_salvage_mode :: bool
  rp_max_unreplayed_sequence :: u64
  rp_catalog_floor :: u64
  rp_retire_catalog_from :: "segment_id option"
  rp_set_aside_entries :: "catalog_entry list"
  rp_history :: history_action
  rp_open_cut :: "open_cut option"

definition changes_catalog :: "recovery_plan \<Rightarrow> catalog \<Rightarrow> bool" where
  "changes_catalog p c \<longleftrightarrow> rp_retire_catalog_from p \<noteq> None \<or> rp_catalog_floor p > k_seq_floor c"

definition segments_facts :: "(segment_facts \<Rightarrow> u64) \<Rightarrow> (segment_id \<times> segment_facts) list \<Rightarrow> (u64 \<times> u64) list" where
  "segments_facts value segments = map (\<lambda>(sid, f). (sid, value f)) segments"

definition remote_max_sequences :: "recovery_plan \<Rightarrow> (u64 \<times> u64) list" where
  "remote_max_sequences p = segments_facts sg_max_sequence (rp_remote_segments p)"

definition remote_writer_epochs :: "recovery_plan \<Rightarrow> (u64 \<times> u64) list" where
  "remote_writer_epochs p = segments_facts sg_writer_epoch (rp_remote_segments p)"

definition local_max_sequences :: "recovery_plan \<Rightarrow> (u64 \<times> u64) list" where
  "local_max_sequences p = segments_facts sg_max_sequence (rp_local_segments p)"

definition local_writer_epochs :: "recovery_plan \<Rightarrow> (u64 \<times> u64) list" where
  "local_writer_epochs p = segments_facts sg_writer_epoch (rp_local_segments p)"

datatype plan_error = Unreplayable string | CatalogBehind string

fun plan_error_midge :: "plan_error \<Rightarrow> midge_error" where
  "plan_error_midge (Unreplayable reason) = RecoveryFailed (''WAL source validation failed: '' @ reason)"
| "plan_error_midge (CatalogBehind reason) = Corruption reason"

definition plan_local :: "wal_ledger \<Rightarrow> recovery_plan" where
  "plan_local l =
     \<lparr>rp_anchor = g_anchor l,
      rp_replay = map (\<lambda>m. \<lparr>ps_id = member_id m, ps_source = Local, ps_sealed = (m_sealed m \<noteq> None),
                            ps_expect = expect_member l m\<rparr>) (g_members l),
      rp_remote_segments = [], rp_local_segments = [], rp_opened_in_salvage_mode = False,
      rp_max_unreplayed_sequence = 0, rp_catalog_floor = 0, rp_retire_catalog_from = None,
      rp_set_aside_entries = [], rp_history = HistKeep None, rp_open_cut = None\<rparr>"

section \<open>Checking one segment\<close>

record hole =
  h_id :: segment_id
  h_reason :: string

record planner =
  pl_salvage :: bool
  pl_chain :: chain_state
  pl_replay :: "planned_segment list"
  pl_remote :: "(segment_id \<times> segment_facts) list"
  pl_local :: "(segment_id \<times> segment_facts) list"
  pl_salvaged :: bool
  pl_open_cut :: "open_cut option"
  pl_cut_floor :: u64

fun error_text :: "midge_error \<Rightarrow> string" where
  "error_text (Corruption s) = s"
| "error_text _ = []"

definition admit_sealed :: "chain_state \<Rightarrow> segment_header \<Rightarrow> segment_id \<Rightarrow> chain_link \<Rightarrow> string + chain_state" where
  "admit_sealed chain header sid link =
     try_with (map_err error_text (chain_admit chain header sid)) (\<lambda>chain. Inr (chain_seal chain link))"

definition published_header :: "catalog_entry \<Rightarrow> probe option \<Rightarrow> string + segment_header" where
  "published_header e probe =
     (case probe of
        Some (ProbeSealed header link) \<Rightarrow>
          if sh_id header \<noteq> entry_id e \<or> sh_epoch header \<noteq> ce_epoch e \<or> sh_prev header \<noteq> ce_prev e \<or>
             link \<noteq> entry_link e
          then Inl ''cloud WAL is not the segment its catalog entry names'' else Inr header
      | Some (ProbeDamaged reason _) \<Rightarrow> Inl reason
      | _ \<Rightarrow> Inl ''cloud WAL was not read whole'')"

definition expected_header :: "wal_ledger \<Rightarrow> member \<Rightarrow> segment_header \<Rightarrow> string + unit" where
  "expected_header l m header =
     (if sh_holder header \<noteq> g_holder l
      then Inl ''WAL segment header names another holder than this ledger's''
      else if header_open_facts header \<noteq> m_open m then Inl ''WAL segment header is not the ledger's''
      else Inr ())"

definition sealed_member :: "wal_ledger \<Rightarrow> member \<Rightarrow> probe option \<Rightarrow> string + segment_header" where
  "sealed_member l m probe =
     (case probe of
        Some (ProbeSealed header link) \<Rightarrow>
          try_with (expected_header l m header) (\<lambda>_.
            if map_option sf_link (m_sealed m) \<noteq> Some link
            then Inl ''WAL segment seals another link than the ledger recorded'' else Inr header)
      | Some (ProbeDamaged reason _) \<Rightarrow> Inl reason
      | _ \<Rightarrow> Inl ''sealed WAL segment was not read whole'')"

definition kept_before :: "wal_ledger \<Rightarrow> segment_id \<Rightarrow> segment_id \<Rightarrow> bool" where
  "kept_before l retired hole_id \<longleftrightarrow>
     (\<exists>sid \<in> set (map member_id (g_members l)). sid > retired \<and> sid < hole_id)"

definition member_maximum :: "probes \<Rightarrow> member \<Rightarrow> u64" where
  "member_maximum ps m =
     (let recorded = (case m_sealed m of None \<Rightarrow> 0 | Some s \<Rightarrow> l_last_seq (sf_link s));
          verified = (case map_of (pb_local ps) (member_id m) of
                        Some (ProbeSealed _ link) \<Rightarrow> l_last_seq link
                      | Some (ProbeOpen opn) \<Rightarrow>
                          (case op_end opn of
                             OpenDamaged _ suffix_max \<Rightarrow> max (op_max_sequence opn) suffix_max
                           | _ \<Rightarrow> op_max_sequence opn)
                      | Some (ProbeDamaged _ max_verified) \<Rightarrow> max_verified
                      | None \<Rightarrow> 0)
      in max recorded verified)"

definition max_or_zero :: "u64 list \<Rightarrow> u64" where
  "max_or_zero xs = fold max xs 0"

definition set_aside_maximum :: "wal_ledger \<Rightarrow> segment_id \<Rightarrow> probes \<Rightarrow> u64" where
  "set_aside_maximum l from_id ps =
     max_or_zero (map (member_maximum ps) (filter (\<lambda>m. member_id m \<ge> from_id) (g_members l)))"

section \<open>Admitting segments\<close>

definition plan_segment ::
    "planned_segment \<Rightarrow> chain_state \<Rightarrow> planner \<Rightarrow> planner" where
  "plan_segment s chain p = p\<lparr>pl_chain := chain, pl_replay := pl_replay p @ [s]\<rparr>"

definition fall_back :: "planner \<Rightarrow> wal_ledger \<Rightarrow> catalog_entry \<Rightarrow> probes \<Rightarrow> planner option" where
  "fall_back p l e ps =
     Option.bind (expected l (entry_id e)) (\<lambda>m.
     Option.bind (m_sealed m) (\<lambda>sealed.
       if sf_link sealed \<noteq> entry_link e then None
       else
         case try_with (sealed_member l m (map_of (pb_local ps) (entry_id e))) (\<lambda>header.
                try_with (admit_sealed (pl_chain p) header (entry_id e) (sf_link sealed)) (\<lambda>chain.
                  Inr (header, chain))) of
           Inl _ \<Rightarrow> None
         | Inr (header, chain) \<Rightarrow>
             Some ((plan_segment \<lparr>ps_id = entry_id e, ps_source = Local, ps_sealed = True,
                                   ps_expect = expect_member l m\<rparr> chain p)
               \<lparr>pl_local := bt_insert (entry_id e)
                  \<lparr>sg_max_sequence = l_last_seq (sf_link sealed), sg_writer_epoch = sh_epoch header\<rparr> (pl_local p)\<rparr>)))"

fun admit_entries ::
    "planner \<Rightarrow> wal_ledger option \<Rightarrow> probes \<Rightarrow> catalog_entry list \<Rightarrow> planner \<times> hole option" where
  "admit_entries p joined ps [] = (p, None)"
| "admit_entries p joined ps (e # es) =
     (case try_with (published_header e (map_of (pb_remote ps) (entry_id e))) (\<lambda>header.
             admit_sealed (pl_chain p) header (entry_id e) (entry_link e)) of
        Inr chain \<Rightarrow>
          admit_entries
            ((plan_segment \<lparr>ps_id = entry_id e, ps_source = Remote, ps_sealed = True,
                             ps_expect = ExpectPublished e\<rparr> chain p)
              \<lparr>pl_remote := bt_insert (entry_id e)
                 \<lparr>sg_max_sequence = entry_max_sequence e, sg_writer_epoch = ce_epoch e\<rparr> (pl_remote p)\<rparr>)
            joined ps es
      | Inl reason \<Rightarrow>
          (case (if pl_salvage p then Option.bind joined (\<lambda>l. fall_back p l e ps) else None) of
             None \<Rightarrow> (p, Some \<lparr>h_id = entry_id e, h_reason = reason\<rparr>)
           | Some p' \<Rightarrow> admit_entries (p'\<lparr>pl_salvaged := True\<rparr>) joined ps es))"

definition admit_catalog :: "planner \<Rightarrow> catalog \<Rightarrow> wal_ledger option \<Rightarrow> probes \<Rightarrow> planner \<times> hole option" where
  "admit_catalog p c joined ps = admit_entries p joined ps (k_segments c)"

text \<open>How the open member's verified prefix ends: whether a cut keeps a copy of the original.\<close>

definition open_retain :: "planner \<Rightarrow> open_probe \<Rightarrow> plan_error + planner \<times> bool" where
  "open_retain p opn =
     (case op_end opn of
        OpenWhole \<Rightarrow> Inr (p, False)
      | OpenTorn \<Rightarrow> Inr (p, op_record_count opn = 0)
      | OpenDamaged reason suffix_max \<Rightarrow>
          if \<not> pl_salvage p then Inl (Unreplayable (''active WAL failed validation: '' @ reason))
          else Inr (p\<lparr>pl_salvaged := True, pl_cut_floor := suffix_max\<rparr>, True))"

definition plan_open :: "planner \<Rightarrow> wal_ledger \<Rightarrow> member \<Rightarrow> open_probe \<Rightarrow> bool \<Rightarrow> planner" where
  "plan_open p l m opn retain =
     (let p = (if op_valid_bytes opn \<noteq> op_len opn \<or>
                  (case op_end opn of OpenDamaged _ _ \<Rightarrow> True | _ \<Rightarrow> False)
               then p\<lparr>pl_open_cut := Some \<lparr>oc_id = member_id m, oc_valid_bytes = op_valid_bytes opn,
                                             oc_retain = retain\<rparr>\<rparr>
               else p);
          expct = (if pl_open_cut p \<noteq> None
                   then m\<lparr>m_durable_bytes :=
                            map_option (\<lambda>b. min b (op_valid_bytes opn)) (m_durable_bytes m)\<rparr>
                   else m)
      in if op_record_count opn > 0
         then p\<lparr>pl_replay := pl_replay p @
                  [\<lparr>ps_id = member_id m, ps_source = Local, ps_sealed = False,
                    ps_expect = expect_member l expct\<rparr>]\<rparr>
         else p)"

definition admit_open ::
    "planner \<Rightarrow> wal_ledger \<Rightarrow> member \<Rightarrow> probe option \<Rightarrow> plan_error + planner \<times> hole option" where
  "admit_open p l m probe =
     (case probe of
        Some (ProbeOpen opn) \<Rightarrow>
          (case try_with (expected_header l m (op_header opn)) (\<lambda>_.
                  map_err error_text (chain_admit (pl_chain p) (op_header opn) (member_id m))) of
             Inl reason \<Rightarrow> Inr (p, Some \<lparr>h_id = member_id m, h_reason = reason\<rparr>)
           | Inr chain \<Rightarrow>
               try_with (open_retain (p\<lparr>pl_chain := chain\<rparr>) opn) (\<lambda>(p, retain).
                 Inr (plan_open p l m opn retain, None)))
      | Some (ProbeDamaged reason _) \<Rightarrow> Inr (p, Some \<lparr>h_id = member_id m, h_reason = reason\<rparr>)
      | _ \<Rightarrow> Inr (p, Some \<lparr>h_id = member_id m, h_reason = ''open WAL segment was not read''\<rparr>))"

fun admit_members ::
    "planner \<Rightarrow> wal_ledger \<Rightarrow> probes \<Rightarrow> member list \<Rightarrow> plan_error + planner \<times> hole option" where
  "admit_members p l ps [] = Inr (p, None)"
| "admit_members p l ps (m # ms) =
     (let sid = member_id m; probe = map_of (pb_local ps) sid
      in case m_sealed m of
           None \<Rightarrow> admit_open p l m probe
         | Some sealed \<Rightarrow>
             (case try_with (sealed_member l m probe) (\<lambda>header.
                     try_with (admit_sealed (pl_chain p) header sid (sf_link sealed)) (\<lambda>chain.
                       Inr (header, chain))) of
                Inl reason \<Rightarrow> Inr (p, Some \<lparr>h_id = sid, h_reason = reason\<rparr>)
              | Inr (header, chain) \<Rightarrow>
                  admit_members
                    ((plan_segment \<lparr>ps_id = sid, ps_source = Local, ps_sealed = True,
                                     ps_expect = expect_member l m\<rparr> chain p)
                      \<lparr>pl_local := bt_insert sid
                         \<lparr>sg_max_sequence = l_last_seq (sf_link sealed), sg_writer_epoch = sh_epoch header\<rparr>
                         (pl_local p)\<rparr>)
                    l ps ms))"

definition admit_tail ::
    "planner \<Rightarrow> chain_link \<Rightarrow> wal_ledger \<Rightarrow> probes \<Rightarrow> plan_error + planner \<times> hole option" where
  "admit_tail p head l ps = admit_members p l ps (filter (\<lambda>m. member_id m > l_id head) (g_members l))"

section \<open>The plan\<close>

text \<open>The parts of \<^verbatim>\<open>finish\<close>: what the catalog drops, its head then, the floors, the ledger's way on.\<close>

definition aside_entries :: "catalog \<Rightarrow> hole option \<Rightarrow> catalog_entry list" where
  "aside_entries c hol =
     (case hol of None \<Rightarrow> [] | Some h \<Rightarrow> filter (\<lambda>e. entry_id e \<ge> h_id h) (k_segments c))"

definition retire_from :: "catalog_entry list \<Rightarrow> segment_id option" where
  "retire_from aside = (case aside of [] \<Rightarrow> None | e # _ \<Rightarrow> Some (entry_id e))"

definition head_left :: "catalog \<Rightarrow> segment_id option \<Rightarrow> chain_link" where
  "head_left c from_id =
     (let kept = takeWhile (\<lambda>e. case from_id of None \<Rightarrow> True | Some f \<Rightarrow> entry_id e < f) (k_segments c)
      in if kept = [] then k_anchor c else entry_link (last kept))"

definition local_floor :: "wal_ledger option \<Rightarrow> lineage \<Rightarrow> hole option \<Rightarrow> probes \<Rightarrow> u64" where
  "local_floor ledger lin hol ps =
     (let local_from = (if lin = Joined then map_option h_id hol else Some 0)
      in case (ledger, local_from) of (Some l, Some f) \<Rightarrow> set_aside_maximum l f ps | _ \<Rightarrow> 0)"

definition owed_floor :: "wal_ledger option \<Rightarrow> lineage \<Rightarrow> hole option \<Rightarrow> probes \<Rightarrow> u64" where
  "owed_floor ledger lin hol ps =
     (if lin = Joined \<and> hol \<noteq> None then local_floor ledger lin hol ps
      else if lin = Behind False
      then max (local_floor ledger lin hol ps) (case ledger of None \<Rightarrow> 0 | Some l \<Rightarrow> l_last_seq (g_anchor l))
      else 0)"

definition history_of ::
    "catalog \<Rightarrow> wal_ledger option \<Rightarrow> lineage \<Rightarrow> hole option \<Rightarrow> chain_link \<Rightarrow> history_action" where
  "history_of c ledger lin hol head =
     (let open_at_least = k_next_segment_id c
      in case (lin, ledger) of
           (Fresh, _) \<Rightarrow> HistGenesis head open_at_least
         | (_, None) \<Rightarrow> HistGenesis head open_at_least
         | (Joined, Some l) \<Rightarrow>
             (case hol of
                None \<Rightarrow> HistKeep (if log_start l \<le> l_id (k_anchor c)
                                  then Some (saturating_add_u64 (l_id (k_anchor c)) 1) else None)
              | Some h \<Rightarrow>
                  if kept_before l (l_id (k_anchor c)) (h_id h) then HistSetAside (h_id h) open_at_least
                  else HistRebase head open_at_least)
         | (_, Some l) \<Rightarrow> HistRebase head open_at_least)"

definition plan_finish ::
    "planner \<Rightarrow> catalog \<Rightarrow> wal_ledger option \<Rightarrow> lineage \<Rightarrow> hole option \<Rightarrow> probes \<Rightarrow> recovery_plan" where
  "plan_finish p c ledger lin hol ps =
     (let set_aside_entries = aside_entries c hol;
          retire_catalog_from = retire_from set_aside_entries;
          head = head_left c retire_catalog_from;
          entries_floor = max_or_zero (map entry_max_sequence set_aside_entries);
          catalog_floor = max (max (max (k_seq_floor c) entries_floor) (owed_floor ledger lin hol ps)) (pl_cut_floor p)
      in \<lparr>rp_anchor = k_anchor c,
          rp_replay = (case hol of None \<Rightarrow> pl_replay p
                       | Some h \<Rightarrow> filter (\<lambda>s. ps_id s < h_id h) (pl_replay p)),
          rp_remote_segments = pl_remote p, rp_local_segments = pl_local p,
          rp_opened_in_salvage_mode = pl_salvaged p,
          rp_max_unreplayed_sequence =
            max (max catalog_floor (l_last_seq head)) (local_floor ledger lin hol ps),
          rp_catalog_floor = catalog_floor, rp_retire_catalog_from = retire_catalog_from,
          rp_set_aside_entries = set_aside_entries,
          rp_history = history_of c ledger lin hol head, rp_open_cut = pl_open_cut p\<rparr>)"

definition planner_start :: "bool \<Rightarrow> catalog \<Rightarrow> planner" where
  "planner_start salvage c =
     \<lparr>pl_salvage = salvage, pl_chain = chain_new (Some (k_anchor c)), pl_replay = [], pl_remote = [],
      pl_local = [], pl_salvaged = False, pl_open_cut = None, pl_cut_floor = 0\<rparr>"

datatype recovery_policy = Strict | Salvage

definition plan ::
    "recovery_policy \<Rightarrow> catalog \<Rightarrow> wal_ledger option \<Rightarrow> probes \<Rightarrow> plan_error + recovery_plan" where
  "plan policy c ledger ps =
     (let lin = lineage_of c ledger; salvage = (policy = Salvage);
          joined = (if lin = Joined then ledger else None);
          (p, hol) = admit_catalog (planner_start salvage c) c joined ps
      in try_with
           (case (hol, joined) of
              (None, Some l) \<Rightarrow> admit_tail p (catalog_head c) l ps
            | _ \<Rightarrow> Inr (p, hol)) (\<lambda>(p, hol).
         try_with
           (if lin = Behind False
            then if \<not> salvage
                 then Inl (CatalogBehind ''the cloud WAL catalog ends before the history this cache retired'')
                 else Inr (p\<lparr>pl_salvaged := True\<rparr>)
            else Inr p) (\<lambda>p.
         try_with
           (case hol of
              None \<Rightarrow> Inr p
            | Some h \<Rightarrow> if \<not> salvage then Inl (Unreplayable (h_reason h)) else Inr (p\<lparr>pl_salvaged := True\<rparr>)) (\<lambda>p.
           Inr (plan_finish p c ledger lin hol ps)))))"


section \<open>What replays\<close>

text \<open>
  Replaying a plan against the probes: each segment's header is admitted to the chain, and a
  sealed one seals it with the link its footer was found to seal.
\<close>

definition segment_probe :: "probes \<Rightarrow> planned_segment \<Rightarrow> probe option" where
  "segment_probe ps s =
     map_of (case ps_source s of Remote \<Rightarrow> pb_remote ps | Local \<Rightarrow> pb_local ps) (ps_id s)"

fun replay_run :: "probes \<Rightarrow> chain_state \<Rightarrow> planned_segment list \<Rightarrow> chain_state option" where
  "replay_run ps c [] = Some c"
| "replay_run ps c (s # ss) =
     (case segment_probe ps s of
        Some (ProbeSealed h link) \<Rightarrow>
          if ps_sealed s
          then (case chain_admit c h (ps_id s) of
                  Inl _ \<Rightarrow> None | Inr c' \<Rightarrow> replay_run ps (chain_seal c' link) ss)
          else None
      | Some (ProbeOpen opn) \<Rightarrow>
          if ps_sealed s then None
          else (case chain_admit c (op_header opn) (ps_id s) of
                  Inl _ \<Rightarrow> None | Inr c' \<Rightarrow> replay_run ps c' ss)
      | _ \<Rightarrow> None)"

lemma replay_run_append:
  "replay_run ps c (ss @ ts) = Option.bind (replay_run ps c ss) (\<lambda>c'. replay_run ps c' ts)"
  by (induction ps c ss rule: replay_run.induct) (auto split: option.splits probe.splits sum.splits)

lemma admit_sealed_Inr:
  "admit_sealed chain h sid link = Inr chain' \<longleftrightarrow>
     (\<exists>c. chain_admit chain h sid = Inr c \<and> chain' = chain_seal c link)"
  by (auto simp: admit_sealed_def)

lemma published_header_Inr:
  "published_header e probe = Inr h \<longleftrightarrow>
     probe = Some (ProbeSealed h (entry_link e)) \<and> sh_id h = entry_id e \<and> sh_epoch h = ce_epoch e \<and>
     sh_prev h = ce_prev e"
  by (auto simp: published_header_def split: option.splits probe.splits if_splits)

lemma sealed_member_Inr:
  "sealed_member l m probe = Inr h \<longleftrightarrow>
     (\<exists>link. probe = Some (ProbeSealed h link) \<and> expected_header l m h = Inr () \<and>
        map_option sf_link (m_sealed m) = Some link)"
  by (auto simp: sealed_member_def split: option.splits probe.splits if_splits)

text \<open>What one pass over segments does to the planner: the segments it plans and the chain.\<close>

definition extends :: "probes \<Rightarrow> planner \<Rightarrow> planned_segment list \<Rightarrow> planner \<Rightarrow> bool" where
  "extends ps p new p' \<longleftrightarrow>
     pl_replay p' = pl_replay p @ new \<and> replay_run ps (pl_chain p) new = Some (pl_chain p') \<and>
     pl_salvage p' = pl_salvage p \<and> pl_open_cut p' = pl_open_cut p \<and> pl_cut_floor p' = pl_cut_floor p"

lemma extends_refl [simp]: "extends ps p [] p"
  by (simp add: extends_def)

lemma extends_trans: "extends ps p xs q \<Longrightarrow> extends ps q ys r \<Longrightarrow> extends ps p (xs @ ys) r"
  by (simp add: extends_def replay_run_append)

lemma extends_one:
  assumes "segment_probe ps s = Some (ProbeSealed h link)" "ps_sealed s"
    "chain_admit (pl_chain p) h (ps_id s) = Inr c"
  shows "extends ps p [s] (plan_segment s (chain_seal c link) p)"
  using assms by (simp add: extends_def plan_segment_def)

lemma extends_marks:
  "extends ps p new (p'\<lparr>pl_remote := r\<rparr>) = extends ps p new p'"
  "extends ps p new (p'\<lparr>pl_local := r\<rparr>) = extends ps p new p'"
  "extends ps p new (p'\<lparr>pl_salvaged := b\<rparr>) = extends ps p new p'"
  by (simp_all add: extends_def)

lemma fall_back_extends:
  assumes "fall_back p l e ps = Some p'"
  shows "\<exists>s. extends ps p [s] p' \<and> ps_id s = entry_id e \<and> ps_sealed s"
proof -
  from assms obtain m sealed h chain where m: "m_sealed m = Some sealed" "sf_link sealed = entry_link e"
    and h: "sealed_member l m (map_of (pb_local ps) (entry_id e)) = Inr h"
    and c: "admit_sealed (pl_chain p) h (entry_id e) (sf_link sealed) = Inr chain"
    and p': "p' = (plan_segment \<lparr>ps_id = entry_id e, ps_source = Local, ps_sealed = True,
        ps_expect = expect_member l m\<rparr> chain p)\<lparr>pl_local := bt_insert (entry_id e)
        \<lparr>sg_max_sequence = l_last_seq (sf_link sealed), sg_writer_epoch = sh_epoch h\<rparr> (pl_local p)\<rparr>"
      (is "_ = (plan_segment ?s _ _)\<lparr>pl_local := _\<rparr>")
    by (auto simp: fall_back_def bind_eq_Some_conv split: if_splits sum.splits)
  from h m have "segment_probe ps ?s = Some (ProbeSealed h (sf_link sealed))"
    by (auto simp: sealed_member_Inr segment_probe_def)
  with c extends_one [of ps ?s h "sf_link sealed" p] have "extends ps p [?s] (plan_segment ?s chain p)"
    by (auto simp: admit_sealed_Inr)
  then show ?thesis unfolding p' extends_marks by (intro exI [of _ ?s]) simp
qed

text \<open>The outcome of admitting entries: a leading part of them is planned, up to the hole.\<close>

definition planned_entries :: "probes \<Rightarrow> planner \<Rightarrow> catalog_entry list \<Rightarrow> planner \<Rightarrow> hole option \<Rightarrow> bool" where
  "planned_entries ps p es p' hol \<longleftrightarrow>
     (\<exists>new adm. extends ps p new p' \<and> map ps_id new = map entry_id adm \<and> (\<forall>s \<in> set new. ps_sealed s) \<and>
        (hol = None \<longrightarrow> adm = es) \<and>
        (\<forall>h. hol = Some h \<longrightarrow> (\<exists>e rest. es = adm @ e # rest \<and> h_id h = entry_id e)) \<and>
        (\<not> pl_salvage p \<longrightarrow> pl_salvaged p' = pl_salvaged p \<and> (\<forall>s \<in> set new. ps_source s = Remote)))"

lemma planned_entries_Nil: "planned_entries ps p [] p None"
  unfolding planned_entries_def by (intro exI [of _ "[]"]) simp

lemma planned_entries_hole: "planned_entries ps p (e # es) p (Some \<lparr>h_id = entry_id e, h_reason = r\<rparr>)"
  unfolding planned_entries_def by (intro exI [of _ "[]"]) auto

lemma planned_entries_Cons:
  assumes q: "extends ps p [s] q" "ps_id s = entry_id e" "ps_sealed s"
    and sv: "\<not> pl_salvage p \<longrightarrow> pl_salvaged q = pl_salvaged p \<and> ps_source s = Remote"
    and rest: "planned_entries ps q es p' hol"
  shows "planned_entries ps p (e # es) p' hol"
proof -
  from rest obtain new adm where n: "extends ps q new p'" "map ps_id new = map entry_id adm"
    "\<forall>s \<in> set new. ps_sealed s" "hol = None \<longrightarrow> adm = es"
    "\<forall>h. hol = Some h \<longrightarrow> (\<exists>x rest. es = adm @ x # rest \<and> h_id h = entry_id x)"
    "\<not> pl_salvage q \<longrightarrow> pl_salvaged p' = pl_salvaged q \<and> (\<forall>s \<in> set new. ps_source s = Remote)"
    unfolding planned_entries_def by blast
  have "pl_salvage q = pl_salvage p" using q(1) by (simp add: extends_def)
  with extends_trans [OF q(1) n(1)] n q(2,3) sv show ?thesis
    unfolding planned_entries_def by (intro exI [of _ "s # new"] exI [of _ "e # adm"]) auto
qed

lemma admit_entries_planned: "admit_entries p joined ps es = (p', hol) \<Longrightarrow> planned_entries ps p es p' hol"
proof (induction es arbitrary: p)
  case Nil
  then show ?case by (simp add: planned_entries_Nil)
next
  case (Cons e es)
  let ?step = "try_with (published_header e (map_of (pb_remote ps) (entry_id e))) (\<lambda>header.
    admit_sealed (pl_chain p) header (entry_id e) (entry_link e))"
  let ?copy = "if pl_salvage p then Option.bind joined (\<lambda>l. fall_back p l e ps) else None"
  consider (adm) chain where "?step = Inr chain" | (local) r q where "?step = Inl r" "?copy = Some q"
    | (hole) r where "?step = Inl r" "?copy = None" by (cases ?step; cases ?copy) blast+
  then show ?case
  proof cases
    case adm
    let ?s = "\<lparr>ps_id = entry_id e, ps_source = Remote, ps_sealed = True, ps_expect = ExpectPublished e\<rparr>"
    from adm obtain h c where "published_header e (map_of (pb_remote ps) (entry_id e)) = Inr h"
      "chain_admit (pl_chain p) h (entry_id e) = Inr c" "chain = chain_seal c (entry_link e)"
      by (auto simp: admit_sealed_Inr)
    with extends_one [of ps ?s h "entry_link e" p c] have "extends ps p [?s] (plan_segment ?s chain p)"
      by (auto simp: published_header_Inr segment_probe_def)
    moreover have "planned_entries ps ((plan_segment ?s chain p)\<lparr>pl_remote := bt_insert (entry_id e)
        \<lparr>sg_max_sequence = entry_max_sequence e, sg_writer_epoch = ce_epoch e\<rparr> (pl_remote p)\<rparr>) es p' hol"
      (is "planned_entries ps ?q es p' hol") using Cons adm by simp
    moreover have "pl_salvaged ?q = pl_salvaged p" by (simp add: plan_segment_def)
    ultimately show ?thesis using planned_entries_Cons [of ps p ?s ?q e es p' hol]
      by (simp add: extends_marks)
  next
    case local
    then obtain l where l: "pl_salvage p" "fall_back p l e ps = Some q" by (auto split: if_splits simp: bind_eq_Some_conv)
    from fall_back_extends [OF l(2)] obtain s where s: "extends ps p [s] q" "ps_id s = entry_id e" "ps_sealed s"
      by blast
    have "planned_entries ps (q\<lparr>pl_salvaged := True\<rparr>) es p' hol" using Cons local by simp
    with s l(1) planned_entries_Cons [of ps p s "q\<lparr>pl_salvaged := True\<rparr>" e es p' hol] show ?thesis
      by (simp add: extends_marks)
  next
    case hole
    with Cons.prems show ?thesis by (auto intro: planned_entries_hole)
  qed
qed

section \<open>The tail\<close>

text \<open>The open member: what is planned of it, and when it is a hole.\<close>

definition open_planned :: "planner \<Rightarrow> member \<Rightarrow> open_probe \<Rightarrow> planner \<Rightarrow> bool" where
  "open_planned p m opn p' \<longleftrightarrow>
     is_ok (chain_admit (pl_chain p) (op_header opn) (member_id m)) \<and>
     (if op_record_count opn > 0
      then \<exists>s. pl_replay p' = pl_replay p @ [s] \<and> ps_id s = member_id m \<and> ps_source s = Local \<and> \<not> ps_sealed s
      else pl_replay p' = pl_replay p) \<and>
     pl_cut_floor p' = (case op_end opn of OpenDamaged _ suffix_max \<Rightarrow> suffix_max | _ \<Rightarrow> pl_cut_floor p) \<and>
     (\<not> pl_salvage p \<longrightarrow> pl_salvaged p' = pl_salvaged p \<and> (\<forall>r n. op_end opn \<noteq> OpenDamaged r n))"

lemma plan_open_replay:
  "pl_replay (plan_open p l m opn retain) =
     (if op_record_count opn > 0
      then pl_replay p @ [\<lparr>ps_id = member_id m, ps_source = Local, ps_sealed = False,
             ps_expect = ps_expect (last (pl_replay (plan_open p l m opn retain)))\<rparr>]
      else pl_replay p)"
  "pl_salvaged (plan_open p l m opn retain) = pl_salvaged p"
  "pl_cut_floor (plan_open p l m opn retain) = pl_cut_floor p"
  unfolding plan_open_def Let_def by auto

lemma admit_open_outcome:
  assumes "admit_open p l m probe = Inr (p', hol)"
  obtains (hole) r where "hol = Some \<lparr>h_id = member_id m, h_reason = r\<rparr>" "p' = p"
  | (planned) opn where "hol = None" "probe = Some (ProbeOpen opn)" "open_planned p m opn p'"
proof -
  have "\<exists>opn. probe = Some (ProbeOpen opn) \<and> open_planned p m opn p'" if hol: "hol = None"
  proof -
    from assms hol obtain opn chain q retain where opn: "probe = Some (ProbeOpen opn)"
      and chain: "chain_admit (pl_chain p) (op_header opn) (member_id m) = Inr chain"
      and q: "open_retain (p\<lparr>pl_chain := chain\<rparr>) opn = Inr (q, retain)" "p' = plan_open q l m opn retain"
      by (auto simp: admit_open_def split: option.splits probe.splits sum.splits)
    from q(1) have "pl_replay q = pl_replay p"
      "pl_cut_floor q = (case op_end opn of OpenDamaged _ suffix_max \<Rightarrow> suffix_max | _ \<Rightarrow> pl_cut_floor p)"
      "\<not> pl_salvage p \<longrightarrow> pl_salvaged q = pl_salvaged p \<and> (\<forall>r n. op_end opn \<noteq> OpenDamaged r n)"
      by (auto simp: open_retain_def split: open_end.splits if_splits)
    with plan_open_replay [of q l m opn retain] chain opn show ?thesis
      unfolding open_planned_def q(2) by (auto split: if_splits)
  qed
  moreover have "\<exists>r. hol = Some \<lparr>h_id = member_id m, h_reason = r\<rparr> \<and> p' = p" if "hol \<noteq> None"
    using assms that by (auto simp: admit_open_def split: option.splits probe.splits sum.splits)
  ultimately show ?thesis using that by blast
qed


text \<open>
  The outcome of admitting members: a leading part of them is planned; what is left starts at
  the hole, or is the open member without records.
\<close>

definition empty_open :: "probes \<Rightarrow> member \<Rightarrow> bool" where
  "empty_open ps m \<longleftrightarrow> m_sealed m = None \<and>
     (\<exists>opn. map_of (pb_local ps) (member_id m) = Some (ProbeOpen opn) \<and> op_record_count opn = 0)"

definition planned_members :: "probes \<Rightarrow> planner \<Rightarrow> member list \<Rightarrow> planner \<Rightarrow> hole option \<Rightarrow> bool" where
  "planned_members ps p ms p' hol \<longleftrightarrow>
     (\<exists>new adm rest. ms = adm @ rest \<and> pl_replay p' = pl_replay p @ new \<and>
        map ps_id new = map member_id adm \<and> replay_run ps (pl_chain p) new \<noteq> None \<and>
        (hol = None \<longrightarrow> (\<forall>m \<in> set rest. empty_open ps m)) \<and>
        (\<forall>h. hol = Some h \<longrightarrow> (\<exists>m ms'. rest = m # ms' \<and> h_id h = member_id m)) \<and>
        (\<not> pl_salvage p \<longrightarrow> pl_salvaged p' = pl_salvaged p))"

lemma planned_members_Nil: "planned_members ps p [] p None"
  unfolding planned_members_def by (intro exI [of _ "[]"]) simp

lemma planned_members_hole: "planned_members ps p (m # ms) p (Some \<lparr>h_id = member_id m, h_reason = r\<rparr>)"
  unfolding planned_members_def
  by (rule exI [of _ "[]"], rule exI [of _ "[]"], rule exI [of _ "m # ms"]) simp

lemma planned_members_Cons:
  assumes q: "extends ps p [s] q" "ps_id s = member_id m" "pl_salvaged q = pl_salvaged p"
    and rest: "planned_members ps q ms p' hol"
  shows "planned_members ps p (m # ms) p' hol"
proof -
  from rest obtain new adm tl where n: "ms = adm @ tl" "pl_replay p' = pl_replay q @ new"
    "map ps_id new = map member_id adm" "replay_run ps (pl_chain q) new \<noteq> None"
    "hol = None \<longrightarrow> (\<forall>m \<in> set tl. empty_open ps m)"
    "\<forall>h. hol = Some h \<longrightarrow> (\<exists>m ms'. tl = m # ms' \<and> h_id h = member_id m)"
    "\<not> pl_salvage q \<longrightarrow> pl_salvaged p' = pl_salvaged q"
    unfolding planned_members_def by blast
  have "replay_run ps (pl_chain p) ([s] @ new) = replay_run ps (pl_chain q) new"
    using q(1) unfolding replay_run_append by (simp add: extends_def)
  with n q show ?thesis unfolding planned_members_def
    by (intro exI [of _ "s # new"] exI [of _ "m # adm"] exI [of _ tl]) (auto simp: extends_def)
qed

lemma planned_members_open:
  assumes m: "m_sealed m = None" and opn: "map_of (pb_local ps) (member_id m) = Some (ProbeOpen opn)"
    and p': "open_planned p m opn p'"
  shows "planned_members ps p [m] p' None"
proof (cases "op_record_count opn > 0")
  case True
  with p' obtain s c where s: "pl_replay p' = pl_replay p @ [s]" "ps_id s = member_id m" "ps_source s = Local"
    "\<not> ps_sealed s" "chain_admit (pl_chain p) (op_header opn) (member_id m) = Inr c"
    "\<not> pl_salvage p \<longrightarrow> pl_salvaged p' = pl_salvaged p" by (auto simp: open_planned_def is_ok_iff)
  with opn show ?thesis unfolding planned_members_def
    by (intro exI [of _ "[s]"] exI [of _ "[m]"] exI [of _ "[]"]) (simp add: segment_probe_def)
next
  case False
  show ?thesis unfolding planned_members_def
    by (rule exI [of _ "[]"], rule exI [of _ "[]"], rule exI [of _ "[m]"])
      (use assms False in \<open>simp add: open_planned_def empty_open_def word_gt_0\<close>)
qed

lemma admit_members_planned:
  "\<lbrakk>admit_members p l ps ms = Inr (p', hol); all_sealed (butlast ms)\<rbrakk> \<Longrightarrow> planned_members ps p ms p' hol"
proof (induction ms arbitrary: p)
  case Nil
  then show ?case by (simp add: planned_members_Nil)
next
  case (Cons m ms)
  show ?case
  proof (cases "m_sealed m")
    case None
    then have ms: "ms = []" using Cons.prems(2) by (auto simp: all_sealed_def split: if_splits)
    have "admit_open p l m (map_of (pb_local ps) (member_id m)) = Inr (p', hol)"
      using Cons.prems(1) None by (simp add: Let_def)
    then show ?thesis
      by (cases rule: admit_open_outcome)
        (use None ms in \<open>auto intro: planned_members_hole planned_members_open\<close>)
  next
    case (Some sealed)
    let ?step = "try_with (sealed_member l m (map_of (pb_local ps) (member_id m))) (\<lambda>header.
      try_with (admit_sealed (pl_chain p) header (member_id m) (sf_link sealed)) (\<lambda>chain. Inr (header, chain)))"
    have rest: "all_sealed (butlast ms)" using Cons.prems(2) by (auto simp: all_sealed_def split: if_splits)
    show ?thesis
    proof (cases ?step)
      case (Inl r)
      with Cons.prems Some show ?thesis by (auto simp: Let_def intro: planned_members_hole)
    next
      case (Inr hc)
      then obtain h c where h: "sealed_member l m (map_of (pb_local ps) (member_id m)) = Inr h"
        "chain_admit (pl_chain p) h (member_id m) = Inr c" and hc: "hc = (h, chain_seal c (sf_link sealed))"
        by (auto simp: admit_sealed_Inr)
      let ?s = "\<lparr>ps_id = member_id m, ps_source = Local, ps_sealed = True, ps_expect = expect_member l m\<rparr>"
      let ?q = "(plan_segment ?s (chain_seal c (sf_link sealed)) p)\<lparr>pl_local := bt_insert (member_id m)
         \<lparr>sg_max_sequence = l_last_seq (sf_link sealed), sg_writer_epoch = sh_epoch h\<rparr> (pl_local p)\<rparr>"
      have "extends ps p [?s] ?q" unfolding extends_marks
        by (rule extends_one) (use h Some in \<open>auto simp: sealed_member_Inr segment_probe_def\<close>)
      moreover have "pl_salvaged ?q = pl_salvaged p" by (simp add: plan_segment_def)
      moreover have "planned_members ps ?q ms p' hol"
        by (rule Cons.IH [OF _ rest]) (use Cons.prems(1) Inr Some hc in \<open>simp add: Let_def\<close>)
      ultimately show ?thesis by (intro planned_members_Cons [of ps p ?s ?q]) simp_all
    qed
  qed
qed


section \<open>The whole plan\<close>

definition tail_members :: "catalog \<Rightarrow> wal_ledger \<Rightarrow> member list" where
  "tail_members c l = filter (\<lambda>m. member_id m > l_id (catalog_head c)) (g_members l)"

text \<open>Where planning ends: without a hole, at a hole among the entries, or at one in the tail.\<close>

inductive stops :: "catalog \<Rightarrow> wal_ledger option \<Rightarrow> probes \<Rightarrow> hole option \<Rightarrow>
    catalog_entry list \<Rightarrow> member list \<Rightarrow> bool" for c ledger ps where
  whole: "\<lbrakk>lineage_of c ledger = Joined; ledger = Some l; tail_members c l = adm @ rest;
     \<forall>m \<in> set rest. empty_open ps m\<rbrakk> \<Longrightarrow> stops c ledger ps None (k_segments c) adm"
| alone: "lineage_of c ledger \<noteq> Joined \<Longrightarrow> stops c ledger ps None (k_segments c) []"
| in_entries: "\<lbrakk>k_segments c = adm @ e # rest; h_id h = entry_id e\<rbrakk> \<Longrightarrow> stops c ledger ps (Some h) adm []"
| in_tail: "\<lbrakk>lineage_of c ledger = Joined; ledger = Some l; tail_members c l = adm @ m # rest;
     h_id h = member_id m\<rbrakk> \<Longrightarrow> stops c ledger ps (Some h) (k_segments c) adm"

definition plan_outcome ::
    "recovery_policy \<Rightarrow> catalog \<Rightarrow> wal_ledger option \<Rightarrow> probes \<Rightarrow> planner \<Rightarrow> hole option \<Rightarrow>
     planned_segment list \<Rightarrow> planned_segment list \<Rightarrow> catalog_entry list \<Rightarrow> member list \<Rightarrow> bool" where
  "plan_outcome policy c ledger ps p hol new1 new2 adm1 adm2 \<longleftrightarrow>
     pl_replay p = new1 @ new2 \<and> map ps_id new1 = map entry_id adm1 \<and> map ps_id new2 = map member_id adm2 \<and>
     replay_run ps (chain_new (Some (k_anchor c))) (new1 @ new2) \<noteq> None \<and>
     stops c ledger ps hol adm1 adm2 \<and>
     (policy = Strict \<longrightarrow> hol = None \<and> \<not> pl_salvaged p \<and> lineage_of c ledger \<noteq> Behind False \<and>
        (\<forall>s \<in> set new1. ps_source s = Remote))"

lemma tail_members_sealed: "ledger_ok l \<Longrightarrow> all_sealed (butlast (tail_members c l))"
proof -
  assume "ledger_ok l"
  then obtain ss m where m: "g_members l = ss @ [m]" "all_sealed ss" by (auto simp: ledger_ok_iff)
  then have "set (butlast (tail_members c l)) \<subseteq> set ss"
    by (auto simp: tail_members_def dest: in_set_butlastD)
  with m(2) show ?thesis by (auto simp: all_sealed_def)
qed

lemma planned_tail_stops:
  assumes "planned_members ps p (tail_members c l) p' hol" "lineage_of c ledger = Joined" "ledger = Some l"
  shows "\<exists>new adm. pl_replay p' = pl_replay p @ new \<and> map ps_id new = map member_id adm \<and>
    replay_run ps (pl_chain p) new \<noteq> None \<and> stops c ledger ps hol (k_segments c) adm \<and>
    (\<not> pl_salvage p \<longrightarrow> pl_salvaged p' = pl_salvaged p)"
proof -
  from assms(1) obtain new adm rest where n: "tail_members c l = adm @ rest" "pl_replay p' = pl_replay p @ new"
    "map ps_id new = map member_id adm" "replay_run ps (pl_chain p) new \<noteq> None"
    "hol = None \<longrightarrow> (\<forall>m \<in> set rest. empty_open ps m)"
    "\<forall>h. hol = Some h \<longrightarrow> (\<exists>m ms'. rest = m # ms' \<and> h_id h = member_id m)"
    "\<not> pl_salvage p \<longrightarrow> pl_salvaged p' = pl_salvaged p"
    unfolding planned_members_def by (elim exE conjE) (rule that; assumption)
  have "stops c ledger ps hol (k_segments c) adm"
    using assms(2,3) n(1,5,6) by (cases hol) (auto intro: stops.whole stops.in_tail)
  with n(2-4,7) show ?thesis by (intro exI [of _ new] exI [of _ adm]) simp
qed

lemma plan_Inr:
  assumes plan: "plan policy c ledger ps = Inr pl" and ledger: "\<forall>l. ledger = Some l \<longrightarrow> ledger_ok l"
  obtains p hol new1 new2 adm1 adm2 where
    "pl = plan_finish p c ledger (lineage_of c ledger) hol ps"
    "plan_outcome policy c ledger ps p hol new1 new2 adm1 adm2"
proof -
  define start where "start = planner_start (policy = Salvage) c"
  define joined where "joined = (if lineage_of c ledger = Joined then ledger else None)"
  obtain p1 hol1 where e: "admit_entries start joined ps (k_segments c) = (p1, hol1)" by fastforce
  from admit_entries_planned [OF e] obtain new1 adm1 where n1: "extends ps start new1 p1"
    "map ps_id new1 = map entry_id adm1" "hol1 = None \<longrightarrow> adm1 = k_segments c"
    "\<forall>h. hol1 = Some h \<longrightarrow> (\<exists>e rest. k_segments c = adm1 @ e # rest \<and> h_id h = entry_id e)"
    "\<not> pl_salvage start \<longrightarrow> pl_salvaged p1 = pl_salvaged start \<and> (\<forall>s \<in> set new1. ps_source s = Remote)"
    unfolding planned_entries_def by blast
  from plan obtain p2 hol p where t: "(case (hol1, joined) of (None, Some l) \<Rightarrow> admit_tail p1 (catalog_head c) l ps
        | _ \<Rightarrow> Inr (p1, hol1)) = Inr (p2, hol)"
    and p: "pl = plan_finish p c ledger (lineage_of c ledger) hol ps" "pl_replay p = pl_replay p2"
    and strict: "policy = Strict \<longrightarrow> hol = None \<and> pl_salvaged p = pl_salvaged p2 \<and> lineage_of c ledger \<noteq> Behind False"
    unfolding plan_def admit_catalog_def Let_def start_def [symmetric] joined_def [symmetric] e
    by (auto split: if_splits option.splits)
  have start: "pl_replay start = []" "pl_chain start = chain_new (Some (k_anchor c))" "\<not> pl_salvaged start"
    "pl_salvage start = (policy = Salvage)" by (simp_all add: start_def planner_start_def)
  note r1 = n1(1) [unfolded extends_def start]
  show ?thesis
  proof (cases "\<exists>l. hol1 = None \<and> joined = Some l")
    case True
    then obtain l where l: "hol1 = None" "joined = Some l" by blast
    then have j: "lineage_of c ledger = Joined" "ledger = Some l" by (auto simp: joined_def split: if_splits)
    have "admit_members p1 l ps (tail_members c l) = Inr (p2, hol)"
      using t l by (simp add: admit_tail_def tail_members_def)
    then have "planned_members ps p1 (tail_members c l) p2 hol"
      by (rule admit_members_planned [OF _ tail_members_sealed]) (use j ledger in simp)
    from planned_tail_stops [OF this j] obtain new2 adm2 where
      n2: "pl_replay p2 = pl_replay p1 @ new2" "map ps_id new2 = map member_id adm2"
      "replay_run ps (pl_chain p1) new2 \<noteq> None" "stops c ledger ps hol (k_segments c) adm2"
      "\<not> pl_salvage p1 \<longrightarrow> pl_salvaged p2 = pl_salvaged p1" by blast
    then have "plan_outcome policy c ledger ps p hol new1 new2 adm1 adm2"
      unfolding plan_outcome_def using p(2) n2 n1(2,3,5) r1 strict start l by (auto simp: replay_run_append)
    with p(1) that show ?thesis by blast
  next
    case False
    then have p2: "p2 = p1" "hol = hol1" using t by (auto split: option.splits)
    have "stops c ledger ps hol adm1 []"
    proof (cases hol1)
      case None
      with False have "lineage_of c ledger \<noteq> Joined"
        by (auto simp: joined_def lineage_of_def split: if_splits option.splits)
      with None p2 n1(3) show ?thesis by (auto intro: stops.alone)
    qed (use p2 n1(4) in \<open>auto intro: stops.in_entries\<close>)
    then have "plan_outcome policy c ledger ps p hol new1 [] adm1 []"
      unfolding plan_outcome_def using p(2) p2 n1(2,5) r1 strict start by auto
    with p(1) that show ?thesis by blast
  qed
qed


section \<open>Order\<close>

lemma sealed_last_seq:
  assumes "seals f s = Inr ()" "opens_after f p e = Inr ()"
  shows "l_last_seq p \<le> l_last_seq (sf_link s)"
proof (cases "sf_record_count s = 0")
  case False
  with assms(1) have "o_first_seq f \<le> l_last_seq (sf_link s)" by (auto simp: seals_def split: if_splits)
  moreover have "l_last_seq p < o_first_seq f" using assms(2) by (simp add: opens_after_iff)
  ultimately show ?thesis by order
qed (use assms in \<open>auto simp: seals_def opens_after_iff split: if_splits\<close>)

lemma check_members_links:
  "\<lbrakk>check_members p e ms = Inr (); all_sealed ms\<rbrakk> \<Longrightarrow>
   sorted_wrt (\<le>) (map (\<lambda>m. l_last_seq (sf_link (the (m_sealed m)))) ms) \<and>
   (\<forall>m \<in> set ms. l_last_seq p \<le> l_last_seq (sf_link (the (m_sealed m))) \<and>
      l_id (sf_link (the (m_sealed m))) = member_id m)"
proof (induction ms arbitrary: p e)
  case (Cons m ms)
  then obtain s where s: "m_sealed m = Some s" by (auto simp: all_sealed_def)
  with Cons.prems(1) have m: "opens_after (m_open m) p e = Inr ()" "seals (m_open m) s = Inr ()"
    "check_members (sf_link s) (Some (o_epoch (m_open m))) ms = Inr ()" by (auto split: if_splits)
  have "all_sealed ms" using Cons.prems(2) by (simp add: all_sealed_def)
  from Cons.IH [OF m(3) this] sealed_last_seq [OF m(2,1)] seals_id [OF m(2)] s show ?case
    by (auto simp: member_id_def intro: order_trans)
qed simp

lemma sorted_wrt_by_key:
  assumes k: "sorted_wrt (<) (map f xs)" and g: "sorted_wrt (\<le>) (map g xs)"
    and "x \<in> set xs" "y \<in> set xs" "(f x :: u64) \<le> f y"
  shows "(g x :: u64) \<le> g y"
proof -
  from assms(3,4) obtain i j where ij: "i < length xs" "j < length xs" "x = xs ! i" "y = xs ! j"
    by (auto simp: in_set_conv_nth)
  consider "i < j" | "i = j" | "j < i" by linarith
  then show ?thesis
  proof cases
    case 1
    with sorted_wrt_nth_less [OF g, of i j] ij show ?thesis by simp
  next
    case 3
    with sorted_wrt_nth_less [OF k, of j i] ij assms(5) show ?thesis by simp
  qed (use ij in simp)
qed

lemma ledger_sealed_order:
  assumes ok: "ledger_ok l" and m: "m \<in> set (g_members l)" "m_sealed m = Some s"
  shows "l_id (sf_link s) = member_id m" "l_id (g_anchor l) < member_id m"
    "\<And>m' s'. m' \<in> set (g_members l) \<Longrightarrow> m_sealed m' = Some s' \<Longrightarrow> member_id m \<le> member_id m' \<Longrightarrow>
       l_last_seq (sf_link s) \<le> l_last_seq (sf_link s')"
proof -
  from ok obtain ss o' where l: "g_members l = ss @ [o']" "all_sealed ss" "m_sealed o' = None"
    "check_members (g_anchor l) None (ss @ [o']) = Inr ()" unfolding ledger_ok_iff by auto
  note chk = check_members_links [OF check_members_prefix [OF l(4)] l(2)]
  from check_members_ids [OF l(4,2)] m(1) l(1) show "l_id (g_anchor l) < member_id m" by auto
  have ss: "x \<in> set ss" if "x \<in> set (g_members l)" "m_sealed x \<noteq> None" for x using that l(1,3) by auto
  have ids: "sorted_wrt (<) (map member_id ss)"
    using ledger_ids(1) [OF ok] by (simp add: l(1) sorted_wrt_append)
  from chk ss m show "l_id (sf_link s) = member_id m" by force
  show "l_last_seq (sf_link s) \<le> l_last_seq (sf_link s')"
    if "m' \<in> set (g_members l)" "m_sealed m' = Some s'" "member_id m \<le> member_id m'" for m' s'
    using sorted_wrt_by_key [OF ids conjunct1 [OF chk], of m m'] ss m that by simp
qed

lemma finish_simps [simp]:
  "rp_anchor (plan_finish p c ledger lin hol ps) = k_anchor c"
  "rp_replay (plan_finish p c ledger lin hol ps) =
     (case hol of None \<Rightarrow> pl_replay p | Some h \<Rightarrow> filter (\<lambda>s. ps_id s < h_id h) (pl_replay p))"
  "rp_opened_in_salvage_mode (plan_finish p c ledger lin hol ps) = pl_salvaged p"
  "rp_set_aside_entries (plan_finish p c ledger lin hol ps) = aside_entries c hol"
  "rp_retire_catalog_from (plan_finish p c ledger lin hol ps) = retire_from (aside_entries c hol)"
  "rp_catalog_floor (plan_finish p c ledger lin hol ps) =
     max (max (max (k_seq_floor c) (max_or_zero (map entry_max_sequence (aside_entries c hol))))
       (owed_floor ledger lin hol ps)) (pl_cut_floor p)"
  "rp_history (plan_finish p c ledger lin hol ps) =
     history_of c ledger lin hol (head_left c (retire_from (aside_entries c hol)))"
  by (simp_all add: plan_finish_def Let_def)

lemma finish_unreplayed:
  "rp_max_unreplayed_sequence (plan_finish p c ledger lin hol ps) =
     max (max (rp_catalog_floor (plan_finish p c ledger lin hol ps))
       (l_last_seq (head_left c (retire_from (aside_entries c hol))))) (local_floor ledger lin hol ps)"
  by (simp add: plan_finish_def Let_def)

lemma outcome_ids:
  assumes ok: "catalog_ok c" "\<forall>l. ledger = Some l \<longrightarrow> ledger_ok l"
    and "stops c ledger ps hol adm1 adm2"
  shows "sorted_wrt (<) (map entry_id adm1 @ map member_id adm2)"
    "\<And>h. hol = Some h \<Longrightarrow> \<forall>x \<in> set (map entry_id adm1 @ map member_id adm2). x < h_id h"
proof -
  note ids = catalog_ok_ids [OF ok(1)]
  have tail: "sorted_wrt (<) (map member_id (tail_members c l))"
    "\<forall>m \<in> set (tail_members c l). \<forall>e \<in> set (k_segments c). entry_id e < member_id m" if "ledger = Some l" for l
    using ok(2) that ledger_ids(1) [of l] ids(4)
    by (auto simp: tail_members_def sorted_wrt_map sorted_wrt_filter)
  have "sorted_wrt (<) (map entry_id adm1 @ map member_id adm2) \<and>
    (\<forall>h. hol = Some h \<longrightarrow> (\<forall>x \<in> set (map entry_id adm1 @ map member_id adm2). x < h_id h))"
    using assms(3)
  proof cases
    case (whole l rest)
    with tail ids(1) show ?thesis by (auto simp: sorted_wrt_append)
  next
    case (in_entries e rest h)
    with ids(1) show ?thesis by (auto simp: sorted_wrt_append)
  next
    case (in_tail l m rest h)
    with tail ids(1) show ?thesis by (auto simp: sorted_wrt_append)
  qed (use ids(1) in auto)
  then show "sorted_wrt (<) (map entry_id adm1 @ map member_id adm2)"
    "\<And>h. hol = Some h \<Longrightarrow> \<forall>x \<in> set (map entry_id adm1 @ map member_id adm2). x < h_id h" by blast+
qed

lemma outcome_replay:
  assumes ok: "catalog_ok c" "\<forall>l. ledger = Some l \<longrightarrow> ledger_ok l"
    and o': "plan_outcome policy c ledger ps p hol new1 new2 adm1 adm2"
  shows "rp_replay (plan_finish p c ledger lin hol ps) = new1 @ new2"
proof -
  from o' have s: "stops c ledger ps hol adm1 adm2" and r: "pl_replay p = new1 @ new2"
    and ids: "map ps_id new1 = map entry_id adm1" "map ps_id new2 = map member_id adm2"
    by (simp_all add: plan_outcome_def)
  have "filter (\<lambda>s. ps_id s < h_id h) (pl_replay p) = pl_replay p" if "hol = Some h" for h
  proof -
    have "\<forall>x \<in> set (map ps_id (new1 @ new2)). x < h_id h"
      using outcome_ids(2) [OF ok s that] by (simp add: ids del: set_map)
    then show ?thesis by (simp add: r filter_id_conv)
  qed
  then show ?thesis by (cases hol) (simp_all add: r)
qed

text \<open>
  C7. What replays is one history: in every plan, strict or salvaged, the planned segments
  ascend in id, and admitting the headers that were probed, in plan order and from the
  catalog's anchor, succeeds, each sealed segment with the link its footer seals. So replay
  never meets a gap, a fork or a lower epoch.
\<close>

theorem plan_replays_one_chain:
  assumes "catalog_ok c" "\<forall>l. ledger = Some l \<longrightarrow> ledger_ok l" "plan policy c ledger ps = Inr pl"
  shows "sorted_wrt (<) (map ps_id (rp_replay pl)) \<and>
    replay_run ps (chain_new (Some (rp_anchor pl))) (rp_replay pl) \<noteq> None \<and> rp_anchor pl = k_anchor c"
proof -
  obtain p hol new1 new2 adm1 adm2 where pl: "pl = plan_finish p c ledger (lineage_of c ledger) hol ps"
    and out: "plan_outcome policy c ledger ps p hol new1 new2 adm1 adm2"
    using plan_Inr [OF assms(3,2)] .
  have r: "rp_replay pl = new1 @ new2" unfolding pl by (rule outcome_replay [OF assms(1,2) out])
  from out have "stops c ledger ps hol adm1 adm2" by (simp add: plan_outcome_def)
  from outcome_ids(1) [OF assms(1,2) this] out show ?thesis
    unfolding r by (simp add: plan_outcome_def pl)
qed


lemma sample_plan_catalog:
  obtains x where "catalog_ok (new_catalog\<lparr>k_next_segment_id := 2, k_segments := [x]\<rparr>)"
    "ce_epoch x = 4" "ce_prev x = genesis_link" "entry_id x = 1" "entry_max_sequence x = 9"
proof -
  obtain x where x: "sealed_entry stored_lib x" "ce_epoch x = 4" "ce_prev x = genesis_link"
    "entry_id x = 1" "entry_max_sequence x = 9" using sample_sealed_entry by blast
  from append_run_ok [OF new_catalog_empty(2) sample_append [OF x(2-5)]] x(1)
  have "catalog_ok (new_catalog\<lparr>k_next_segment_id := 2, k_segments := [x]\<rparr>)" by simp
  with x that show ?thesis by blast
qed

lemma sample_plan:
  assumes "ce_epoch x = 4" "ce_prev x = genesis_link" "entry_id x = 1" "entry_max_sequence x = 9"
  obtains pl where "plan Strict (new_catalog\<lparr>k_next_segment_id := 2, k_segments := [x]\<rparr>) None
      \<lparr>pb_remote = [(1, ProbeSealed sample_header (entry_link x))], pb_local = []\<rparr> = Inr pl"
    "map ps_id (rp_replay pl) = [1]"
proof -
  have "\<exists>pl. plan Strict (new_catalog\<lparr>k_next_segment_id := 2, k_segments := [x]\<rparr>) None
      \<lparr>pb_remote = [(1, ProbeSealed sample_header (entry_link x))], pb_local = []\<rparr> = Inr pl \<and>
      map ps_id (rp_replay pl) = [1]"
    using assms
    by (simp add: plan_def lineage_of_def admit_catalog_def planner_start_def published_header_def
        admit_sealed_def chain_admit_def chain_new_def follows_def header_open_facts_def sample_header_def
        genesis_link_def new_catalog_def plan_segment_def)
  then show ?thesis by (elim exE conjE) (rule that)
qed

theorem plan_replays_one_chain_witness:
  "\<exists>c ps pl. plan Strict c None ps = Inr pl \<and> map ps_id (rp_replay pl) = [1] \<and>
     replay_run ps (chain_new (Some (rp_anchor pl))) (rp_replay pl) \<noteq> None"
proof -
  obtain x where ok: "catalog_ok (new_catalog\<lparr>k_next_segment_id := 2, k_segments := [x]\<rparr>)"
    and x: "ce_epoch x = 4" "ce_prev x = genesis_link" "entry_id x = 1" "entry_max_sequence x = 9"
    by (rule sample_plan_catalog)
  let ?c = "new_catalog\<lparr>k_next_segment_id := 2, k_segments := [x]\<rparr>"
  let ?ps = "\<lparr>pb_remote = [(1, ProbeSealed sample_header (entry_link x))], pb_local = []\<rparr>"
  obtain pl where pl: "plan Strict ?c None ?ps = Inr pl" and r: "map ps_id (rp_replay pl) = [1]"
    using x by (rule sample_plan)
  have "\<forall>l. None = Some l \<longrightarrow> ledger_ok l" by simp
  from plan_replays_one_chain [OF ok this pl] pl r show ?thesis
    by (intro exI [of _ ?c] exI [of _ ?ps] exI [of _ pl]) auto
qed




section \<open>What is left out\<close>

lemma stops_aside:
  assumes ok: "catalog_ok c" "\<forall>l. ledger = Some l \<longrightarrow> ledger_ok l" and "stops c ledger ps hol adm1 adm2"
  shows "k_segments c = adm1 @ aside_entries c hol"
proof -
  note ids = catalog_ok_ids [OF ok(1)]
  show ?thesis using assms(3)
  proof cases
    case (in_entries e rest h)
    have "entry_id x < entry_id e" if "x \<in> set adm1" for x
      using ids(1) that by (auto simp: in_entries sorted_wrt_append)
    moreover have "entry_id e \<le> entry_id x" if "x \<in> set (e # rest)" for x
      using ids(1) that by (auto simp: in_entries sorted_wrt_append)
    ultimately have "filter (\<lambda>x. entry_id e \<le> entry_id x) (adm1 @ e # rest) = e # rest"
      by (auto simp: filter_empty_conv filter_id_conv not_le)
    then show ?thesis by (simp add: in_entries aside_entries_def)
  next
    case (in_tail l m rest h)
    have "m \<in> set (tail_members c l)" by (simp add: in_tail)
    then have "l_id (catalog_head c) < member_id m" by (simp add: tail_members_def)
    with ids(4) show ?thesis by (auto simp: in_tail aside_entries_def filter_empty_conv)
  qed (simp_all add: aside_entries_def)
qed

lemma kept_takeWhile:
  assumes "sorted_wrt (<) (map entry_id (a @ b))"
  shows "takeWhile (\<lambda>e. case retire_from b of None \<Rightarrow> True | Some f \<Rightarrow> entry_id e < f) (a @ b) = a"
proof (cases b)
  case (Cons e rest)
  have "\<forall>x \<in> set a. entry_id x < entry_id e" using assms by (auto simp: Cons sorted_wrt_append)
  then show ?thesis by (simp add: Cons retire_from_def takeWhile_append2)
qed (simp add: retire_from_def)

lemma stops_head:
  assumes ok: "catalog_ok c" "\<forall>l. ledger = Some l \<longrightarrow> ledger_ok l" and st: "stops c ledger ps hol adm1 adm2"
  shows "head_left c (retire_from (aside_entries c hol)) = head_after (k_anchor c) adm1"
proof -
  note segs = stops_aside [OF ok st]
  have "sorted_wrt (<) (map entry_id (adm1 @ aside_entries c hol))"
    using catalog_ok_ids(1) [OF ok(1)] segs by simp
  from kept_takeWhile [OF this] show ?thesis
    unfolding head_left_def Let_def segs [symmetric] by (simp add: head_after_def)
qed

lemma max_or_zero_ge: "x \<in> set xs \<Longrightarrow> x \<le> max_or_zero xs"
  unfolding max_or_zero_def Max.set_eq_fold [symmetric] by (rule Max_ge) simp_all

lemma set_aside_maximum_ge:
  assumes "m \<in> set (g_members l)" "m_sealed m = Some s" "f \<le> member_id m"
  shows "l_last_seq (sf_link s) \<le> set_aside_maximum l f ps"
proof -
  have "l_last_seq (sf_link s) \<le> member_maximum ps m" by (simp add: member_maximum_def assms(2) Let_def)
  also have "\<dots> \<le> set_aside_maximum l f ps"
    unfolding set_aside_maximum_def using assms by (intro max_or_zero_ge) auto
  finally show ?thesis .
qed

lemma joined_below_head:
  assumes ok: "ledger_ok l" and j: "lineage_of c (Some l) = Joined"
    and m: "m \<in> set (g_members l)" "m_sealed m = Some s" "member_id m \<le> l_id (catalog_head c)"
  shows "l_last_seq (sf_link s) \<le> l_last_seq (catalog_head c)"
proof -
  have "catalog_head c \<noteq> g_anchor l" using ledger_sealed_order(2) [OF ok m(1,2)] m(3) by auto
  with j have "catalog_head c \<in> set (sealed_links l)"
    by (auto simp: lineage_of_def Let_def split: if_splits)
  then obtain m' s' where m': "m' \<in> set (g_members l)" "m_sealed m' = Some s'" "sf_link s' = catalog_head c"
    by (auto simp: sealed_links_def List.map_filter_def)
  with ledger_sealed_order(1) [OF ok m'(1,2)] m(3) have "member_id m \<le> member_id m'" by simp
  from ledger_sealed_order(3) [OF ok m(1,2) m'(1,2) this] m'(3) show ?thesis by simp
qed

lemma unreplayed_ge_local:
  "local_floor ledger lin hol ps \<le> rp_max_unreplayed_sequence (plan_finish p c ledger lin hol ps)"
  unfolding finish_unreplayed by (rule max.cobounded2)

lemma unreplayed_ge_floor:
  "rp_catalog_floor (plan_finish p c ledger lin hol ps) \<le> rp_max_unreplayed_sequence (plan_finish p c ledger lin hol ps)"
  unfolding finish_unreplayed by (simp only: le_max_iff_disj order_refl simp_thms)

lemma floor_ge_entries:
  assumes "x \<in> set (aside_entries c hol)"
  shows "entry_max_sequence x \<le> rp_catalog_floor (plan_finish p c ledger lin hol ps)"
proof -
  have "entry_max_sequence x \<le> max_or_zero (map entry_max_sequence (aside_entries c hol))"
    using assms by (intro max_or_zero_ge) simp
  then show ?thesis by (simp add: le_max_iff_disj)
qed

lemma unreplayed_ge_head:
  assumes ok: "catalog_ok c" "\<forall>l. ledger = Some l \<longrightarrow> ledger_ok l" and st: "stops c ledger ps hol adm1 adm2"
  shows "l_last_seq (head_after (k_anchor c) adm1) \<le> rp_max_unreplayed_sequence (plan_finish p c ledger lin hol ps)"
    "l_last_seq (catalog_head c) \<le> rp_max_unreplayed_sequence (plan_finish p c ledger lin hol ps)"
proof -
  note segs = stops_aside [OF ok st]
  show a: "l_last_seq (head_after (k_anchor c) adm1) \<le> rp_max_unreplayed_sequence (plan_finish p c ledger lin hol ps)"
    unfolding finish_unreplayed stops_head [OF ok st] by (simp only: le_max_iff_disj order_refl simp_thms)
  show "l_last_seq (catalog_head c) \<le> rp_max_unreplayed_sequence (plan_finish p c ledger lin hol ps)"
  proof (cases "aside_entries c hol = []")
    case True
    with segs a show ?thesis by (simp add: catalog_head_after)
  next
    case False
    then have hd: "catalog_head c = entry_link (last (aside_entries c hol))"
      using segs by (simp add: catalog_head_after head_after_def)
    from order_trans [OF floor_ge_entries [OF last_in_set [OF False]] unreplayed_ge_floor]
    show ?thesis unfolding hd entry_link_id .
  qed
qed

lemma left_out_covered:
  assumes ok: "catalog_ok c" "\<forall>l. ledger = Some l \<longrightarrow> ledger_ok l"
    and out: "plan_outcome policy c ledger ps p hol new1 new2 adm1 adm2"
    and l: "ledger = Some l" and m: "m \<in> set (g_members l)" "m_sealed m = Some s"
  shows "member_id m \<in> ps_id ` set (new1 @ new2) \<or>
    l_last_seq (sf_link s) \<le> rp_max_unreplayed_sequence (plan_finish p c ledger (lineage_of c ledger) hol ps)"
    (is "_ \<or> ?seq \<le> ?max")
proof -
  from out have st: "stops c ledger ps hol adm1 adm2" and ids: "map ps_id new2 = map member_id adm2"
    by (simp_all add: plan_outcome_def)
  have adm2: "member_id x \<in> ps_id ` set new2" if "x \<in> set adm2" for x
    using arg_cong [OF ids, of set] that by auto
  have aside: "?seq \<le> ?max" if "lineage_of c ledger \<noteq> Joined \<or> (\<exists>h. hol = Some h \<and> h_id h \<le> member_id m)"
  proof -
    have "?seq \<le> local_floor ledger (lineage_of c ledger) hol ps"
      using that set_aside_maximum_ge [OF m, of _ ps] by (auto simp: l local_floor_def Let_def)
    with unreplayed_ge_local [of ledger "lineage_of c ledger" hol ps p c] show ?thesis by order
  qed
  have head: "?seq \<le> ?max" if "lineage_of c ledger = Joined" "member_id m \<le> l_id (catalog_head c)"
  proof -
    have "?seq \<le> l_last_seq (catalog_head c)"
      using joined_below_head [of l c m s] ok(2) l that m by simp
    with unreplayed_ge_head(2) [OF ok st, of p "lineage_of c ledger"] show ?thesis by order
  qed
  have tail: "m \<in> set (tail_members c l)" if "\<not> member_id m \<le> l_id (catalog_head c)"
    using that m by (simp add: tail_members_def not_le)
  show ?thesis using st
  proof cases
    case (whole l' rest)
    with head tail adm2 m(2) l show ?thesis by (force simp: empty_open_def)
  next
    case (in_entries e rest h)
    have "e \<in> set (k_segments c)" by (simp add: in_entries)
    then have "h_id h \<le> l_id (catalog_head c)" using catalog_ok_ids(4) [OF ok(1)] in_entries by simp
    with aside head in_entries show ?thesis by force
  next
    case (in_tail l' x rest h)
    have "m \<in> set adm2 \<or> member_id x \<le> member_id m" if "m \<in> set (tail_members c l)"
    proof -
      have "sorted_wrt (<) (map member_id (tail_members c l))"
        using ok(2) l ledger_ids(1) [of l] by (simp add: tail_members_def sorted_wrt_map sorted_wrt_filter)
      with that in_tail l show ?thesis by (auto simp: sorted_wrt_append)
    qed
    with aside head tail adm2 in_tail l show ?thesis by force
  qed (use aside in simp)
qed



lemma sample_salvage:
  assumes "ce_epoch x = 4" "ce_prev x = genesis_link" "entry_id x = 1" "entry_max_sequence x = 9"
  obtains pl where "plan Salvage (new_catalog\<lparr>k_next_segment_id := 2, k_segments := [x]\<rparr>) None
      \<lparr>pb_remote = [], pb_local = []\<rparr> = Inr pl" "rp_set_aside_entries pl = [x]" "rp_retire_catalog_from pl = Some 1"
proof -
  have "\<exists>pl. plan Salvage (new_catalog\<lparr>k_next_segment_id := 2, k_segments := [x]\<rparr>) None
      \<lparr>pb_remote = [], pb_local = []\<rparr> = Inr pl \<and> rp_set_aside_entries pl = [x] \<and> rp_retire_catalog_from pl = Some 1"
    using assms
    by (simp add: plan_def lineage_of_def admit_catalog_def planner_start_def published_header_def
        new_catalog_def aside_entries_def retire_from_def)
  then show ?thesis by (elim exE conjE) (rule that)
qed


section \<open>Carrying the plan out\<close>

lemma opens_ok: "o_id f \<noteq> - 1 \<Longrightarrow> is_ok (following (o_id f))"
proof -
  assume "o_id f \<noteq> - 1"
  then have "unat (o_id f) \<noteq> u64_max" by (metis unat_u64_max word_unat_eq_iff)
  moreover have "unat (o_id f) \<le> u64_max" by simp
  ultimately have "unat (o_id f) + 1 \<le> u64_max" by linarith
  then show ?thesis by (simp add: following_def checked_add_u64_def)
qed

lemma genesis_accepts: "opens_after f a None = Inr () \<Longrightarrow> o_id f \<noteq> - 1 \<Longrightarrow> is_ok (genesis holder a f)"
  using opens_ok [of f] by (auto simp: genesis_def is_ok_iff)

lemma rebase_accepts:
  "\<lbrakk>opens_after f a (Some (newest_epoch l)) = Inr (); o_id f \<noteq> - 1; g_next_segment_id l \<le> o_id f\<rbrakk> \<Longrightarrow>
   is_ok (ledger_apply l (Rebase a f))"
  using opens_ok [of f] by (auto simp: rebase_def is_ok_iff)

lemma keep_advances:
  assumes ok: "catalog_ok c" "ledger_ok l" and j: "lineage_of c (Some l) = Joined"
    and start: "log_start l \<le> l_id (k_anchor c)"
  shows "is_ok (ledger_apply l (AdvanceLogStart (saturating_add_u64 (l_id (k_anchor c)) 1)))"
proof -
  have "l_id (catalog_head c) < open_segment l"
  proof (cases "catalog_head c = g_anchor l")
    case True
    from ok(2) obtain ss m where l: "g_members l = ss @ [m]" "all_sealed ss"
      "check_members (g_anchor l) None (ss @ [m]) = Inr ()" by (auto simp: ledger_ok_iff)
    from check_members_ids [OF l(3,2)] True l(1) show ?thesis by (simp add: open_segment_def open_member_def)
  next
    case False
    with j have "catalog_head c \<in> set (sealed_links l)"
      by (auto simp: lineage_of_def Let_def split: if_splits)
    then obtain m s where m: "m \<in> set (g_members l)" "m_sealed m = Some s" "sf_link s = catalog_head c"
      by (auto simp: sealed_links_def List.map_filter_def)
    from ok(2) obtain ss o' where l: "g_members l = ss @ [o']" "m_sealed o' = None" by (auto simp: ledger_ok_iff)
    with m have "m \<in> set ss" by auto
    with ledger_ids(1) [OF ok(2)] l(1) have "member_id m < member_id o'" by (simp add: sorted_wrt_append)
    with ledger_sealed_order(1) [OF ok(2) m(1,2)] m(3) l(1) show ?thesis
      by (simp add: open_segment_def open_member_def)
  qed
  moreover have "l_id (k_anchor c) \<le> l_id (catalog_head c)"
    using entries_chain_head ok(1) unfolding catalog_head_after catalog_ok_iff by blast
  ultimately have lt: "l_id (k_anchor c) < open_segment l" by order
  then have u: "unat (l_id (k_anchor c)) < unat (open_segment l)" by (simp add: word_less_nat_alt)
  moreover have "unat (open_segment l) \<le> u64_max" by simp
  ultimately have "unat (l_id (k_anchor c)) + 1 \<le> u64_max" by linarith
  then have "unat (saturating_add_u64 (l_id (k_anchor c)) 1) = unat (l_id (k_anchor c)) + 1"
    by (simp add: unat_saturating_add_u64)
  with u start show ?thesis
    by (auto simp: advance_log_start_def Let_def word_le_nat_alt word_less_nat_alt)
qed

lemma suffix_accepted:
  assumes ok: "catalog_ok c" "\<forall>l. ledger = Some l \<longrightarrow> ledger_ok l" and st: "stops c ledger ps hol adm1 adm2"
  shows "set_aside_suffix c (k_fencing_epoch c) (retire_from (aside_entries c hol)) (aside_entries c hol) fl =
    Inr (aside_entries c hol \<noteq> [] \<or> fl > k_seq_floor c,
         c\<lparr>k_segments := adm1, k_seq_floor := max (k_seq_floor c) fl\<rparr>)"
proof -
  define aside where "aside = aside_entries c hol"
  have segs: "k_segments c = adm1 @ aside" using stops_aside [OF ok st] by (simp add: aside_def)
  have srt: "sorted_wrt (<) (map entry_id (adm1 @ aside))" using catalog_ok_ids(1) [OF ok(1)] segs by simp
  have "(case retire_from aside of None \<Rightarrow> length (k_segments c)
      | Some f \<Rightarrow> length (takeWhile (\<lambda>e. entry_id e < f) (k_segments c))) = length adm1"
  proof (cases aside)
    case (Cons e rest)
    with kept_takeWhile [OF srt] show ?thesis by (simp add: segs retire_from_def)
  qed (simp add: segs retire_from_def)
  then show ?thesis
    unfolding aside_def [symmetric] set_aside_suffix_def require_epoch_def Let_def by (simp add: segs)
qed

lemma history_cases:
  "history_of c ledger lin hol head = HistKeep (Some b) \<Longrightarrow>
     lin = Joined \<and> (\<exists>l. ledger = Some l \<and> log_start l \<le> l_id (k_anchor c)) \<and>
     b = saturating_add_u64 (l_id (k_anchor c)) 1"
  "history_of c ledger lin hol head = HistGenesis anchor k \<Longrightarrow> anchor = head \<and> k = k_next_segment_id c"
  "history_of c ledger lin hol head = HistRebase anchor k \<Longrightarrow> anchor = head \<and> k = k_next_segment_id c"
  by (auto simp: history_of_def Let_def split: lineage.splits option.splits if_splits)



end
