(* ===== verification/Sst_Names.thy ===== *)
theory Sst_Names
  imports Wal_Names
begin

text \<open>
  Names of tables (\<^verbatim>\<open>src/src/cloud_layout.rs\<close>): the name of a flushed table, the name of a
  compaction partition, their parsers, and the check of a name read from persisted metadata.
  The numeric fields are padded to a width that a \<^verbatim>\<open>u32\<close> family id or level may exceed, so
  the fields are separated by underscores and the parsers compare with the canonical form.
\<close>

definition sst_sequence_width :: nat where "sst_sequence_width = 20"
definition sst_prefix :: string where "sst_prefix = ''sst/''"

definition sst_file_name :: "u32 \<Rightarrow> u32 \<Rightarrow> u64 \<Rightarrow> string" where
  "sst_file_name cf_id level sequence =
     padded 6 (unat cf_id) @ ''_'' @ padded 2 (unat level) @ ''_'' @
     padded sst_sequence_width (unat sequence) @ ''.sst''"

definition compaction_file_name :: "u32 \<Rightarrow> u32 \<Rightarrow> u64 \<Rightarrow> u32 \<Rightarrow> string" where
  "compaction_file_name cf_id level generation ordinal =
     padded 6 (unat cf_id) @ ''_'' @ padded 2 (unat level) @ ''_'' @
     padded sst_sequence_width (unat generation) @ ''_'' @ padded 10 (unat ordinal) @ ''.sst''"

definition sst_object_key :: "string \<Rightarrow> string" where
  "sst_object_key file_name = sst_prefix @ file_name"

definition sst_temp_object_key :: "string \<Rightarrow> string" where
  "sst_temp_object_key file_name = sst_prefix @ file_name @ ''.tmp''"

text \<open>\<^verbatim>\<open>str::split\<close> on one character, and \<^verbatim>\<open>str::parse\<close> of an unsigned integer, which takes an
  optional plus sign.\<close>

function split_on :: "char \<Rightarrow> string \<Rightarrow> string list" where
  "split_on c s = (case split_once c s of None \<Rightarrow> [s] | Some (a, b) \<Rightarrow> a # split_on c b)"
  by pat_completeness auto
termination by (relation "measure (\<lambda>(c, s). length s)") (auto dest!: sym [of "Some _"] simp: split_once_Some)

declare split_on.simps [simp del]

definition parse_uint :: "nat \<Rightarrow> string \<Rightarrow> nat option" where
  "parse_uint bound s =
     (let digits = (if take 1 s = ''+'' then drop 1 s else s)
      in if digits \<noteq> [] \<and> list_all is_ascii_digit digits \<and> digits_value digits \<le> bound
         then Some (digits_value digits) else None)"

definition parse_u32_field :: "string \<Rightarrow> u32 option" where
  "parse_u32_field s = map_option of_nat (parse_uint u32_max s)"

definition parse_u64_field :: "string \<Rightarrow> u64 option" where
  "parse_u64_field s = map_option of_nat (parse_uint u64_max s)"

fun sst_fields :: "string \<Rightarrow> string list \<Rightarrow> (u32 \<times> u32 \<times> u64) option" where
  "sst_fields name (cf # level # sequence # more) =
     Option.bind (parse_u32_field cf) (\<lambda>c.
     Option.bind (parse_u32_field level) (\<lambda>l.
     Option.bind (parse_u64_field sequence) (\<lambda>s.
     if more = [] \<and> sst_file_name c l s = name then Some (c, l, s) else None)))"
| "sst_fields name _ = None"

definition parse_sst_file_name :: "string \<Rightarrow> (u32 \<times> u32 \<times> u64) option" where
  "parse_sst_file_name name =
     Option.bind (strip_suffix ''.sst'' name) (\<lambda>stem. sst_fields name (split_on (CHR ''_'') stem))"

fun compaction_fields :: "string \<Rightarrow> string list \<Rightarrow> (u32 \<times> u32 \<times> u64 \<times> u32) option" where
  "compaction_fields name (cf # level # generation # ordinal # more) =
     (if more \<noteq> [] \<or> list_ex (\<lambda>part. part = [] \<or> \<not> list_all is_ascii_digit part)
          [cf, level, generation, ordinal] then None
      else
        Option.bind (parse_u32_field cf) (\<lambda>c.
        Option.bind (parse_u32_field level) (\<lambda>l.
        Option.bind (parse_u64_field generation) (\<lambda>g.
        Option.bind (parse_u32_field ordinal) (\<lambda>p.
        if compaction_file_name c l g p = name then Some (c, l, g, p) else None)))))"
| "compaction_fields name _ = None"

definition parse_compaction_file_name :: "string \<Rightarrow> (u32 \<times> u32 \<times> u64 \<times> u32) option" where
  "parse_compaction_file_name name =
     Option.bind (strip_suffix ''.sst'' name) (\<lambda>stem.
       compaction_fields name (split_on (CHR ''_'') stem))"

text \<open>
  \<^verbatim>\<open>PersistedSstName::parse\<close>: one relative file name with extension \<^verbatim>\<open>sst\<close>. A name without a
  slash is a single normal component unless it is empty, \<^verbatim>\<open>.\<close> or \<^verbatim>\<open>..\<close>; the extension is what
  follows the last dot when something precedes it.
\<close>

definition unsafe_chars :: "char list" where
  "unsafe_chars = [CHR ''/'', CHR 0x5C, CHR '':'', CHR 0x00]"

definition has_sst_extension :: "string \<Rightarrow> bool" where
  "has_sst_extension name =
     (case strip_suffix ''.sst'' name of None \<Rightarrow> False | Some stem \<Rightarrow> stem \<noteq> [])"

definition persisted_sst_name :: "string \<Rightarrow> string midge_result" where
  "persisted_sst_name name =
     (if name = [] \<or> name = ''.'' \<or> name = ''..'' \<or> list_ex (\<lambda>c. c \<in> set unsafe_chars) name \<or>
         \<not> has_sst_extension name
      then Inl (Corruption ''invalid persisted SST name: expected one relative .sst filename'')
      else Inr name)"

section \<open>Fields\<close>

lemma decimal_nonempty [simp]: "decimal n \<noteq> []"
  by (subst decimal.simps) simp

lemma decimal_digits: "list_all is_ascii_digit (decimal n)"
proof (induction n rule: less_induct)
  case (less n)
  have d: "is_ascii_digit (digit (k mod 10))" for k by (simp add: is_ascii_digit_def)
  show ?case
  proof (cases "n < 10")
    case True
    then show ?thesis using d [of n] by (simp add: decimal.simps [of n])
  next
    case False
    then show ?thesis using less.IH [of "n div 10"] d [of n] by (simp add: decimal.simps [of n])
  qed
qed

lemma digits_value_decimal: "digits_value (decimal n) = n"
proof (induction n rule: less_induct)
  case (less n)
  show ?case
  proof (cases "n < 10")
    case True
    then show ?thesis by (simp add: decimal.simps [of n] digits_value_def)
  next
    case False
    then show ?thesis using less.IH [of "n div 10"] by (simp add: decimal.simps [of n] digits_value_snoc)
  qed
qed

lemma digits_value_zeros: "digits_value (replicate k (CHR ''0'') @ s) = digits_value s"
  by (induction k) (auto simp: digits_value_def)

lemma padded_field:
  "padded w n \<noteq> []" "list_all is_ascii_digit (padded w n)" "digits_value (padded w n) = n"
  using decimal_digits [of n]
  by (auto simp: padded_def digits_value_zeros digits_value_decimal list_all_iff is_ascii_digit_def)

lemma padded_no_underscore: "CHR ''_'' \<notin> set (padded w n)"
  using padded_field(2) [of w n] by (auto simp: list_all_iff is_ascii_digit_def)

lemma parse_uint_padded: "n \<le> bound \<Longrightarrow> parse_uint bound (padded w n) = Some n"
proof -
  obtain c cs where p: "padded w n = c # cs" using padded_field(1) [of w n] by (cases "padded w n") auto
  then have "is_ascii_digit c" using padded_field(2) [of w n] by simp
  then have "c \<noteq> CHR ''+''" by (auto simp: is_ascii_digit_def)
  moreover assume "n \<le> bound"
  ultimately show ?thesis using p padded_field [of w n] by (simp add: parse_uint_def Let_def)
qed

lemma parse_field_padded [simp]:
  "parse_u32_field (padded w (unat c)) = Some c" "parse_u64_field (padded w (unat s)) = Some s"
  by (simp_all add: parse_u32_field_def parse_u64_field_def parse_uint_padded)

lemma split_on_last: "c \<notin> set a \<Longrightarrow> split_on c a = [a]"
proof -
  assume "c \<notin> set a"
  then have "split_once c a = None" by (induction a) auto
  then show ?thesis by (simp add: split_on.simps)
qed

lemma split_on_field: "c \<notin> set a \<Longrightarrow> split_on c (a @ c # b) = a # split_on c b"
  by (subst split_on.simps) (simp add: split_once_append)

lemmas split_fields = split_on_field [OF padded_no_underscore] split_on_last [OF padded_no_underscore]

lemma parse_sst_file_name_format: "parse_sst_file_name (sst_file_name c l s) = Some (c, l, s)"
proof -
  let ?stem = "padded 6 (unat c) @ CHR ''_'' # padded 2 (unat l) @ CHR ''_'' # padded sst_sequence_width (unat s)"
  have "sst_file_name c l s = ?stem @ ''.sst''" by (simp add: sst_file_name_def)
  then have "strip_suffix ''.sst'' (sst_file_name c l s) = Some ?stem" by (simp add: strip_suffix_Some)
  then show ?thesis by (simp add: parse_sst_file_name_def split_fields)
qed

lemma parse_compaction_file_name_format:
  "parse_compaction_file_name (compaction_file_name c l g p) = Some (c, l, g, p)"
proof -
  let ?stem = "padded 6 (unat c) @ CHR ''_'' # padded 2 (unat l) @ CHR ''_'' #
    padded sst_sequence_width (unat g) @ CHR ''_'' # padded 10 (unat p)"
  have "compaction_file_name c l g p = ?stem @ ''.sst''" by (simp add: compaction_file_name_def)
  then have "strip_suffix ''.sst'' (compaction_file_name c l g p) = Some ?stem" by (simp add: strip_suffix_Some)
  then show ?thesis by (simp add: parse_compaction_file_name_def split_fields padded_field)
qed

lemma compaction_file_name_inject [simp]:
  "compaction_file_name c l g p = compaction_file_name c' l' g' p' \<longleftrightarrow>
   c = c' \<and> l = l' \<and> g = g' \<and> p = p'"
proof
  assume "compaction_file_name c l g p = compaction_file_name c' l' g' p'"
  from arg_cong [OF this, of parse_compaction_file_name]
  show "c = c' \<and> l = l' \<and> g = g' \<and> p = p'" by (simp add: parse_compaction_file_name_format)
qed simp

text \<open>C28. Table names parse exactly: the parser of flushed tables returns a family, level and
  sequence if and only if the name is their formatted name, and likewise the parser of
  compaction partitions. So distinct tables have distinct names.\<close>

theorem sst_names_exact:
  "(parse_sst_file_name name = Some (c, l, s) \<longleftrightarrow> name = sst_file_name c l s) \<and>
   (parse_compaction_file_name name = Some (c, l, g, p) \<longleftrightarrow> name = compaction_file_name c l g p)"
proof
  have "sst_fields name parts = Some (c, l, s) \<Longrightarrow> name = sst_file_name c l s" for parts
    by (induction name parts rule: sst_fields.induct) (auto simp: bind_eq_Some_conv split: if_splits)
  then show "parse_sst_file_name name = Some (c, l, s) \<longleftrightarrow> name = sst_file_name c l s"
    using parse_sst_file_name_format by (auto simp: parse_sst_file_name_def bind_eq_Some_conv)
  have "compaction_fields name parts = Some (c, l, g, p) \<Longrightarrow> name = compaction_file_name c l g p" for parts
    by (induction name parts rule: compaction_fields.induct) (auto simp: bind_eq_Some_conv split: if_splits)
  then show "parse_compaction_file_name name = Some (c, l, g, p) \<longleftrightarrow> name = compaction_file_name c l g p"
    using parse_compaction_file_name_format by (auto simp: parse_compaction_file_name_def bind_eq_Some_conv)
qed

end
