(* ===== verification/File_Meta.thy ===== *)
theory File_Meta
  imports Midge_Prelude
begin

text \<open>
  The manifest's description of one table (\<^verbatim>\<open>FileMeta\<close> of \<^verbatim>\<open>src/src/metadata/manifest.rs\<close>). The
  read counter, which is not persisted and steers scheduling only, is left out.
\<close>

record file_meta =
  fm_name :: string
  fm_level :: u32
  fm_size_bytes :: u64
  fm_content_crc32c :: "u32 option"
  fm_cf_id :: u32
  fm_sst_seq :: u64
  fm_smallest_key :: "bytes option"
  fm_largest_key :: "bytes option"
  fm_smallest_seq :: "u64 option"
  fm_largest_seq :: "u64 option"
  fm_key_bounds_complete :: bool
  fm_earliest_expiration_millis :: "u64 option"
  fm_sublevel :: u32

definition same_identity :: "file_meta \<Rightarrow> file_meta \<Rightarrow> bool" where
  "same_identity a b \<longleftrightarrow>
     fm_name a = fm_name b \<and> fm_level a = fm_level b \<and> fm_size_bytes a = fm_size_bytes b \<and>
     fm_content_crc32c a = fm_content_crc32c b \<and> fm_cf_id a = fm_cf_id b \<and>
     fm_smallest_key a = fm_smallest_key b \<and> fm_largest_key a = fm_largest_key b \<and>
     fm_smallest_seq a = fm_smallest_seq b \<and> fm_largest_seq a = fm_largest_seq b \<and>
     fm_key_bounds_complete a = fm_key_bounds_complete b"

lemma same_identity_equiv: "equivp same_identity"
  by (rule equivpI) (auto simp: same_identity_def intro!: reflpI sympI transpI)

text \<open>Complete, ordered bounds: the form the layout rules rely on.\<close>

definition complete_bounds :: "file_meta \<Rightarrow> (bytes \<times> bytes) option" where
  "complete_bounds f = (case (fm_smallest_key f, fm_largest_key f) of
     (Some lower, Some upper) \<Rightarrow>
       if fm_key_bounds_complete f \<and> lower \<le> upper then Some (lower, upper) else None
   | _ \<Rightarrow> None)"

lemma complete_bounds_ordered: "complete_bounds f = Some (lower, upper) \<Longrightarrow> lower \<le> upper"
  by (auto simp: complete_bounds_def split: option.splits if_splits)

end
