(* ===== verification/Versions.thy ===== *)
theory Versions
  imports Midge_Prelude
begin

text \<open>
  The vocabulary of versioned keys: entry types, range tombstones, key states and version
  contents (\<^verbatim>\<open>src/src/types.rs\<close>) and the raw version a table stores
  (\<^verbatim>\<open>src/src/sst/traits.rs\<close>). On top of it the specification of a multi-version history: the
  newest version of a key and the sequences of the range tombstones that cover it. Every
  component that moves, drops or serves versions is measured against these two.
\<close>

section \<open>Entry types\<close>

datatype entry_type = Put | Insert | Delete | Merge

definition entry_type_code :: "entry_type \<Rightarrow> byte" where
  "entry_type_code t = (case t of Put \<Rightarrow> 0 | Insert \<Rightarrow> 1 | Delete \<Rightarrow> 2 | Merge \<Rightarrow> 3)"

definition entry_type_try_from :: "byte \<Rightarrow> entry_type midge_result" where
  "entry_type_try_from b =
     (if b = 0 then Inr Put
      else if b = 1 then Inr Insert
      else if b = 2 then Inr Delete
      else if b = 3 then Inl (CompatibilityError ''SST entry type 3 (Merge) is not supported'')
      else Inl (Corruption ''Invalid entry_type''))"

lemma entry_type_try_from_Inr:
  "entry_type_try_from b = Inr t \<longleftrightarrow> t \<noteq> Merge \<and> b = entry_type_code t"
  by (cases t) (auto simp: entry_type_try_from_def entry_type_code_def)

section \<open>Range tombstones\<close>

record range_tombstone =
  rt_start :: bytes
  rt_end :: bytes
  rt_seq :: u64

definition visible_at :: "range_tombstone \<Rightarrow> u64 \<Rightarrow> bool" where
  "visible_at rt snapshot_seq \<longleftrightarrow> snapshot_seq = - 1 \<or> rt_seq rt \<le> snapshot_seq"

definition covers :: "range_tombstone \<Rightarrow> bytes \<Rightarrow> bool" where
  "covers rt key \<longleftrightarrow> rt_start rt \<le> key \<and> key < rt_end rt"

section \<open>Key states and contents\<close>

datatype key_state =
    Absent
  | Tombstone u64
  | Value bytes u64 "u64 option" entry_type

record version_content =
  vc_is_tombstone :: bool
  vc_value :: "bytes option"
  vc_expiration :: "u64 option"

definition content_from_state :: "key_state \<Rightarrow> version_content option" where
  "content_from_state st = (case st of
     Absent \<Rightarrow> None
   | Tombstone _ \<Rightarrow> Some \<lparr>vc_is_tombstone = True, vc_value = None, vc_expiration = None\<rparr>
   | Value v _ e _ \<Rightarrow> Some \<lparr>vc_is_tombstone = False, vc_value = Some v, vc_expiration = e\<rparr>)"

definition resolve_same_sequence :: "version_content \<Rightarrow> version_content \<Rightarrow> unit + unit" where
  "resolve_same_sequence existing candidate = (if existing = candidate then Inr () else Inl ())"

record raw_version =
  v_key :: bytes
  v_seq :: u64
  v_is_tombstone :: bool
  v_value :: "bytes option"
  v_expiration :: "u64 option"

definition version_content_of :: "raw_version \<Rightarrow> version_content" where
  "version_content_of v =
     \<lparr>vc_is_tombstone = v_is_tombstone v, vc_value = v_value v, vc_expiration = v_expiration v\<rparr>"

lemma resolve_same_sequence_Inr [simp]:
  "resolve_same_sequence a b = Inr u \<longleftrightarrow> a = b"
  by (simp add: resolve_same_sequence_def)

lemma raw_version_eq:
  "v_key a = v_key b \<Longrightarrow> v_seq a = v_seq b \<Longrightarrow> version_content_of a = version_content_of b \<Longrightarrow> a = b"
  by (simp add: version_content_of_def)

section \<open>Histories\<close>

text \<open>
  \<open>newest\<close> is the version of the highest sequence a key has; it is defined on histories in
  which one key and one sequence name one version (\<open>consistent\<close>). \<open>cover_seqs\<close> are the
  sequences of the tombstones over a key.
\<close>

definition versions_at :: "bytes \<Rightarrow> raw_version list \<Rightarrow> raw_version list" where
  "versions_at k vs = filter (\<lambda>v. v_key v = k) vs"

fun newest :: "raw_version list \<Rightarrow> raw_version option" where
  "newest [] = None"
| "newest (v # vs) = (case newest vs of None \<Rightarrow> Some v
     | Some w \<Rightarrow> if v_seq w < v_seq v then Some v else Some w)"

definition consistent :: "raw_version list \<Rightarrow> bool" where
  "consistent vs \<longleftrightarrow>
     (\<forall>a \<in> set vs. \<forall>b \<in> set vs. v_key a = v_key b \<and> v_seq a = v_seq b \<longrightarrow> a = b)"

definition cover_seqs :: "bytes \<Rightarrow> range_tombstone list \<Rightarrow> u64 set" where
  "cover_seqs k rts = rt_seq ` {rt \<in> set rts. covers rt k}"

lemma newest_None [simp]: "newest vs = None \<longleftrightarrow> vs = []"
  by (cases vs) (auto split: option.splits)

lemma newest_in: "newest vs = Some v \<Longrightarrow> v \<in> set vs"
  by (induction vs arbitrary: v) (auto split: option.splits if_splits)

lemma newest_max: "newest vs = Some v \<Longrightarrow> w \<in> set vs \<Longrightarrow> v_seq w \<le> v_seq v"
proof (induction vs arbitrary: v)
  case (Cons a vs)
  show ?case
  proof (cases "newest vs")
    case (Some b)
    with Cons show ?thesis by (fastforce split: if_splits)
  qed (use Cons in auto)
qed simp

lemma newest_unique:
  assumes "consistent vs" "\<And>w. w \<in> set vs \<Longrightarrow> v_key w = k"
    and "v \<in> set vs" "\<And>w. w \<in> set vs \<Longrightarrow> v_seq w \<le> v_seq v"
  shows "newest vs = Some v"
proof -
  obtain w where w: "newest vs = Some w" using assms(3) by (cases "newest vs") auto
  then have "v_seq w = v_seq v"
    using newest_in newest_max assms(3,4) by (meson order.antisym)
  moreover have "w \<in> set vs" by (rule newest_in [OF w])
  ultimately show ?thesis using assms(1-3) w by (auto simp: consistent_def)
qed

end
