(* ===== verification/Compaction_Merge.thy ===== *)
theory Compaction_Merge
  imports Versions "HOL-Library.Multiset" "HOL-Library.Product_Lexorder" "HOL-Library.Code_Target_Numeral"
begin

text \<open>
  The k-way event merge of compaction (\<^verbatim>\<open>src/src/compaction/executor/merge.rs\<close>): the events
  of one table, the cursor over one table, the cursor over a chain of tables of one level,
  the heap of merge heads and the loop that drains it. Byte reservations, cancellation and
  the file system are checkpoints of the tape. The table reader is a parameter: what
  \<^verbatim>\<open>open_for_compaction\<close> yields for a name.

  The interface \<open>event_source\<close> is what the merge relies on of a cursor: pulling removes the
  first pending item. The lemmas give that every pull of the merge takes an event of the
  least key and that nothing is lost or duplicated.
\<close>

section \<open>Events\<close>

datatype compaction_event =
    Boundary bytes
  | RangeEnd range_tombstone
  | RangeStart range_tombstone
  | Version raw_version

primrec event_key :: "compaction_event \<Rightarrow> bytes" where
  "event_key (Boundary key) = key"
| "event_key (RangeEnd rt) = rt_end rt"
| "event_key (RangeStart rt) = rt_start rt"
| "event_key (Version v) = v_key v"

primrec event_sequence :: "compaction_event \<Rightarrow> u64" where
  "event_sequence (Boundary key) = 0"
| "event_sequence (RangeEnd rt) = rt_seq rt"
| "event_sequence (RangeStart rt) = rt_seq rt"
| "event_sequence (Version v) = v_seq v"

primrec kind_rank :: "compaction_event \<Rightarrow> nat" where
  "kind_rank (Boundary key) = 3"
| "kind_rank (RangeEnd rt) = 0"
| "kind_rank (RangeStart rt) = 1"
| "kind_rank (Version v) = 2"

record tombstone_gc_policy =
  snapshot_horizon :: "u64 option"
  point_eligible :: bool
  range_eligible :: bool

type_synonym event_item = "midge_error + compaction_event"

section \<open>Cursors\<close>

text \<open>
  A reader of one table: its range tombstones and its raw version cursor, whose items may be
  read errors.
\<close>

record sst_reader =
  rd_tombstones :: "range_tombstone list"
  rd_versions :: "(midge_error + raw_version) list midge_result"

type_synonym sst_factory = "string \<Rightarrow> sst_reader midge_result"

record sst_event_cursor =
  sc_versions :: "(midge_error + raw_version) list"
  sc_range_events :: "compaction_event list"

text \<open>
  The comparison of range events: key, then kind, then sequence downwards. The complement of
  a sequence reverses its order.
\<close>

definition range_event_rank :: "compaction_event \<Rightarrow> bytes \<times> nat \<times> u64" where
  "range_event_rank e = (event_key e, kind_rank e, - 1 - event_sequence e)"

definition range_events :: "range_tombstone list \<Rightarrow> compaction_event list" where
  "range_events rts =
     sort_key range_event_rank (concat (map (\<lambda>rt. [RangeStart rt, RangeEnd rt]) rts))"

definition sst_cursor_open ::
    "sst_factory \<Rightarrow> string \<Rightarrow> interrupts \<Rightarrow> (sst_event_cursor \<times> interrupts) midge_result" where
  "sst_cursor_open fac filename t =
     try_with (fac filename) (\<lambda>reader.
     try_with (checkpoint t) (\<lambda>t.
     try_with (rd_versions reader) (\<lambda>versions.
       Inr (\<lparr>sc_versions = versions, sc_range_events = range_events (rd_tombstones reader)\<rparr>, t))))"

definition event_precedes :: "compaction_event \<Rightarrow> raw_version \<Rightarrow> bool" where
  "event_precedes e v \<longleftrightarrow>
     event_key e < v_key v \<or> (event_key e = v_key v \<and> kind_rank e < 2)"

definition next_version :: "sst_event_cursor \<Rightarrow> (compaction_event option \<times> sst_event_cursor) midge_result" where
  "next_version c = (case sc_versions c of
     [] \<Rightarrow> Inr (None, c)
   | item # vs \<Rightarrow> try_with item (\<lambda>v. Inr (Some (Version v), c\<lparr>sc_versions := vs\<rparr>)))"

definition sst_cursor_next :: "sst_event_cursor \<Rightarrow> (compaction_event option \<times> sst_event_cursor) midge_result" where
  "sst_cursor_next c = (case (sc_range_events c, sc_versions c) of
     ([], []) \<Rightarrow> Inr (None, c)
   | (e # es, []) \<Rightarrow> Inr (Some e, c\<lparr>sc_range_events := es\<rparr>)
   | ([], _ # _) \<Rightarrow> next_version c
   | (e # es, Inr v # _) \<Rightarrow>
       if event_precedes e v then Inr (Some e, c\<lparr>sc_range_events := es\<rparr>) else next_version c
   | (e # es, Inl _ # _) \<Rightarrow> next_version c)"

record chained_cursor =
  cc_files :: "string list"
  cc_current :: "sst_event_cursor option"
  cc_last_key :: "bytes option"

definition chained_new :: "string list \<Rightarrow> chained_cursor" where
  "chained_new files = \<lparr>cc_files = files, cc_current = None, cc_last_key = None\<rparr>"

definition goes_back :: "bytes option \<Rightarrow> compaction_event \<Rightarrow> bool" where
  "goes_back last_key e = (case last_key of None \<Rightarrow> False | Some k \<Rightarrow> event_key e < k)"

definition chain_error :: midge_error where
  "chain_error = Corruption ''chained compaction level is not key ordered''"

text \<open>The event \<open>e\<close> of the current table, checked against the last key and accounted for.\<close>

definition chained_accept :: "chained_cursor \<Rightarrow> compaction_event \<Rightarrow> sst_event_cursor \<Rightarrow> interrupts \<Rightarrow>
    (compaction_event option \<times> chained_cursor \<times> interrupts) midge_result" where
  "chained_accept c e cur t =
     (if goes_back (cc_last_key c) e then Inl chain_error
      else try_with (checkpoint t) (\<lambda>t.
        Inr (Some e, c\<lparr>cc_current := Some cur, cc_last_key := Some (event_key e)\<rparr>, t)))"

definition current_next :: "chained_cursor \<Rightarrow> (compaction_event \<times> sst_event_cursor) option midge_result" where
  "current_next c = (case cc_current c of
     None \<Rightarrow> Inr None
   | Some cur \<Rightarrow> try_with (sst_cursor_next cur) (\<lambda>(item, cur').
       Inr (map_option (\<lambda>e. (e, cur')) item)))"

function chained_next :: "sst_factory \<Rightarrow> chained_cursor \<Rightarrow> interrupts \<Rightarrow>
    (compaction_event option \<times> chained_cursor \<times> interrupts) midge_result" where
  "chained_next fac c t =
     try_with (current_next c) (\<lambda>found. case found of
       Some (e, cur) \<Rightarrow> chained_accept c e cur t
     | None \<Rightarrow> (case cc_files c of
         [] \<Rightarrow> Inr (None, c\<lparr>cc_current := None\<rparr>, t)
       | filename # files \<Rightarrow>
           try_with (checkpoint t) (\<lambda>t.
           try_with (sst_cursor_open fac filename t) (\<lambda>(cur, t).
             chained_next fac (c\<lparr>cc_files := files, cc_current := Some cur\<rparr>) t))))"
  by pat_completeness auto
termination by (relation "measure (\<lambda>(fac, c, t). length (cc_files c))") auto

declare chained_next.simps [simp del]

datatype event_cursor =
    SstCursor sst_event_cursor
  | ChainedCursor chained_cursor
  | BoundaryCursor "bytes list"

fun cursor_next :: "sst_factory \<Rightarrow> event_cursor \<Rightarrow> interrupts \<Rightarrow>
    (compaction_event option \<times> event_cursor \<times> interrupts) midge_result" where
  "cursor_next fac (SstCursor c) t =
     try_with (sst_cursor_next c) (\<lambda>(item, c'). Inr (item, SstCursor c', t))"
| "cursor_next fac (ChainedCursor c) t =
     try_with (chained_next fac c t) (\<lambda>(item, c', t). Inr (item, ChainedCursor c', t))"
| "cursor_next fac (BoundaryCursor []) t = Inr (None, BoundaryCursor [], t)"
| "cursor_next fac (BoundaryCursor (k # ks)) t = Inr (Some (Boundary k), BoundaryCursor ks, t)"

section \<open>The merge\<close>

text \<open>
  The heap holds at most one head per input. \<^verbatim>\<open>Ord for VersionHeapItem\<close> inverts the order for
  a max heap, so the item to pop is the least one under \<open>heap_rank\<close>: key, kind, sequence
  downwards, input index.
\<close>

record event_merge =
  em_inputs :: "event_cursor list"
  em_heap :: "(compaction_event \<times> nat) list"

definition heap_rank :: "compaction_event \<times> nat \<Rightarrow> bytes \<times> nat \<times> u64 \<times> nat" where
  "heap_rank item =
     (event_key (fst item), kind_rank (fst item), - 1 - event_sequence (fst item), snd item)"

definition merge_head :: "nat \<Rightarrow> compaction_event option \<Rightarrow> interrupts \<Rightarrow>
    ((compaction_event \<times> nat) list \<times> interrupts) midge_result" where
  "merge_head i item t = (case item of
     None \<Rightarrow> Inr ([], t)
   | Some e \<Rightarrow> try_with (checkpoint t) (\<lambda>t. Inr ([(e, i)], t)))"

fun merge_admit :: "sst_factory \<Rightarrow> nat \<Rightarrow> event_cursor list \<Rightarrow> interrupts \<Rightarrow>
    (event_cursor list \<times> (compaction_event \<times> nat) list \<times> interrupts) midge_result" where
  "merge_admit fac i [] t = Inr ([], [], t)"
| "merge_admit fac i (c # cs) t =
     try_with (checkpoint t) (\<lambda>t.
     try_with (cursor_next fac c t) (\<lambda>(item, c', t).
     try_with (merge_head i item t) (\<lambda>(head, t).
     try_with (merge_admit fac (Suc i) cs t) (\<lambda>(inputs, heap, t).
       Inr (c' # inputs, head @ heap, t)))))"

definition merge_new :: "sst_factory \<Rightarrow> event_cursor list \<Rightarrow> interrupts \<Rightarrow>
    (event_merge \<times> interrupts) midge_result" where
  "merge_new fac cursors t =
     try_with (checkpoint t) (\<lambda>t.
     try_with (merge_admit fac 0 cursors t) (\<lambda>(inputs, heap, t).
       Inr (\<lparr>em_inputs = inputs, em_heap = heap\<rparr>, t)))"

definition peek_event :: "event_merge \<Rightarrow> compaction_event option" where
  "peek_event m =
     (if em_heap m = [] then None else Some (fst (arg_min_list heap_rank (em_heap m))))"

definition merge_advance :: "sst_factory \<Rightarrow> event_merge \<Rightarrow> compaction_event \<Rightarrow> nat \<Rightarrow> interrupts \<Rightarrow>
    (compaction_event option \<times> event_merge \<times> interrupts) midge_result" where
  "merge_advance fac m e i t =
     try_with (cursor_next fac (em_inputs m ! i) t) (\<lambda>(item, c', t). case item of
       Some e' \<Rightarrow> try_with (checkpoint t) (\<lambda>t.
         Inr (Some e, \<lparr>em_inputs = (em_inputs m)[i := c'],
           em_heap = map (\<lambda>x. if snd x = i then (e', i) else x) (em_heap m)\<rparr>, t))
     | None \<Rightarrow> Inr (Some e, \<lparr>em_inputs = (em_inputs m)[i := c'],
         em_heap = filter (\<lambda>x. snd x \<noteq> i) (em_heap m)\<rparr>, t))"

definition next_event :: "sst_factory \<Rightarrow> event_merge \<Rightarrow> interrupts \<Rightarrow>
    (compaction_event option \<times> event_merge \<times> interrupts) midge_result" where
  "next_event fac m t =
     (if em_heap m = [] then Inr (None, m, t)
      else case arg_min_list heap_rank (em_heap m) of (e, i) \<Rightarrow>
        if length (em_inputs m) \<le> i then Inl (Internal ''compaction merge input is missing'')
        else try_with (checkpoint t) (\<lambda>t. merge_advance fac m e i t))"

section \<open>Inputs of a run\<close>

fun open_all :: "sst_factory \<Rightarrow> string list \<Rightarrow> interrupts \<Rightarrow> (event_cursor list \<times> interrupts) midge_result" where
  "open_all fac [] t = Inr ([], t)"
| "open_all fac (f # fs) t =
     try_with (checkpoint t) (\<lambda>t.
     try_with (sst_cursor_open fac f t) (\<lambda>(c, t).
     try_with (open_all fac fs t) (\<lambda>(cs, t). Inr (SstCursor c # cs, t))))"

definition collect_compaction_stream_inputs ::
    "sst_factory \<Rightarrow> string list \<Rightarrow> string list \<Rightarrow> u32 \<Rightarrow> bool \<Rightarrow> interrupts \<Rightarrow>
     (event_cursor list \<times> interrupts) midge_result" where
  "collect_compaction_stream_inputs fac source_files target_files source_level same_level_repair t =
     try_with (checkpoint t) (\<lambda>t.
     try_with
       (if source_level = 0 \<or> same_level_repair then open_all fac source_files t
        else Inr (if source_files = [] then [] else [ChainedCursor (chained_new source_files)], t))
       (\<lambda>(sources, t).
     Inr (sources @ (if target_files = [] then []
            else [ChainedCursor (chained_new target_files)]), t)))"

section \<open>Pending items\<close>

text \<open>
  What a cursor still has to deliver, read errors included. A chain turns an event that goes
  back in key order into the error the cursor raises there.
\<close>

fun interleave :: "compaction_event list \<Rightarrow> (midge_error + raw_version) list \<Rightarrow> event_item list" where
  "interleave es [] = map Inr es"
| "interleave es (Inl x # vs) = Inl x # interleave es vs"
| "interleave [] (Inr v # vs) = Inr (Version v) # interleave [] vs"
| "interleave (e # es) (Inr v # vs) =
     (if event_precedes e v then Inr e # interleave es (Inr v # vs)
      else Inr (Version v) # interleave (e # es) vs)"

definition sst_items :: "sst_event_cursor \<Rightarrow> event_item list" where
  "sst_items c = interleave (sc_range_events c) (sc_versions c)"

definition file_items :: "sst_factory \<Rightarrow> string \<Rightarrow> event_item list" where
  "file_items fac f = (case try_with (fac f) (\<lambda>r. try_with (rd_versions r) (\<lambda>vs.
       Inr (interleave (range_events (rd_tombstones r)) vs))) of
     Inl x \<Rightarrow> [Inl x] | Inr items \<Rightarrow> items)"

fun check_order :: "bytes option \<Rightarrow> event_item list \<Rightarrow> event_item list" where
  "check_order l [] = []"
| "check_order l (Inl x # xs) = Inl x # check_order l xs"
| "check_order l (Inr e # xs) =
     (if goes_back l e then Inl chain_error # check_order l xs
      else Inr e # check_order (Some (event_key e)) xs)"

definition chained_items :: "sst_factory \<Rightarrow> chained_cursor \<Rightarrow> event_item list" where
  "chained_items fac c = check_order (cc_last_key c)
     ((case cc_current c of None \<Rightarrow> [] | Some cur \<Rightarrow> sst_items cur) @
      concat (map (file_items fac) (cc_files c)))"

primrec cursor_items :: "sst_factory \<Rightarrow> event_cursor \<Rightarrow> event_item list" where
  "cursor_items fac (SstCursor c) = sst_items c"
| "cursor_items fac (ChainedCursor c) = chained_items fac c"
| "cursor_items fac (BoundaryCursor ks) = map (Inr \<circ> Boundary) ks"

locale event_source =
  fixes pull :: "'c \<Rightarrow> interrupts \<Rightarrow> (compaction_event option \<times> 'c \<times> interrupts) midge_result"
    and items :: "'c \<Rightarrow> event_item list"
  assumes pull_items: "pull c t = Inr (item, c', t') \<Longrightarrow>
    items c = (case item of None \<Rightarrow> [] | Some e \<Rightarrow> [Inr e]) @ items c' \<and>
    (item = None \<longrightarrow> items c = [])"
begin

lemma pull_Some: "pull c t = Inr (Some e, c', t') \<Longrightarrow> items c = Inr e # items c'"
  by (auto dest: pull_items)

lemma pull_None: "pull c t = Inr (None, c', t') \<Longrightarrow> items c = [] \<and> items c' = []"
  by (auto dest: pull_items)

end

lemma interleave_Nil_items [simp]: "interleave es vs = [] \<longleftrightarrow> es = [] \<and> vs = []"
  by (induction es vs rule: interleave.induct) auto

lemma sst_cursor_next_items:
  assumes "sst_cursor_next c = Inr (item, c')"
  shows "sst_items c = (case item of None \<Rightarrow> [] | Some e \<Rightarrow> [Inr e]) @ sst_items c' \<and>
    (item = None \<longrightarrow> sst_items c = [])"
  using assms unfolding sst_cursor_next_def next_version_def sst_items_def
  by (auto split: list.splits sum.splits if_splits)

interpretation sst: event_source "\<lambda>c t. try_with (sst_cursor_next c) (\<lambda>(item, c'). Inr (item, c', t))" sst_items
  by unfold_locales (auto dest: sst_cursor_next_items)

lemma sst_cursor_open_items:
  "sst_cursor_open fac f t = Inr (c, t') \<Longrightarrow> file_items fac f = sst_items c"
  by (auto simp: sst_cursor_open_def file_items_def sst_items_def)

lemma chained_next_items:
  "chained_next fac c t = Inr (item, c', t') \<Longrightarrow>
   chained_items fac c = (case item of None \<Rightarrow> [] | Some e \<Rightarrow> [Inr e]) @ chained_items fac c' \<and>
   (item = None \<longrightarrow> chained_items fac c = [])"
proof (induction fac c t rule: chained_next.induct)
  case (1 fac c t)
  note run = "1.prems" [unfolded chained_next.simps [of fac c t]]
  obtain found where found: "current_next c = Inr found"
    using run by auto
  show ?case
  proof (cases found)
    case None
    then have cur: "(case cc_current c of None \<Rightarrow> [] | Some cur \<Rightarrow> sst_items cur) = []"
      using found by (auto simp: current_next_def dest: sst_cursor_next_items split: option.splits)
    show ?thesis
    proof (cases "cc_files c")
      case Nil
      with run found None cur show ?thesis by (auto simp: chained_items_def)
    next
      case (Cons f fs)
      then obtain t1 cur t2 where t: "checkpoint t = Inr t1" "sst_cursor_open fac f t1 = Inr (cur, t2)"
        and rest: "chained_next fac (c\<lparr>cc_files := fs, cc_current := Some cur\<rparr>) t2 = Inr (item, c', t')"
        using run found None by auto
      have same: "chained_items fac (c\<lparr>cc_files := fs, cc_current := Some cur\<rparr>) = chained_items fac c"
        using cur Cons sst_cursor_open_items [OF t(2)] by (simp add: chained_items_def)
      show ?thesis using "1.IH" [OF found None Cons t refl rest] unfolding same .
    qed
  next
    case (Some p)
    obtain e cur' where p: "p = (e, cur')" by (cases p)
    have "\<exists>cur. cc_current c = Some cur \<and> sst_cursor_next cur = Inr (Some e, cur')"
      using found Some p by (auto simp: current_next_def split: option.splits)
    then obtain cur where cur: "cc_current c = Some cur" "sst_items cur = Inr e # sst_items cur'"
      by (auto dest: sst_cursor_next_items)
    with run found Some p show ?thesis
      by (auto simp: chained_accept_def chained_items_def split: if_splits)
  qed
qed

interpretation chained: event_source "chained_next fac" "chained_items fac" for fac
  by unfold_locales (rule chained_next_items)

lemma cursor_next_items:
  "cursor_next fac c t = Inr (item, c', t') \<Longrightarrow>
   cursor_items fac c = (case item of None \<Rightarrow> [] | Some e \<Rightarrow> [Inr e]) @ cursor_items fac c' \<and>
   (item = None \<longrightarrow> cursor_items fac c = [])"
  by (induction fac c t rule: cursor_next.induct)
    (auto dest: sst_cursor_next_items chained_next_items)

interpretation cursor: event_source "cursor_next fac" "cursor_items fac" for fac
  by unfold_locales (rule cursor_next_items)

section \<open>Order and completeness of the merge\<close>

definition oks :: "('e + 'a) list \<Rightarrow> 'a list" where
  "oks xs = List.map_filter (\<lambda>x. case x of Inl _ \<Rightarrow> None | Inr e \<Rightarrow> Some e) xs"

definition key_ordered :: "event_item list \<Rightarrow> bool" where
  "key_ordered xs \<longleftrightarrow> sorted (map event_key (oks xs))"

definition pending :: "sst_factory \<Rightarrow> event_merge \<Rightarrow> event_item multiset" where
  "pending fac m = mset (map (\<lambda>x. Inr (fst x)) (em_heap m) @ concat (map (cursor_items fac) (em_inputs m)))"

text \<open>
  What the merge keeps: one head per input that still has items, in front of that input's
  items in key order.
\<close>

definition merge_ok :: "sst_factory \<Rightarrow> event_merge \<Rightarrow> bool" where
  "merge_ok fac m \<longleftrightarrow> distinct (map snd (em_heap m)) \<and>
     (\<forall>(e, i) \<in> set (em_heap m). i < length (em_inputs m) \<and>
        key_ordered (Inr e # cursor_items fac (em_inputs m ! i))) \<and>
     (\<forall>i < length (em_inputs m). i \<in> snd ` set (em_heap m) \<or> cursor_items fac (em_inputs m ! i) = [])"

lemma oks_simps [simp]:
  "oks [] = []"
  "oks (Inl x # xs) = oks xs"
  "oks (Inr e # xs) = e # oks xs"
  by (simp_all add: oks_def map_filter_simps)

lemma set_oks [simp]: "set (oks xs) = {e. Inr e \<in> set xs}"
proof (induction xs)
  case (Cons x xs)
  then show ?case by (cases x) auto
qed simp

lemma oks_map_Inr [simp]: "oks (map Inr xs) = xs"
  by (induction xs) auto

lemma key_ordered_simps [simp]:
  "key_ordered []"
  "key_ordered (Inl x # xs) = key_ordered xs"
  "key_ordered (Inr e # xs) \<longleftrightarrow>
     (\<forall>e'. Inr e' \<in> set xs \<longrightarrow> event_key e \<le> event_key e') \<and> key_ordered xs"
  by (auto simp: key_ordered_def)

lemma key_ordered_tl: "key_ordered (x # xs) \<Longrightarrow> key_ordered xs"
  by (cases x) auto

lemma mset_concat_update:
  "i < length xs \<Longrightarrow>
   mset (concat (map f (xs[i := c]))) + mset (f (xs ! i)) = mset (concat (map f xs)) + mset (f c)"
proof (induction xs arbitrary: i)
  case (Cons x xs)
  show ?case
  proof (cases i)
    case (Suc j)
    with Cons.IH [of j] Cons.prems show ?thesis by (simp add: ac_simps)
  qed (simp add: ac_simps)
qed simp

lemma heap_replace:
  assumes "distinct (map snd h)" "(e, i) \<in> set h"
  shows "mset (map fst (map (\<lambda>x. if snd x = i then (e', i) else x) h)) + {#e#} =
    mset (map fst h) + {#e'#}"
  using assms
proof (induction h)
  case (Cons x h)
  show ?case
  proof (cases "snd x = i")
    case True
    then have "i \<notin> snd ` set h" using Cons.prems(1) by auto
    then have "map (\<lambda>x. if snd x = i then (e', i) else x) h = h" by (intro map_idI) auto
    moreover have "fst x = e"
      using True Cons.prems by (cases x) (auto simp: image_iff)
    ultimately show ?thesis using True by simp
  qed (use Cons in \<open>auto simp: ac_simps\<close>)
qed simp

lemma heap_pop:
  assumes "distinct (map snd h)" "(e, i) \<in> set h"
  shows "mset (map fst (filter (\<lambda>x. snd x \<noteq> i) h)) + {#e#} = mset (map fst h)"
  using assms
proof (induction h)
  case (Cons x h)
  show ?case
  proof (cases "snd x = i")
    case True
    then have "i \<notin> snd ` set h" using Cons.prems(1) by auto
    then have "filter (\<lambda>x. snd x \<noteq> i) h = h" by (intro filter_True) auto
    moreover have "fst x = e"
      using True Cons.prems by (cases x) (auto simp: image_iff)
    ultimately show ?thesis using True by simp
  qed (use Cons in auto)
qed simp

lemma mset_swap: "A' + {#x#} = A + {#y#} \<Longrightarrow> B' + {#y#} = B \<Longrightarrow> A + B = add_mset x (A' + B')"
  for A B :: "'a multiset"
  by (metis (no_types) add_mset_add_single union_assoc union_commute)

lemma pending_alt: "pending fac m =
   image_mset Inr (mset (map fst (em_heap m))) + mset (concat (map (cursor_items fac) (em_inputs m)))"
  by (simp add: pending_def image_mset.compositionality o_def)

lemma heap_least:
  assumes "h \<noteq> []" "arg_min_list heap_rank h = (e, i)"
  shows "(e, i) \<in> set h" "x \<in> set h \<Longrightarrow> event_key e \<le> event_key (fst x)"
proof -
  show "(e, i) \<in> set h" using arg_min_list_in [OF assms(1), of heap_rank] assms(2) by simp
  assume "x \<in> set h"
  then have "heap_rank (e, i) \<le> heap_rank x"
    using f_arg_min_list_f [OF assms(1), of heap_rank] assms(2) by simp
  then show "event_key e \<le> event_key (fst x)" by (auto simp: heap_rank_def)
qed

lemma merge_ok_head:
  assumes "merge_ok fac m" "(e, i) \<in> set (em_heap m)"
  shows "i < length (em_inputs m)" "key_ordered (Inr e # cursor_items fac (em_inputs m ! i))"
    and "distinct (map snd (em_heap m))"
  using assms by (auto simp: merge_ok_def)

lemma merge_okI:
  assumes "distinct (map snd (em_heap m))"
    and "\<And>e i. (e, i) \<in> set (em_heap m) \<Longrightarrow>
      i < length (em_inputs m) \<and> key_ordered (Inr e # cursor_items fac (em_inputs m ! i))"
    and "\<And>i. i < length (em_inputs m) \<Longrightarrow> i \<notin> snd ` set (em_heap m) \<Longrightarrow>
      cursor_items fac (em_inputs m ! i) = []"
  shows "merge_ok fac m"
  unfolding merge_ok_def using assms by blast

lemma merge_replace:
  assumes ok: "merge_ok fac m" and e: "(e, i) \<in> set (em_heap m)"
    and c: "cursor_items fac (em_inputs m ! i) = Inr e' # cursor_items fac c'"
    and m': "m' = \<lparr>em_inputs = (em_inputs m)[i := c'],
      em_heap = map (\<lambda>x. if snd x = i then (e', i) else x) (em_heap m)\<rparr>"
  shows "pending fac m = add_mset (Inr e) (pending fac m') \<and> merge_ok fac m'"
proof
  note hd = merge_ok_head [OF ok e]
  have "image_mset Inr (mset (map fst (em_heap m'))) + {#Inr e :: event_item#} =
      image_mset Inr (mset (map fst (em_heap m))) + {#Inr e'#}"
    using arg_cong [OF heap_replace [OF hd(3) e, of e'], of "image_mset Inr"] by (simp add: m')
  moreover have "mset (concat (map (cursor_items fac) (em_inputs m'))) + {#Inr e'#} =
      mset (concat (map (cursor_items fac) (em_inputs m)))"
    using mset_concat_update [OF hd(1), of "cursor_items fac" c'] c by (simp add: m')
  ultimately show "pending fac m = add_mset (Inr e) (pending fac m')"
    unfolding pending_alt by (rule mset_swap)
  have snds: "map snd (em_heap m') = map snd (em_heap m)" by (simp add: m')
  show "merge_ok fac m'"
  proof (rule merge_okI)
    show "distinct (map snd (em_heap m'))" using hd(3) snds by simp
    fix b j assume "(b, j) \<in> set (em_heap m')"
    then consider "j = i" "b = e'" | "j \<noteq> i" "(b, j) \<in> set (em_heap m)"
      by (auto simp: m' split: if_splits)
    then show "j < length (em_inputs m') \<and> key_ordered (Inr b # cursor_items fac (em_inputs m' ! j))"
    proof cases
      case 1
      then show ?thesis using hd(1,2) c by (simp add: m')
    next
      case 2
      then show ?thesis using merge_ok_head(1,2) [OF ok 2(2)] by (simp add: m')
    qed
  next
    fix j assume "j < length (em_inputs m')" "j \<notin> snd ` set (em_heap m')"
    moreover from this have "j \<notin> snd ` set (em_heap m)" using snds by (metis list.set_map)
    moreover from this e have "j \<noteq> i" by force
    ultimately show "cursor_items fac (em_inputs m' ! j) = []"
      using ok by (auto simp: merge_ok_def m')
  qed
qed

lemma merge_pop:
  assumes ok: "merge_ok fac m" and e: "(e, i) \<in> set (em_heap m)"
    and c: "cursor_items fac (em_inputs m ! i) = []" "cursor_items fac c' = []"
    and m': "m' = \<lparr>em_inputs = (em_inputs m)[i := c'],
      em_heap = filter (\<lambda>x. snd x \<noteq> i) (em_heap m)\<rparr>"
  shows "pending fac m = add_mset (Inr e) (pending fac m') \<and> merge_ok fac m'"
proof
  note hd = merge_ok_head [OF ok e]
  have "image_mset Inr (mset (map fst (em_heap m'))) + {#Inr e :: event_item#} =
      image_mset Inr (mset (map fst (em_heap m)))"
    using arg_cong [OF heap_pop [OF hd(3) e], of "image_mset Inr"] by (simp add: m')
  moreover have "mset (concat (map (cursor_items fac) (em_inputs m'))) =
      mset (concat (map (cursor_items fac) (em_inputs m)))"
    using mset_concat_update [OF hd(1), of "cursor_items fac" c'] c by (simp add: m')
  ultimately show "pending fac m = add_mset (Inr e) (pending fac m')"
    unfolding pending_alt by (metis (no_types, lifting) add_mset_add_single union_assoc union_commute)
  have "j = i \<or> j \<in> snd ` set (em_heap m) \<or> cursor_items fac (em_inputs m ! j) = []"
    if "j < length (em_inputs m)" for j
    using ok that by (auto simp: merge_ok_def)
  moreover have "j \<noteq> i \<Longrightarrow> j \<in> snd ` set (em_heap m') \<longleftrightarrow> j \<in> snd ` set (em_heap m)" for j
    by (auto simp: m')
  moreover have "cursor_items fac ((em_inputs m)[i := c'] ! i) = []"
    using c hd(1) by simp
  moreover have "j \<noteq> i \<Longrightarrow> (em_inputs m)[i := c'] ! j = em_inputs m ! j" for j by simp
  ultimately have "\<forall>j < length (em_inputs m). j \<in> snd ` set (em_heap m') \<or>
      cursor_items fac (em_inputs m' ! j) = []"
    by (metis m' event_merge.select_convs(1))
  then show "merge_ok fac m'"
    using ok by (auto simp: merge_ok_def m' distinct_map_filter)
qed

lemma merge_advance_ok:
  assumes ok: "merge_ok fac m" "(e, i) \<in> set (em_heap m)"
    and run: "merge_advance fac m e i t = Inr (item, m', t')"
  shows "item = Some e \<and> pending fac m = add_mset (Inr e) (pending fac m') \<and> merge_ok fac m'"
proof -
  obtain got c' t1 where c': "cursor_next fac (em_inputs m ! i) t = Inr (got, c', t1)"
    using run by (auto simp: merge_advance_def)
  show ?thesis
  proof (cases got)
    case None
    then show ?thesis
      using run c' merge_pop [OF ok _ _ refl] cursor.pull_None [of fac _ t c' t1]
      by (auto simp: merge_advance_def)
  next
    case (Some e')
    then show ?thesis
      using run c' merge_replace [OF ok _ refl] cursor.pull_Some [of fac _ t e' c' t1]
      by (auto simp: merge_advance_def)
  qed
qed

text \<open>
  A pull takes an event of the least pending key and leaves the others; it ends only when
  nothing is pending.
\<close>

lemma peek_least:
  assumes ok: "merge_ok fac m" and peek: "peek_event m = Some e"
  shows "Inr e \<in># pending fac m" "Inr e' \<in># pending fac m \<Longrightarrow> event_key e \<le> event_key e'"
proof -
  obtain i where a: "em_heap m \<noteq> []" "arg_min_list heap_rank (em_heap m) = (e, i)"
    using peek by (cases "arg_min_list heap_rank (em_heap m)") (auto simp: peek_event_def split: if_splits)
  note least = heap_least [OF a]
  show "Inr e \<in># pending fac m" using least(1) by (force simp: pending_def)
  assume "Inr e' \<in># pending fac m"
  then consider x where "x \<in> set (em_heap m)" "fst x = e'"
    | j where "j < length (em_inputs m)" "Inr e' \<in> set (cursor_items fac (em_inputs m ! j))"
    by (auto simp: pending_def in_set_conv_nth [of _ "em_inputs m"])
  then show "event_key e \<le> event_key e'"
  proof cases
    case 1
    then show ?thesis using least(2) [OF 1(1)] by simp
  next
    case 2
    then have "j \<in> snd ` set (em_heap m)" using ok by (fastforce simp: merge_ok_def)
    then obtain b where b: "(b, j) \<in> set (em_heap m)" by auto
    then have "event_key b \<le> event_key e'" using ok 2 by (fastforce simp: merge_ok_def)
    with least(2) [OF b] show ?thesis by auto
  qed
qed

lemma next_event_Some:
  assumes ok: "merge_ok fac m" and run: "next_event fac m t = Inr (Some e, m', t')"
  shows "pending fac m = add_mset (Inr e) (pending fac m')" "merge_ok fac m'" "peek_event m = Some e"
    and "Inr e' \<in># pending fac m \<Longrightarrow> event_key e \<le> event_key e'"
proof -
  obtain a i where a: "em_heap m \<noteq> []" "arg_min_list heap_rank (em_heap m) = (a, i)"
    and t1: "\<exists>t1. merge_advance fac m a i t1 = Inr (Some e, m', t')"
    using run by (auto simp: next_event_def split: if_splits prod.splits)
  from t1 merge_advance_ok [OF ok heap_least(1) [OF a]]
  have e: "a = e" "pending fac m = add_mset (Inr e) (pending fac m')" "merge_ok fac m'" by auto
  then show "pending fac m = add_mset (Inr e) (pending fac m')" "merge_ok fac m'" by auto
  show peek: "peek_event m = Some e" using a e by (simp add: peek_event_def)
  show "Inr e' \<in># pending fac m \<Longrightarrow> event_key e \<le> event_key e'" by (rule peek_least(2) [OF ok peek])
qed

lemma next_event_None:
  assumes "merge_ok fac m" "next_event fac m t = Inr (None, m', t')"
  shows "pending fac m = {#}" "m' = m" "t' = t"
proof -
  have h: "em_heap m = []"
  proof (rule ccontr)
    assume "em_heap m \<noteq> []"
    then show False using assms heap_least(1) [of "em_heap m"]
      by (fastforce simp: next_event_def split: prod.splits if_splits dest: merge_advance_ok)
  qed
  then show "m' = m" "t' = t" using assms(2) by (auto simp: next_event_def)
  have "c \<in> set (em_inputs m) \<Longrightarrow> cursor_items fac c = []" for c
    using assms(1) h by (auto simp: merge_ok_def in_set_conv_nth)
  then show "pending fac m = {#}" using h by (simp add: pending_def)
qed

lemma peek_event_None: "merge_ok fac m \<Longrightarrow> peek_event m = None \<Longrightarrow> pending fac m = {#}"
  by (rule next_event_None(1) [of fac m "[]"]) (auto simp: peek_event_def next_event_def split: if_splits)

text \<open>Every pull shrinks what is pending, so a loop that drains the merge ends.\<close>

lemma next_event_size:
  assumes "next_event fac m t = Inr (Some e, m', t')"
  shows "size (pending fac m') < size (pending fac m)"
proof -
  obtain a i t1 where a: "em_heap m \<noteq> []" "arg_min_list heap_rank (em_heap m) = (a, i)"
    and i: "i < length (em_inputs m)" and run: "merge_advance fac m a i t1 = Inr (Some e, m', t')"
    using assms by (auto simp: next_event_def split: if_splits prod.splits)
  obtain got c' t2 where c': "cursor_next fac (em_inputs m ! i) t1 = Inr (got, c', t2)"
    using run by (auto simp: merge_advance_def)
  note upd = arg_cong [OF mset_concat_update [OF i, of "cursor_items fac" c'], of size]
  have "(a, i) \<in> set (em_heap m)" by (rule heap_least(1) [OF a])
  then have pop: "length (filter (\<lambda>x. snd x \<noteq> i) (em_heap m)) < length (em_heap m)"
    by (intro length_filter_less) auto
  show ?thesis
  proof (cases got)
    case None
    then show ?thesis
      using run c' pop upd cursor.pull_None [of fac _ t1 c' t2]
      by (auto simp: merge_advance_def pending_def)
  next
    case (Some e')
    then show ?thesis
      using run c' upd cursor.pull_Some [of fac _ t1 e' c' t2]
      by (auto simp: merge_advance_def pending_def)
  qed
qed

section \<open>Ordered cursors\<close>

lemma mset_interleave:
  "mset (interleave es vs) = mset (map Inr es) + mset (map (map_sum id Version) vs)"
  by (induction es vs rule: interleave.induct) auto

lemma set_interleave:
  "set (interleave es vs) = Inr ` set es \<union> map_sum id Version ` set vs"
  using arg_cong [OF mset_interleave [of es vs], of set_mset] by simp

lemma in_map_sum_Inr: "Inr e \<in> map_sum id f ` set xs \<longleftrightarrow> (\<exists>v. Inr v \<in> set xs \<and> e = f v)"
proof (induction xs)
  case (Cons x xs)
  then show ?case by (cases x) auto
qed simp

lemma key_ordered_interleave:
  "sorted (map event_key es) \<Longrightarrow> sorted (map v_key (oks vs)) \<Longrightarrow> key_ordered (interleave es vs)"
proof (induction es vs rule: interleave.induct)
  case (1 es)
  then show ?case by (simp add: key_ordered_def)
next
  case (4 e es v vs)
  show ?case
  proof (cases "event_precedes e v")
    case True
    then have "event_key e \<le> v_key v" by (auto simp: event_precedes_def)
    moreover have "Inr w \<in> set vs \<Longrightarrow> v_key v \<le> v_key w" for w using "4.prems" by simp
    ultimately show ?thesis using 4 True
      by (auto simp: set_interleave in_map_sum_Inr intro: order.trans)
  next
    case False
    then have "v_key v \<le> event_key e" by (auto simp: event_precedes_def)
    moreover have "x \<in> set es \<Longrightarrow> event_key e \<le> event_key x" for x using "4.prems" by simp
    ultimately show ?thesis using 4 False
      by (auto simp: set_interleave in_map_sum_Inr intro: order.trans)
  qed
qed (auto simp: set_interleave in_map_sum_Inr)

lemma key_ordered_check_order:
  "key_ordered (check_order l xs) \<and>
   (\<forall>k e. l = Some k \<and> Inr e \<in> set (check_order l xs) \<longrightarrow> k \<le> event_key e)"
  by (induction l xs rule: check_order.induct) (auto simp: goes_back_def not_less split: option.splits intro: order.trans)

lemma sorted_range_events: "sorted (map event_key (range_events rts))"
proof -
  have "sorted (map range_event_rank (range_events rts))" by (simp add: range_events_def)
  then show ?thesis
    unfolding sorted_map by (rule sorted_wrt_mono_rel [rotated]) (auto simp: range_event_rank_def)
qed

lemma merge_head_ok:
  "merge_head i item t = Inr (h, t') \<Longrightarrow> h = (case item of None \<Rightarrow> [] | Some e \<Rightarrow> [(e, i)])"
  by (auto simp: merge_head_def split: option.splits)

definition heads_from :: "sst_factory \<Rightarrow> nat \<Rightarrow> event_cursor list \<Rightarrow> (compaction_event \<times> nat) list \<Rightarrow> bool" where
  "heads_from fac i inputs heap \<longleftrightarrow> distinct (map snd heap) \<and>
     (\<forall>e j. (e, j) \<in> set heap \<longrightarrow> i \<le> j \<and> j < i + length inputs \<and>
        key_ordered (Inr e # cursor_items fac (inputs ! (j - i)))) \<and>
     (\<forall>k < length inputs. i + k \<in> snd ` set heap \<or> cursor_items fac (inputs ! k) = [])"

lemma heads_from_Cons:
  assumes rest: "heads_from fac (Suc i) inputs heap"
    and ord: "key_ordered (cursor_items fac c)"
    and items: "cursor_items fac c = (case item of None \<Rightarrow> [] | Some e \<Rightarrow> [Inr e]) @ cursor_items fac c' \<and>
      (item = None \<longrightarrow> cursor_items fac c = [])"
  shows "heads_from fac i (c' # inputs) ((case item of None \<Rightarrow> [] | Some e \<Rightarrow> [(e, i)]) @ heap)"
proof -
  have heap: "Suc i \<le> j \<and> j < Suc i + length inputs \<and>
      key_ordered (Inr e # cursor_items fac ((c' # inputs) ! (j - i)))" if "(e, j) \<in> set heap" for e j
  proof -
    have "Suc i \<le> j" using rest that by (auto simp: heads_from_def)
    then have "(c' # inputs) ! (j - i) = inputs ! (j - Suc i)" by (simp add: nth_Cons')
    with rest that show ?thesis by (auto simp: heads_from_def)
  qed
  then have i: "i \<notin> snd ` set heap" by fastforce
  let ?hd = "case item of None \<Rightarrow> [] | Some e \<Rightarrow> [(e, i)]"
  have "distinct (map snd (?hd @ heap))"
    using rest i by (cases item) (simp_all add: heads_from_def)
  moreover have "i \<le> j \<and> j < i + length (c' # inputs) \<and>
      key_ordered (Inr e # cursor_items fac ((c' # inputs) ! (j - i)))"
    if mem: "(e, j) \<in> set (?hd @ heap)" for e j
  proof (cases "(e, j) \<in> set heap")
    case True
    from heap [OF True] show ?thesis by (intro conjI) (simp, simp, blast)
  next
    case False
    then have "item = Some e" "j = i" using mem by (cases item; simp)+
    then show ?thesis using items ord by simp
  qed
  moreover have "i + k \<in> snd ` set (?hd @ heap) \<or> cursor_items fac ((c' # inputs) ! k) = []"
    if "k < length (c' # inputs)" for k
  proof (cases k)
    case 0
    then show ?thesis using items by (cases item) auto
  next
    case (Suc l)
    then show ?thesis using rest that by (auto simp: heads_from_def image_Un)
  qed
  ultimately show ?thesis unfolding heads_from_def by blast
qed

lemma merge_admit_ok:
  "merge_admit fac i cs t = Inr (inputs, heap, t') \<Longrightarrow> \<forall>c \<in> set cs. key_ordered (cursor_items fac c) \<Longrightarrow>
   heads_from fac i inputs heap \<and>
   mset (map (\<lambda>x. Inr (fst x)) heap @ concat (map (cursor_items fac) inputs)) =
     mset (concat (map (cursor_items fac) cs))"
proof (induction cs arbitrary: i t inputs heap)
  case (Cons c cs)
  obtain t1 item c' t2 hd t3 ins h where
    pull: "cursor_next fac c t1 = Inr (item, c', t2)"
    and hd: "hd = (case item of None \<Rightarrow> [] | Some e \<Rightarrow> [(e, i)])"
    and rest: "merge_admit fac (Suc i) cs t3 = Inr (ins, h, t')"
    and out: "inputs = c' # ins" "heap = hd @ h"
    using Cons.prems(1) by (auto dest!: merge_head_ok)
  note items = cursor_next_items [OF pull]
  have ih: "heads_from fac (Suc i) ins h"
    "mset (map (\<lambda>x. Inr (fst x)) h @ concat (map (cursor_items fac) ins)) =
      mset (concat (map (cursor_items fac) cs))"
    using Cons.IH [OF rest] Cons.prems(2) by auto
  have "heads_from fac i inputs heap"
    unfolding out hd by (rule heads_from_Cons [OF ih(1) _ items]) (use Cons.prems(2) in simp)
  moreover have "mset (map (\<lambda>x. Inr (fst x)) heap @ concat (map (cursor_items fac) inputs)) =
      mset (concat (map (cursor_items fac) (c # cs)))"
    using items ih(2) by (auto simp: out hd ac_simps split: option.splits)
  ultimately show ?case ..
qed (simp add: heads_from_def)

lemma merge_new_ok:
  assumes "merge_new fac cs t = Inr (m, t')" "\<And>c. c \<in> set cs \<Longrightarrow> key_ordered (cursor_items fac c)"
  shows "merge_ok fac m \<and> pending fac m = mset (concat (map (cursor_items fac) cs))"
proof -
  obtain t1 where "merge_admit fac 0 cs t1 = Inr (em_inputs m, em_heap m, t')"
    using assms(1) by (auto simp: merge_new_def)
  from merge_admit_ok [OF this] assms(2)
  have "heads_from fac 0 (em_inputs m) (em_heap m)"
    "pending fac m = mset (concat (map (cursor_items fac) cs))"
    by (auto simp: pending_def)
  then show ?thesis by (auto simp: heads_from_def intro!: merge_okI)
qed

section \<open>The contents of the inputs\<close>

definition file_versions :: "sst_factory \<Rightarrow> string \<Rightarrow> raw_version list" where
  "file_versions fac f = (case try_with (fac f) rd_versions of Inl _ \<Rightarrow> [] | Inr vs \<Rightarrow> oks vs)"

definition file_tombstones :: "sst_factory \<Rightarrow> string \<Rightarrow> range_tombstone list" where
  "file_tombstones fac f = (case fac f of Inl _ \<Rightarrow> [] | Inr r \<Rightarrow> rd_tombstones r)"

text \<open>The documented order of a raw version cursor: keys ascend.\<close>

definition versions_ascend :: "sst_factory \<Rightarrow> string \<Rightarrow> bool" where
  "versions_ascend fac f \<longleftrightarrow> sorted (map v_key (file_versions fac f))"

definition clean :: "('e + 'a) list \<Rightarrow> bool" where
  "clean xs \<longleftrightarrow> list_all is_ok xs"

lemma clean_simps [simp]:
  "clean []" "clean (Inr x # xs) = clean xs" "\<not> clean (Inl e # xs)"
  "clean (xs @ ys) \<longleftrightarrow> clean xs \<and> clean ys" "clean (map Inr zs)"
  by (auto simp: clean_def list_all_iff)

lemma clean_oks: "clean xs \<Longrightarrow> map Inr (oks xs) = xs"
proof (induction xs)
  case (Cons x xs)
  then show ?case by (cases x) auto
qed simp

lemma clean_map_sum: "clean xs \<Longrightarrow> map (map_sum id f) xs = map (\<lambda>x. Inr (f x)) (oks xs)"
proof (induction xs)
  case (Cons x xs)
  then show ?case by (cases x) auto
qed simp

lemma clean_concat: "clean (concat xss) \<longleftrightarrow> (\<forall>xs \<in> set xss. clean xs)"
  by (induction xss) auto

lemma clean_mset: "mset xs = mset (map Inr es) \<Longrightarrow> clean xs"
  by (drule mset_eq_setD) (auto simp: clean_def list_all_iff)

lemma mset_oks:
  assumes "mset xs = mset ys"
  shows "mset (oks xs) = mset (oks ys)"
proof -
  have "mset (oks xs) = image_mset projr {#x \<in># mset xs. is_ok x#}" for xs :: "('a + 'b) list"
  proof (induction xs)
    case (Cons x xs)
    then show ?case by (cases x) auto
  qed simp
  with assms show ?thesis by metis
qed

lemma clean_interleave: "clean (interleave es vs) \<longleftrightarrow> clean vs"
  by (induction es vs rule: interleave.induct) auto

lemma clean_check_order: "clean (check_order l xs) \<Longrightarrow> check_order l xs = xs"
  by (induction l xs rule: check_order.induct) (auto split: if_splits)

lemma mset_range_events:
  "mset (range_events rts) = mset (map RangeStart rts) + mset (map RangeEnd rts)"
proof -
  have "mset (concat (map (\<lambda>rt. [RangeStart rt, RangeEnd rt]) rts)) =
      mset (map RangeStart rts) + mset (map RangeEnd rts)"
    by (induction rts) auto
  then show ?thesis by (simp add: range_events_def)
qed

lemma clean_file_items:
  assumes "clean (file_items fac f)"
  shows "mset (oks (file_items fac f)) = mset (map Version (file_versions fac f)) +
    mset (map RangeStart (file_tombstones fac f)) + mset (map RangeEnd (file_tombstones fac f))"
proof -
  obtain r vs where r: "fac f = Inr r" "rd_versions r = Inr vs"
    using assms by (auto simp: file_items_def try_with_def split: sum.splits)
  then have items: "file_items fac f = interleave (range_events (rd_tombstones r)) vs"
    by (simp add: file_items_def)
  then have "clean vs" using assms by (simp add: clean_interleave)
  have "image_mset Inr (mset (oks (file_items fac f))) = mset (file_items fac f)"
    using clean_oks [OF assms] by (metis mset_map)
  also have "\<dots> = image_mset Inr (mset (range_events (rd_tombstones r)) + mset (map Version (oks vs)))"
    unfolding items mset_interleave
    by (simp add: clean_map_sum [OF \<open>clean vs\<close>] image_mset.compositionality o_def flip: mset_map)
  finally have "mset (oks (file_items fac f)) =
      mset (range_events (rd_tombstones r)) + mset (map Version (oks vs))"
    by (rule injD [OF multiset.inj_map, rotated]) (simp add: inj_def)
  then show ?thesis using r
    by (simp add: mset_range_events file_versions_def file_tombstones_def ac_simps)
qed

lemma key_ordered_file_items: "versions_ascend fac f \<Longrightarrow> key_ordered (file_items fac f)"
  by (auto simp: file_items_def versions_ascend_def file_versions_def try_with_def
      intro!: key_ordered_interleave sorted_range_events split: sum.splits)

lemma open_all_items:
  "open_all fac fs t = Inr (cs, t') \<Longrightarrow> map (cursor_items fac) cs = map (file_items fac) fs"
  by (induction fs arbitrary: cs t) (auto dest!: sst_cursor_open_items)

lemma chained_new_items: "chained_items fac (chained_new fs) = check_order None (concat (map (file_items fac) fs))"
  by (simp add: chained_items_def chained_new_def)

lemma collect_inputs_ordered:
  assumes run: "collect_compaction_stream_inputs fac src tgt lvl rep t = Inr (cs, t')"
    and asc: "\<And>f. f \<in> set src \<Longrightarrow> versions_ascend fac f" and c: "c \<in> set cs"
  shows "key_ordered (cursor_items fac c)"
proof -
  have "c \<in> set cs \<Longrightarrow> open_all fac src u = Inr (cs, u') \<Longrightarrow> key_ordered (cursor_items fac c)" for cs u u'
    using asc key_ordered_file_items by (drule_tac open_all_items) (metis image_iff list.set_map)
  with run c show ?thesis
    by (fastforce simp: collect_compaction_stream_inputs_def chained_new_items
        key_ordered_check_order split: if_splits)
qed

lemma collect_inputs_items:
  assumes "collect_compaction_stream_inputs fac src tgt lvl rep t = Inr (cs, t')"
    and "clean (concat (map (cursor_items fac) cs))"
  shows "concat (map (cursor_items fac) cs) = concat (map (file_items fac) (src @ tgt))"
  using assms
  by (auto simp: collect_compaction_stream_inputs_def chained_new_items
      dest!: open_all_items clean_check_order split: if_splits)

section \<open>Repair runs\<close>

text \<open>
  A table writer as its clients see it through \<^verbatim>\<open>DynSstWriter\<close>: the entries added so far, in
  order, and its size estimates, which are parameters. An added entry keeps the sequence,
  operation, value and expiration it is added with, so it is the raw version itself.
\<close>

record sst_content =
  sw_points :: "raw_version list"
  sw_ranges :: "range_tombstone list"

record writer_sizes =
  estimated_size_bytes :: "sst_content \<Rightarrow> nat"
  encoded_size_upper_bound :: "sst_content \<Rightarrow> nat option"
  bound_after_sorted_entry :: "sst_content \<Rightarrow> bytes \<Rightarrow> bytes option \<Rightarrow> nat option"
  additional_range_bound :: "sst_content \<Rightarrow> bytes \<Rightarrow> bytes \<Rightarrow> nat option"
  finished_file_size :: "sst_content \<Rightarrow> nat"

definition new_content :: sst_content where
  "new_content = \<lparr>sw_points = [], sw_ranges = []\<rparr>"

definition add_sorted_with_meta :: "raw_version \<Rightarrow> sst_content \<Rightarrow> interrupts \<Rightarrow>
    (sst_content \<times> interrupts) midge_result" where
  "add_sorted_with_meta v w t =
     try_with (checkpoint t) (\<lambda>t. Inr (w\<lparr>sw_points := sw_points w @ [v]\<rparr>, t))"

definition add_range_tombstone :: "bytes \<Rightarrow> bytes \<Rightarrow> u64 \<Rightarrow> sst_content \<Rightarrow> interrupts \<Rightarrow>
    (sst_content \<times> interrupts) midge_result" where
  "add_range_tombstone start ende seq w t =
     try_with (checkpoint t) (\<lambda>t.
       Inr (w\<lparr>sw_ranges := sw_ranges w @ [\<lparr>rt_start = start, rt_end = ende, rt_seq = seq\<rparr>]\<rparr>, t))"

primrec repair_write :: "compaction_event \<Rightarrow> sst_content \<Rightarrow> interrupts \<Rightarrow>
    (sst_content \<times> interrupts) midge_result" where
  "repair_write (Version v) w t = add_sorted_with_meta v w t"
| "repair_write (RangeStart rt) w t = add_range_tombstone (rt_start rt) (rt_end rt) (rt_seq rt) w t"
| "repair_write (RangeEnd rt) w t = Inr (w, t)"
| "repair_write (Boundary k) w t = Inr (w, t)"

definition abort_every_1024 :: "nat \<Rightarrow> interrupts \<Rightarrow> interrupts midge_result" where
  "abort_every_1024 seen t = (if seen mod 1024 = 0 then checkpoint t else Inr t)"

definition repair_fits :: "writer_sizes \<Rightarrow> nat \<Rightarrow> sst_content \<Rightarrow> unit midge_result" where
  "repair_fits sz byte_limit w = (case encoded_size_upper_bound sz w of
     Some n \<Rightarrow> if n > byte_limit
       then Inl (ResourceLimit ''repair scratch run exceeds admitted local capacity'') else Inr ()
   | None \<Rightarrow> Inl (ResourceLimit ''repair scratch run exceeds admitted local capacity''))"

function repair_loop :: "sst_factory \<Rightarrow> writer_sizes \<Rightarrow> nat \<Rightarrow> event_merge \<Rightarrow> sst_content \<Rightarrow> nat \<Rightarrow>
    interrupts \<Rightarrow> (sst_content \<times> nat \<times> interrupts) midge_result" where
  "repair_loop fac sz byte_limit m w seen t =
     try_with (next_event fac m t) (\<lambda>(item, m', t). case item of
       None \<Rightarrow> Inr (w, seen, t)
     | Some e \<Rightarrow>
         try_with (abort_every_1024 seen t) (\<lambda>t.
         try_with (repair_write e w t) (\<lambda>(w, t).
         try_with (repair_fits sz byte_limit w) (\<lambda>_.
           repair_loop fac sz byte_limit m' w (saturating_add_usize seen 1) t))))"
  by pat_completeness auto
termination
  by (relation "measure (\<lambda>(fac, sz, byte_limit, m, w, seen, t). size (pending fac m))")
    (auto dest: next_event_size)

declare repair_loop.simps [simp del]

definition merge_repair_inputs_to_run :: "sst_factory \<Rightarrow> writer_sizes \<Rightarrow> string list \<Rightarrow> nat \<Rightarrow>
    interrupts \<Rightarrow> (sst_content \<times> interrupts) midge_result" where
  "merge_repair_inputs_to_run fac sz sources byte_limit t =
     try_with (collect_compaction_stream_inputs fac sources [] 1 True t) (\<lambda>(cursors, t).
     try_with (checkpoint t) (\<lambda>t.
     try_with (merge_new fac cursors t) (\<lambda>(merged, t).
     try_with (checkpoint t) (\<lambda>t.
     try_with (checkpoint t) (\<lambda>t.
     try_with (repair_loop fac sz byte_limit merged new_content 0 t) (\<lambda>(w, seen, t).
     if seen = 0 then Inl (Corruption ''overlap repair input has no versions or tombstones'')
     else try_with (checkpoint t) (\<lambda>t.
       try_with (checkpoint t) (\<lambda>t. Inr (w, t)))))))))"

text \<open>The versions and the tombstones a list of events carries.\<close>

fun event_versions :: "compaction_event list \<Rightarrow> raw_version list" where
  "event_versions [] = []"
| "event_versions (Version v # es) = v # event_versions es"
| "event_versions (_ # es) = event_versions es"

fun event_starts :: "compaction_event list \<Rightarrow> range_tombstone list" where
  "event_starts [] = []"
| "event_starts (RangeStart rt # es) = rt # event_starts es"
| "event_starts (_ # es) = event_starts es"

lemma mset_event_versions: "mset (event_versions es) =
   image_mset (\<lambda>e. case e of Version v \<Rightarrow> v) {#e \<in># mset es. \<exists>v. e = Version v#}"
  by (induction es rule: event_versions.induct) auto

lemma mset_event_starts: "mset (event_starts es) =
   image_mset (\<lambda>e. case e of RangeStart rt \<Rightarrow> rt) {#e \<in># mset es. \<exists>rt. e = RangeStart rt#}"
  by (induction es rule: event_starts.induct) auto

lemma set_event_versions [simp]: "set (event_versions es) = {v. Version v \<in> set es}"
  by (induction es rule: event_versions.induct) auto

lemma set_event_starts [simp]: "set (event_starts es) = {rt. RangeStart rt \<in> set es}"
  by (induction es rule: event_starts.induct) auto

lemma event_versions_append [simp]: "event_versions (xs @ ys) = event_versions xs @ event_versions ys"
  by (induction xs rule: event_versions.induct) auto

lemma event_starts_append [simp]: "event_starts (xs @ ys) = event_starts xs @ event_starts ys"
  by (induction xs rule: event_starts.induct) auto

lemma event_versions_map [simp]:
  "event_versions (map Version vs) = vs"
  "event_versions (map RangeStart rs) = []" "event_versions (map RangeEnd rs) = []"
  by (induction vs; simp) (induction rs; simp)+

lemma event_starts_map [simp]:
  "event_starts (map Version vs) = []"
  "event_starts (map RangeStart rs) = rs" "event_starts (map RangeEnd rs) = []"
  by (induction vs; simp) (induction rs; simp)+

lemma sorted_event_versions: "sorted (map event_key es) \<Longrightarrow> sorted (map v_key (event_versions es))"
  by (induction es rule: event_versions.induct) auto

text \<open>What the inputs of a run carry, when every item of theirs could be read.\<close>

definition input_events :: "sst_factory \<Rightarrow> string list \<Rightarrow> compaction_event multiset" where
  "input_events fac fs = mset (map Version (concat (map (file_versions fac) fs))) +
     mset (map RangeStart (concat (map (file_tombstones fac) fs))) +
     mset (map RangeEnd (concat (map (file_tombstones fac) fs)))"

lemma oks_append [simp]: "oks (xs @ ys) = oks xs @ oks ys"
proof (induction xs)
  case (Cons x xs)
  then show ?case by (cases x) auto
qed simp

lemma clean_input_events:
  "clean (concat (map (file_items fac) fs)) \<Longrightarrow>
   mset (oks (concat (map (file_items fac) fs))) = input_events fac fs"
  by (induction fs) (auto simp: input_events_def clean_file_items)

lemma input_events_versions:
  assumes "mset es = input_events fac fs"
  shows "mset (event_versions es) = mset (concat (map (file_versions fac) fs))"
    and "mset (event_starts es) = mset (concat (map (file_tombstones fac) fs))"
proof -
  let ?es = "map Version (concat (map (file_versions fac) fs)) @
    map RangeStart (concat (map (file_tombstones fac) fs)) @ map RangeEnd (concat (map (file_tombstones fac) fs))"
  have es: "mset es = mset ?es" using assms by (simp add: input_events_def)
  show "mset (event_versions es) = mset (concat (map (file_versions fac) fs))"
    using es mset_event_versions [of es] mset_event_versions [of ?es] by simp
  show "mset (event_starts es) = mset (concat (map (file_tombstones fac) fs))"
    using es mset_event_starts [of es] mset_event_starts [of ?es] by simp
qed

lemma repair_loop_drains:
  "repair_loop fac sz lim m w seen t = Inr (w', seen', t') \<Longrightarrow> merge_ok fac m \<Longrightarrow>
   \<exists>es. pending fac m = mset (map Inr es) \<and> sorted (map event_key es) \<and>
     sw_points w' = sw_points w @ event_versions es \<and> sw_ranges w' = sw_ranges w @ event_starts es"
proof (induction fac sz lim m w seen t rule: repair_loop.induct)
  case (1 fac sz lim m w seen t)
  note run = "1.prems"(1) [unfolded repair_loop.simps [of fac sz lim m w seen t]]
  then obtain item m1 t1 where nxt: "next_event fac m t = Inr (item, m1, t1)" by auto
  show ?case
  proof (cases item)
    case None
    then show ?thesis using run nxt next_event_None [OF "1.prems"(2)] by auto
  next
    case (Some e)
    then obtain t2 w2 t3 where step: "abort_every_1024 seen t1 = Inr t2"
      "repair_write e w t2 = Inr (w2, t3)" "repair_fits sz lim w2 = Inr ()"
      and rest: "repair_loop fac sz lim m1 w2 (saturating_add_usize seen 1) t3 = Inr (w', seen', t')"
      using run nxt by auto
    note nx = next_event_Some [OF "1.prems"(2) nxt [unfolded Some]]
    from "1.IH" [OF nxt refl refl Some step(1,2) refl step(3) rest nx(2)] obtain es where
      es: "pending fac m1 = mset (map Inr es)" "sorted (map event_key es)"
        "sw_points w' = sw_points w2 @ event_versions es" "sw_ranges w' = sw_ranges w2 @ event_starts es"
      by blast
    have "sorted (map event_key (e # es))" using es(1,2) nx(1,4) by auto
    moreover have "sw_points w' = sw_points w @ event_versions (e # es)"
      "sw_ranges w' = sw_ranges w @ event_starts (e # es)"
      using step(2) es(3,4) by (cases e; auto simp: add_sorted_with_meta_def add_range_tombstone_def)+
    moreover have "pending fac m = mset (map Inr (e # es))" using nx(1) es(1) by simp
    ultimately show ?thesis by blast
  qed
qed

text \<open>C17. A repair run keeps the whole history of its inputs: a successful merge of the sources
  into one run holds exactly their versions, in key order, and exactly their range
  tombstones. No version is selected and no tombstone is collected.\<close>

theorem repair_run_keeps_history:
  assumes "merge_repair_inputs_to_run fac sz sources byte_limit t = Inr (w, t')"
    and "\<forall>f \<in> set sources. versions_ascend fac f"
  shows "mset (sw_points w) = mset (concat (map (file_versions fac) sources)) \<and>
    sorted (map v_key (sw_points w)) \<and>
    mset (sw_ranges w) = mset (concat (map (file_tombstones fac) sources))"
proof -
  obtain cs t1 t2 m t3 t4 seen t5 where
    cs: "collect_compaction_stream_inputs fac sources [] 1 True t = Inr (cs, t1)"
    and m: "merge_new fac cs t2 = Inr (m, t3)"
    and loop: "repair_loop fac sz byte_limit m new_content 0 t4 = Inr (w, seen, t5)"
    using assms(1) by (auto simp: merge_repair_inputs_to_run_def split: if_splits)
  have ord: "key_ordered (cursor_items fac c)" if "c \<in> set cs" for c
    using collect_inputs_ordered [OF cs _ that] assms(2) by blast
  from merge_new_ok [OF m ord] obtain es where
    es: "mset (concat (map (cursor_items fac) cs)) = mset (map Inr es)" "sorted (map event_key es)"
      "sw_points w = event_versions es" "sw_ranges w = event_starts es"
    using repair_loop_drains [OF loop] by (auto simp: new_content_def)
  note cl = clean_mset [OF es(1)]
  have "mset es = mset (oks (concat (map (cursor_items fac) cs)))"
    using mset_oks [OF es(1)] by simp
  then have "mset es = input_events fac sources"
    using collect_inputs_items [OF cs cl] clean_input_events cl by (metis append_Nil2)
  from input_events_versions [OF this] es(2-4) show ?thesis by (simp add: sorted_event_versions)
qed

section \<open>A concrete run\<close>

text \<open>
  Two tables that share a key, one of them with a range tombstone, and a writer that counts its
  points: the runs the instances below evaluate.
\<close>

definition sample_version :: "bytes \<Rightarrow> u64 \<Rightarrow> raw_version" where
  "sample_version k q =
     \<lparr>v_key = k, v_seq = q, v_is_tombstone = False, v_value = Some [1], v_expiration = None\<rparr>"

definition sample_tombstone :: range_tombstone where
  "sample_tombstone = \<lparr>rt_start = [1], rt_end = [3], rt_seq = 5\<rparr>"

definition sample_tables :: sst_factory where
  "sample_tables name = (if name = ''new''
     then Inr \<lparr>rd_tombstones = [sample_tombstone],
            rd_versions = Inr [Inr (sample_version [1] 7), Inr (sample_version [2] 3)]\<rparr>
     else Inr \<lparr>rd_tombstones = [],
            rd_versions = Inr [Inr (sample_version [1] 2), Inr (sample_version [4] 1)]\<rparr>)"

definition sample_sizes :: writer_sizes where
  "sample_sizes = \<lparr>estimated_size_bytes = (\<lambda>w. length (sw_points w)),
     encoded_size_upper_bound = (\<lambda>w. Some (length (sw_points w))),
     bound_after_sorted_entry = (\<lambda>w _ _. Some (Suc (length (sw_points w)))),
     additional_range_bound = (\<lambda>_ _ _. Some 1),
     finished_file_size = (\<lambda>w. length (sw_points w))\<rparr>"

definition sample_repaired :: sst_content where
  "sample_repaired = \<lparr>sw_points = [sample_version [1] 7, sample_version [1] 2, sample_version [2] 3,
     sample_version [4] 1], sw_ranges = [sample_tombstone]\<rparr>"

lemma sample_ascend: "\<forall>f \<in> set [''new'', ''old'']. versions_ascend sample_tables f"
  by code_simp

lemma sample_repair:
  "merge_repair_inputs_to_run sample_tables sample_sizes [''new'', ''old''] 100 [] = Inr (sample_repaired, [])"
  by code_simp

theorem repair_run_keeps_history_witness:
  "merge_repair_inputs_to_run sample_tables sample_sizes [''new'', ''old''] 100 [] = Inr (sample_repaired, []) \<and>
   mset (sw_points sample_repaired) = mset (concat (map (file_versions sample_tables) [''new'', ''old''])) \<and>
   sorted (map v_key (sw_points sample_repaired)) \<and>
   mset (sw_ranges sample_repaired) = mset (concat (map (file_tombstones sample_tables) [''new'', ''old'']))"
  using repair_run_keeps_history [OF sample_repair sample_ascend] sample_repair by blast

end
