(* ===== verification/Compaction_Overlap.thy ===== *)
theory Compaction_Overlap
  imports File_Meta Compaction_Merge
begin

text \<open>
  The overlap of one output with the level below its target
  (\<^verbatim>\<open>src/src/compaction/executor/overlap.rs\<close>): prefix sums over the sorted endpoints of the
  grandparent files, the interval query, and the tracker that decides when an output has
  crossed the budget. The query is proved equal to the plain sum over the files that meet the
  interval. Sums are natural numbers: \<^verbatim>\<open>u128\<close> holds the sum of any number of \<^verbatim>\<open>u64\<close> sizes a
  vector can have.
\<close>

record grandparent_overlap =
  go_max_bytes :: nat
  go_starts :: "(bytes \<times> nat) list"
  go_ends :: "(bytes \<times> nat) list"
  go_unknown_bytes :: nat

fun running_totals :: "nat \<Rightarrow> (bytes \<times> nat) list \<Rightarrow> (bytes \<times> nat) list" where
  "running_totals acc [] = []"
| "running_totals acc ((k, n) # xs) = (k, acc + n) # running_totals (acc + n) xs"

definition prefix_sums :: "(bytes \<times> nat) list \<Rightarrow> (bytes \<times> nat) list" where
  "prefix_sums endpoints = running_totals 0 (sort_key fst endpoints)"

fun collect_endpoints :: "file_meta list \<Rightarrow> (bytes \<times> nat) list \<times> (bytes \<times> nat) list \<times> nat" where
  "collect_endpoints [] = ([], [], 0)"
| "collect_endpoints (f # fs) = (case collect_endpoints fs of (starts, ends, unknown) \<Rightarrow>
     (case complete_bounds f of
        Some (lower, upper) \<Rightarrow>
          ((lower, unat (fm_size_bytes f)) # starts, (upper, unat (fm_size_bytes f)) # ends, unknown)
      | None \<Rightarrow> (starts, ends, unat (fm_size_bytes f) + unknown)))"

definition from_files :: "file_meta list \<Rightarrow> nat \<Rightarrow> grandparent_overlap" where
  "from_files files max_bytes = (case collect_endpoints files of (starts, ends, unknown) \<Rightarrow>
     \<lparr>go_max_bytes = max_bytes, go_starts = prefix_sums starts, go_ends = prefix_sums ends,
      go_unknown_bytes = unknown\<rparr>)"

text \<open>
  \<^verbatim>\<open>partition_point\<close> counts the entries of the prefix on which the predicate holds; the total at
  the last of them, if any, is the prefix sum.
\<close>

definition total_before :: "(bytes \<Rightarrow> bool) \<Rightarrow> (bytes \<times> nat) list \<Rightarrow> nat" where
  "total_before p endpoints =
     (let n = length (takeWhile (\<lambda>(k, _). p k) endpoints)
      in if n = 0 then 0 else snd (endpoints ! (n - 1)))"

definition bytes_between :: "grandparent_overlap \<Rightarrow> bytes \<Rightarrow> bytes \<Rightarrow> nat" where
  "bytes_between g lower upper =
     min u64_max (total_before (\<lambda>k. k \<le> upper) (go_starts g) -
       total_before (\<lambda>k. k < lower) (go_ends g) + go_unknown_bytes g)"

definition permits_whole_file :: "grandparent_overlap \<Rightarrow> bytes \<Rightarrow> bytes \<Rightarrow> bool" where
  "permits_whole_file g lower upper \<longleftrightarrow>
     go_max_bytes g = 0 \<or> bytes_between g lower upper \<le> go_max_bytes g"

definition boundary_cursor :: "grandparent_overlap \<Rightarrow> interrupts \<Rightarrow>
    (event_cursor list \<times> interrupts) midge_result" where
  "boundary_cursor g t =
     (if go_max_bytes g = 0 \<or> go_starts g = [] then Inr ([], t)
      else try_with (checkpoint t) (\<lambda>t.
        Inr ([BoundaryCursor (remdups_adj (sort (map fst (go_starts g))))], t)))"

record overlap_tracker =
  ot_lower :: "bytes option"
  ot_previous_bytes :: nat

definition new_tracker :: overlap_tracker where
  "new_tracker = \<lparr>ot_lower = None, ot_previous_bytes = 0\<rparr>"

definition overlap_should_roll :: "grandparent_overlap \<Rightarrow> overlap_tracker \<Rightarrow> bytes \<Rightarrow> bool" where
  "overlap_should_roll g tr key = (case ot_lower tr of
     None \<Rightarrow> False
   | Some lower \<Rightarrow>
       go_max_bytes g \<noteq> 0 \<and> bytes_between g lower key > go_max_bytes g \<and>
       bytes_between g lower key > ot_previous_bytes tr)"

definition overlap_observe :: "grandparent_overlap \<Rightarrow> overlap_tracker \<Rightarrow> bytes \<Rightarrow> interrupts \<Rightarrow>
    (overlap_tracker \<times> interrupts) midge_result" where
  "overlap_observe g tr key t = (case ot_lower tr of
     None \<Rightarrow> try_with (checkpoint t) (\<lambda>t.
       Inr (\<lparr>ot_lower = Some key, ot_previous_bytes = bytes_between g key key\<rparr>, t))
   | Some lower \<Rightarrow> Inr (tr\<lparr>ot_previous_bytes := bytes_between g lower key\<rparr>, t))"

section \<open>The query is the sum over the files that meet the interval\<close>

definition weight :: "(bytes \<Rightarrow> bool) \<Rightarrow> (bytes \<times> nat) list \<Rightarrow> nat" where
  "weight p xs = sum_list (map snd (filter (\<lambda>(k, _). p k) xs))"

text \<open>A file is charged to an interval unless its complete bounds lie outside it.\<close>

definition meets :: "bytes \<Rightarrow> bytes \<Rightarrow> file_meta \<Rightarrow> bool" where
  "meets lower upper f = (case complete_bounds f of
     None \<Rightarrow> True | Some (a, b) \<Rightarrow> a \<le> upper \<and> lower \<le> b)"

definition overlap_bytes :: "file_meta list \<Rightarrow> bytes \<Rightarrow> bytes \<Rightarrow> nat" where
  "overlap_bytes fs lower upper =
     sum_list (map (\<lambda>f. unat (fm_size_bytes f)) (filter (meets lower upper) fs))"

lemma total_before_running:
  "total_before p (running_totals c xs) =
     (if xs \<noteq> [] \<and> p (fst (hd xs)) then c + weight p (takeWhile (\<lambda>(k, _). p k) xs) else 0)"
proof (induction xs arbitrary: c)
  case (Cons x xs)
  obtain k n where x: "x = (k, n)" by (cases x)
  show ?case
  proof (cases "p k")
    case True
    have step: "total_before p ((k, c + n) # ys) = (if ys \<noteq> [] \<and> p (fst (hd ys)) then total_before p ys else c + n)"
      for ys using True by (cases ys) (auto simp: total_before_def Let_def split: prod.splits)
    have "running_totals (c + n) xs \<noteq> [] \<and> p (fst (hd (running_totals (c + n) xs))) \<longleftrightarrow>
        xs \<noteq> [] \<and> p (fst (hd xs))"
      by (cases xs) auto
    moreover have "weight p (takeWhile (\<lambda>(k, _). p k) xs) = 0" if "\<not> (xs \<noteq> [] \<and> p (fst (hd xs)))"
      using that by (cases xs) (auto simp: weight_def)
    ultimately show ?thesis using True Cons.IH [of "c + n"] step
      by (auto simp: x weight_def)
  qed (auto simp: x total_before_def)
qed (simp add: total_before_def)

lemma takeWhile_filter_sorted:
  assumes "sorted (map fst xs)" "\<And>a b. a \<le> b \<Longrightarrow> p b \<Longrightarrow> p a"
  shows "takeWhile (\<lambda>(k, _). p k) xs = filter (\<lambda>(k, _). p k) xs"
  using assms(1)
proof (induction xs)
  case (Cons x xs)
  show ?case
  proof (cases "p (fst x)")
    case False
    then have "y \<in> set xs \<Longrightarrow> \<not> p (fst y)" for y
      using Cons.prems assms(2) by auto
    with False show ?thesis by (auto simp: case_prod_beta)
  qed (use Cons in \<open>auto simp: case_prod_beta\<close>)
qed simp

lemma total_before_prefix_sums:
  assumes "\<And>a b. a \<le> b \<Longrightarrow> p b \<Longrightarrow> p a"
  shows "total_before p (prefix_sums xs) = weight p xs"
proof -
  let ?ys = "sort_key fst xs"
  have tw: "takeWhile (\<lambda>(k, _). p k) ?ys = filter (\<lambda>(k, _). p k) ?ys"
    by (rule takeWhile_filter_sorted) (use assms in auto)
  have "weight p (takeWhile (\<lambda>(k, _). p k) ?ys) = weight p ?ys"
    unfolding tw by (simp add: weight_def)
  moreover have "mset (map snd (filter (\<lambda>(k, _). p k) ?ys)) = mset (map snd (filter (\<lambda>(k, _). p k) xs))"
    by (simp add: mset_filter)
  then have "weight p ?ys = weight p xs" unfolding weight_def by (metis sum_mset_sum_list)
  moreover have "weight p ?ys = 0" if "\<not> (?ys \<noteq> [] \<and> p (fst (hd ?ys)))"
    using that tw by (cases ?ys) (auto simp: weight_def case_prod_beta)
  ultimately show ?thesis unfolding prefix_sums_def total_before_running by auto
qed

lemma collect_endpoints_weight:
  assumes "collect_endpoints fs = (starts, ends, unknown)" "lower \<le> upper"
  shows "weight (\<lambda>k. k < lower) ends \<le> weight (\<lambda>k. k \<le> upper) starts \<and>
    overlap_bytes fs lower upper =
      weight (\<lambda>k. k \<le> upper) starts - weight (\<lambda>k. k < lower) ends + unknown"
  using assms(1)
proof (induction fs arbitrary: starts ends unknown)
  case (Cons f fs)
  obtain s e u where fs: "collect_endpoints fs = (s, e, u)" by (cases "collect_endpoints fs") auto
  note ih = Cons.IH [OF fs]
  show ?case
  proof (cases "complete_bounds f")
    case None
    with Cons.prems fs ih show ?thesis by (auto simp: overlap_bytes_def meets_def weight_def)
  next
    case (Some b)
    obtain a c where b: "b = (a, c)" by (cases b)
    have "a \<le> c" using complete_bounds_ordered Some b by blast
    then have "c < lower \<Longrightarrow> a \<le> upper" using assms(2) by (meson less_imp_le order.trans)
    with Cons.prems fs ih Some b show ?thesis
      by (auto simp: overlap_bytes_def meets_def weight_def not_le not_less)
  qed
qed (simp add: overlap_bytes_def weight_def)

text \<open>C27. The overlap query is exact: on prefix sums built from the grandparent files, the
  bytes between two keys are the total size of the files that may meet the interval,
  saturated at the largest \<^verbatim>\<open>u64\<close>. The subtraction never goes below zero.\<close>

theorem bytes_between_exact:
  assumes "lower \<le> upper"
  shows "bytes_between (from_files files max_bytes) lower upper =
    min u64_max (overlap_bytes files lower upper)"
proof -
  obtain s e u where c: "collect_endpoints files = (s, e, u)" by (cases "collect_endpoints files") auto
  have "total_before (\<lambda>k. k \<le> upper) (prefix_sums s) = weight (\<lambda>k. k \<le> upper) s"
    "total_before (\<lambda>k. k < lower) (prefix_sums e) = weight (\<lambda>k. k < lower) e"
    by (rule total_before_prefix_sums; auto)+
  with collect_endpoints_weight [OF c assms] c show ?thesis
    by (simp add: bytes_between_def from_files_def)
qed

definition sample_file :: file_meta where
  "sample_file = \<lparr>fm_name = ''f'', fm_level = 2, fm_size_bytes = 40, fm_content_crc32c = None, fm_cf_id = 1,
     fm_sst_seq = 1, fm_smallest_key = Some [2], fm_largest_key = Some [5], fm_smallest_seq = Some 1,
     fm_largest_seq = Some 9, fm_key_bounds_complete = True, fm_earliest_expiration_millis = None,
     fm_sublevel = 0\<rparr>"

theorem bytes_between_exact_witness:
  "bytes_between (from_files [sample_file] 10) [3] [4] = min u64_max (overlap_bytes [sample_file] [3] [4]) \<and>
   overlap_bytes [sample_file] [3] [4] = 40"
  using bytes_between_exact [of "[3]" "[4]" "[sample_file]" 10]
  by (simp add: overlap_bytes_def meets_def complete_bounds_def sample_file_def)

end
