(* ===== verification/Compaction_Partition.thy ===== *)
theory Compaction_Partition
  imports Btree Sst_Names Compaction_Overlap
begin

text \<open>
  The partitioned output of compaction (\<^verbatim>\<open>src/src/compaction/executor/partition.rs\<close> and
  \<^verbatim>\<open>executor.rs\<close>): range tombstones that are open at the current key, the tombstones of the
  current output, the roller that owns the output writer, the reduction of one key group, and
  the loop over the merge. Byte reservations, cancellation, the file system and the output
  sink are checkpoints of the tape; the size estimates of the writer are parameters, so the
  theorems hold for every way of cutting the output into tables. The removal of finished
  files after a failure and the log lines are not modelled.
\<close>

section \<open>Tombstones of the current output\<close>

definition partition_key :: "range_tombstone \<Rightarrow> bytes \<times> bytes \<times> u64" where
  "partition_key rt = (rt_start rt, rt_end rt, rt_seq rt)"

definition active_key :: "range_tombstone \<Rightarrow> u64 \<times> bytes \<times> bytes" where
  "active_key rt = (rt_seq rt, rt_start rt, rt_end rt)"

record partition_tombstones =
  pt_entries :: "((bytes \<times> bytes \<times> u64) \<times> range_tombstone) list"
  pt_encoded_bytes :: nat
  pt_pending_bytes :: nat

record active_tombstones =
  at_live :: "((u64 \<times> bytes \<times> bytes) \<times> range_tombstone) list"
  at_obsolete :: "((u64 \<times> bytes \<times> bytes) \<times> range_tombstone) list"

record range_tombstone_tracker =
  rk_active :: active_tombstones
  rk_partition :: partition_tombstones

definition new_tombstone_tracker :: range_tombstone_tracker where
  "new_tombstone_tracker =
     \<lparr>rk_active = \<lparr>at_live = [], at_obsolete = []\<rparr>,
      rk_partition = \<lparr>pt_entries = [], pt_encoded_bytes = 0, pt_pending_bytes = 0\<rparr>\<rparr>"

definition tombstone_is_obsolete :: "u64 \<Rightarrow> u64 option \<Rightarrow> bool" where
  "tombstone_is_obsolete sequence horizon =
     (case horizon of None \<Rightarrow> True | Some h \<Rightarrow> sequence \<le> h)"

definition range_tombstone_is_obsolete :: "range_tombstone \<Rightarrow> tombstone_gc_policy \<Rightarrow> bool" where
  "range_tombstone_is_obsolete rt policy \<longleftrightarrow>
     range_eligible policy \<and> tombstone_is_obsolete (rt_seq rt) (snapshot_horizon policy)"

definition encoded_tombstone_upper_bound :: "range_tombstone \<Rightarrow> nat" where
  "encoded_tombstone_upper_bound rt =
     saturating_add_usize (saturating_add_usize (saturating_add_usize (saturating_mul_usize 4 2) 8)
       (length (rt_start rt))) (length (rt_end rt))"

definition lower_clip :: "bytes option \<Rightarrow> bytes \<Rightarrow> bytes" where
  "lower_clip lower key = (case lower of None \<Rightarrow> key | Some l \<Rightarrow> max key l)"

definition upper_clip :: "bytes option \<Rightarrow> bytes \<Rightarrow> bytes" where
  "upper_clip upper key = (case upper of None \<Rightarrow> key | Some u \<Rightarrow> min key u)"

text \<open>The growth one pending tombstone adds to the writer's bound.\<close>

definition pending_tombstone_size :: "writer_sizes \<Rightarrow> sst_content \<Rightarrow> bytes option \<Rightarrow> range_tombstone \<Rightarrow>
    nat midge_result" where
  "pending_tombstone_size sz w lower rt =
     (if rt_end rt \<le> lower_clip lower (rt_start rt) then Inr 0
      else ok_or (ResourceLimit ''compaction writer cannot bound pending range tombstones'')
        (additional_range_bound sz w (lower_clip lower (rt_start rt)) (rt_end rt)))"

type_synonym pending_bound = "(sst_content \<times> bytes option) option"

definition pt_insert :: "writer_sizes \<Rightarrow> pending_bound \<Rightarrow> range_tombstone \<Rightarrow> partition_tombstones \<Rightarrow>
    interrupts \<Rightarrow> (partition_tombstones \<times> interrupts) midge_result" where
  "pt_insert sz pb rt p t =
     (if map_of (pt_entries p) (partition_key rt) \<noteq> None then Inr (p, t)
      else
        try_with (case pb of None \<Rightarrow> Inr 0
            | Some (w, lower) \<Rightarrow> pending_tombstone_size sz w lower rt) (\<lambda>growth.
        try_with (checkpoint t) (\<lambda>t.
          Inr (\<lparr>pt_entries = bt_insert (partition_key rt) rt (pt_entries p),
            pt_encoded_bytes = saturating_add_usize (pt_encoded_bytes p) (encoded_tombstone_upper_bound rt),
            pt_pending_bytes = saturating_add_usize (pt_pending_bytes p) growth\<rparr>, t))))"

definition at_contains :: "range_tombstone \<Rightarrow> active_tombstones \<Rightarrow> bool" where
  "at_contains rt a \<longleftrightarrow> map_of (at_live a) (active_key rt) \<noteq> None \<or>
     map_of (at_obsolete a) (active_key rt) \<noteq> None"

definition at_remove :: "range_tombstone \<Rightarrow> active_tombstones \<Rightarrow> active_tombstones" where
  "at_remove rt a = \<lparr>at_live = bt_remove (active_key rt) (at_live a),
     at_obsolete = bt_remove (active_key rt) (at_obsolete a)\<rparr>"

definition at_insert :: "bool \<Rightarrow> range_tombstone \<Rightarrow> active_tombstones \<Rightarrow> interrupts \<Rightarrow>
    (active_tombstones \<times> interrupts) midge_result" where
  "at_insert obsolete rt a t =
     (if at_contains rt a then Inr (a, t)
      else try_with (checkpoint t) (\<lambda>t. Inr
        (if obsolete then a\<lparr>at_obsolete := bt_insert (active_key rt) rt (at_obsolete a)\<rparr>
         else a\<lparr>at_live := bt_insert (active_key rt) rt (at_live a)\<rparr>, t)))"

definition highest_obsolete_cover :: "range_tombstone_tracker \<Rightarrow> range_tombstone option" where
  "highest_obsolete_cover r = (case at_obsolete (rk_active r) of [] \<Rightarrow> None
     | entries \<Rightarrow> Some (snd (last entries)))"

fun advance_to_key :: "compaction_event list \<Rightarrow> range_tombstone_tracker \<Rightarrow> range_tombstone_tracker" where
  "advance_to_key [] r = r"
| "advance_to_key (RangeEnd rt # es) r =
     advance_to_key es (r\<lparr>rk_active := at_remove rt (rk_active r)\<rparr>)"
| "advance_to_key (_ # es) r = advance_to_key es r"

definition observe_start :: "writer_sizes \<Rightarrow> tombstone_gc_policy \<Rightarrow> pending_bound \<Rightarrow> range_tombstone \<Rightarrow>
    range_tombstone_tracker \<Rightarrow> interrupts \<Rightarrow> (range_tombstone_tracker \<times> interrupts) midge_result" where
  "observe_start sz policy pb rt r t =
     (if rt_end rt \<le> rt_start rt
      then Inl (Corruption ''compaction observed an empty or inverted range tombstone'')
      else
        try_with (if range_tombstone_is_obsolete rt policy then Inr (rk_partition r, t)
            else pt_insert sz pb rt (rk_partition r) t) (\<lambda>(p, t).
        try_with (at_insert (range_tombstone_is_obsolete rt policy) rt (rk_active r) t) (\<lambda>(a, t).
          Inr (\<lparr>rk_active = a, rk_partition = p\<rparr>, t))))"

fun observe_starts :: "writer_sizes \<Rightarrow> tombstone_gc_policy \<Rightarrow> pending_bound \<Rightarrow> range_tombstone list \<Rightarrow>
    range_tombstone_tracker \<Rightarrow> interrupts \<Rightarrow> (range_tombstone_tracker \<times> interrupts) midge_result" where
  "observe_starts sz policy pb [] r t = Inr (r, t)"
| "observe_starts sz policy pb (rt # rts) r t =
     try_with (observe_start sz policy pb rt r t) (\<lambda>(r, t).
       observe_starts sz policy pb rts r t)"

fun pt_insert_all :: "writer_sizes \<Rightarrow> pending_bound \<Rightarrow> range_tombstone list \<Rightarrow> partition_tombstones \<Rightarrow>
    interrupts \<Rightarrow> (partition_tombstones \<times> interrupts) midge_result" where
  "pt_insert_all sz pb [] p t = Inr (p, t)"
| "pt_insert_all sz pb (rt # rts) p t =
     try_with (pt_insert sz pb rt p t) (\<lambda>(p, t). pt_insert_all sz pb rts p t)"

definition carry_live_tombstones :: "writer_sizes \<Rightarrow> pending_bound \<Rightarrow> range_tombstone_tracker \<Rightarrow>
    interrupts \<Rightarrow> (range_tombstone_tracker \<times> interrupts) midge_result" where
  "carry_live_tombstones sz pb r t =
     try_with (pt_insert_all sz pb (map snd (at_live (rk_active r)))
         \<lparr>pt_entries = [], pt_encoded_bytes = 0, pt_pending_bytes = 0\<rparr> t) (\<lambda>(p, t).
       Inr (r\<lparr>rk_partition := p\<rparr>, t))"

section \<open>One key group\<close>

text \<open>
  \<^verbatim>\<open>sort_by_key(Reverse(seq))\<close> is a stable sort by descending sequence; the pass over
  \<^verbatim>\<open>windows(2)\<close> refuses two contents at one sequence.
\<close>

fun agree_at_sequences :: "raw_version list \<Rightarrow> unit midge_result" where
  "agree_at_sequences (newer # older # rest) =
     (if v_seq newer \<noteq> v_seq older then agree_at_sequences (older # rest)
      else try_with (map_err (\<lambda>_. Corruption ''conflicting compaction versions for key at sequence'')
          (resolve_same_sequence (version_content_of newer) (version_content_of older)))
        (\<lambda>_. agree_at_sequences (older # rest)))"
| "agree_at_sequences _ = Inr ()"

definition select_newest_version :: "compaction_event list \<Rightarrow> raw_version option midge_result" where
  "select_newest_version events =
     (let versions = sort_key (\<lambda>v. - 1 - v_seq v) (event_versions events)
      in try_with (agree_at_sequences versions) (\<lambda>_.
        Inr (case versions of [] \<Rightarrow> None | v # _ \<Rightarrow> Some v)))"

definition survives_tombstone_gc :: "raw_version \<Rightarrow> range_tombstone option \<Rightarrow> range_tombstone list \<Rightarrow>
    tombstone_gc_policy \<Rightarrow> bool" where
  "survives_tombstone_gc v cover starts gc \<longleftrightarrow>
     \<not> ((case cover of None \<Rightarrow> False | Some rt \<Rightarrow> covers rt (v_key v) \<and> v_seq v \<le> rt_seq rt) \<or>
        list_ex (\<lambda>rt. range_tombstone_is_obsolete rt gc \<and> covers rt (v_key v) \<and> v_seq v \<le> rt_seq rt) starts \<or>
        (point_eligible gc \<and> v_is_tombstone v \<and> tombstone_is_obsolete (v_seq v) (snapshot_horizon gc)))"

text \<open>The survivor of a group, after the ranges that end at its key are retired.\<close>

definition select_partition_key_output :: "compaction_event list \<Rightarrow> range_tombstone_tracker \<Rightarrow>
    tombstone_gc_policy \<Rightarrow> (raw_version option \<times> range_tombstone_tracker) midge_result" where
  "select_partition_key_output key_events r gc =
     (let r = advance_to_key key_events r
      in try_with (select_newest_version key_events) (\<lambda>selected.
        Inr (Option.bind selected (\<lambda>v.
          if survives_tombstone_gc v (highest_obsolete_cover r) (event_starts key_events) gc
          then Some v else None), r)))"

section \<open>The roller\<close>

record partition_config =
  pc_cf_id :: u32
  pc_target_level :: u32
  pc_generation :: u64
  pc_target_sst_size :: nat
  pc_tombstone_gc :: tombstone_gc_policy
  pc_output_size_limit :: "nat option"
  pc_grandparent_overlap :: grandparent_overlap
  pc_sizes :: writer_sizes

record partition_roller =
  pr_ordinal :: u32
  pr_writer :: sst_content
  pr_lower_bound :: "bytes option"
  pr_point_count :: nat

record finished_partition =
  fp_name :: string
  fp_content :: sst_content

definition new_roller :: partition_roller where
  "new_roller = \<lparr>pr_ordinal = 0, pr_writer = new_content, pr_lower_bound = None, pr_point_count = 0\<rparr>"

definition pending_tombstone_bound :: "partition_config \<Rightarrow> partition_roller \<Rightarrow> pending_bound" where
  "pending_tombstone_bound cfg ro =
     map_option (\<lambda>_. (pr_writer ro, pr_lower_bound ro)) (pc_output_size_limit cfg)"

definition has_partition_tombstones :: "range_tombstone_tracker \<Rightarrow> bool" where
  "has_partition_tombstones r \<longleftrightarrow> pt_entries (rk_partition r) \<noteq> []"

definition soft_roll_due :: "bool \<Rightarrow> nat \<Rightarrow> nat \<Rightarrow> nat \<Rightarrow> bool \<Rightarrow> nat \<Rightarrow> bool" where
  "soft_roll_due has_selected_version point_count partition_size tombstone_bytes has_tombstones target_sst_size =
     (let target = max target_sst_size 1;
          range_only_roll = point_count = 0 \<and> has_tombstones \<and> target \<le> tombstone_bytes
      in (has_selected_version \<and> 0 < point_count \<and> target \<le> partition_size) \<or> range_only_roll)"

definition prospective_partition_size :: "writer_sizes \<Rightarrow> sst_content \<Rightarrow> raw_version option \<Rightarrow> nat \<Rightarrow>
    nat midge_result" where
  "prospective_partition_size sz w following pending_bytes =
     try_with (ok_or (ResourceLimit ''compaction writer cannot bound its next local output'')
         (case following of
            Some v \<Rightarrow> bound_after_sorted_entry sz w (v_key v) (v_value v)
          | None \<Rightarrow> encoded_size_upper_bound sz w)) (\<lambda>n.
       Inr (saturating_add_usize n pending_bytes))"

fun starts_growth :: "partition_config \<Rightarrow> partition_roller \<Rightarrow> range_tombstone_tracker \<Rightarrow>
    tombstone_gc_policy \<Rightarrow> range_tombstone list \<Rightarrow> nat \<Rightarrow> nat midge_result" where
  "starts_growth cfg ro r gc [] n = Inr n"
| "starts_growth cfg ro r gc (rt # rts) n =
     (if range_tombstone_is_obsolete rt gc \<or>
         map_of (pt_entries (rk_partition r)) (partition_key rt) \<noteq> None
      then starts_growth cfg ro r gc rts n
      else try_with (pending_tombstone_size (pc_sizes cfg) (pr_writer ro) (pr_lower_bound ro) rt)
        (\<lambda>growth. starts_growth cfg ro r gc rts (saturating_add_usize n growth)))"

definition hard_roll_due :: "partition_config \<Rightarrow> partition_roller \<Rightarrow> raw_version option \<Rightarrow>
    range_tombstone list \<Rightarrow> range_tombstone_tracker \<Rightarrow> tombstone_gc_policy \<Rightarrow> bool midge_result" where
  "hard_roll_due cfg ro selected starts r gc = (case pc_output_size_limit cfg of
     None \<Rightarrow> Inr False
   | Some limit \<Rightarrow>
       try_with (prospective_partition_size (pc_sizes cfg) (pr_writer ro) selected
           (pt_pending_bytes (rk_partition r))) (\<lambda>n.
       try_with (starts_growth cfg ro r gc starts n) (\<lambda>n.
         Inr ((0 < pr_point_count ro \<or> has_partition_tombstones r) \<and> limit < n))))"

definition should_roll_with_soft_target :: "partition_config \<Rightarrow> partition_roller \<Rightarrow> raw_version option \<Rightarrow>
    range_tombstone list \<Rightarrow> range_tombstone_tracker \<Rightarrow> tombstone_gc_policy \<Rightarrow> bool \<Rightarrow> bool midge_result" where
  "should_roll_with_soft_target cfg ro selected starts r gc allow_soft_roll =
     (let tombstone_bytes = pt_encoded_bytes (rk_partition r);
          soft_roll = allow_soft_roll \<and> soft_roll_due (selected \<noteq> None) (pr_point_count ro)
            (saturating_add_usize (estimated_size_bytes (pc_sizes cfg) (pr_writer ro)) tombstone_bytes)
            tombstone_bytes (has_partition_tombstones r) (pc_target_sst_size cfg)
      in try_with (hard_roll_due cfg ro selected starts r gc) (\<lambda>hard_roll. Inr (soft_roll \<or> hard_roll)))"

definition should_roll :: "partition_config \<Rightarrow> partition_roller \<Rightarrow> raw_version option \<Rightarrow>
    range_tombstone list \<Rightarrow> range_tombstone_tracker \<Rightarrow> tombstone_gc_policy \<Rightarrow> bool midge_result" where
  "should_roll cfg ro selected starts r gc = should_roll_with_soft_target cfg ro selected starts r gc True"

definition write_selected :: "raw_version \<Rightarrow> partition_roller \<Rightarrow> interrupts \<Rightarrow>
    (partition_roller \<times> interrupts) midge_result" where
  "write_selected v ro t =
     try_with (add_sorted_with_meta v (pr_writer ro) t) (\<lambda>(w, t).
       Inr (ro\<lparr>pr_writer := w, pr_point_count := saturating_add_usize (pr_point_count ro) 1\<rparr>, t))"

definition ensure_current_fits :: "partition_config \<Rightarrow> partition_roller \<Rightarrow> range_tombstone_tracker \<Rightarrow>
    unit midge_result" where
  "ensure_current_fits cfg ro r = (case pc_output_size_limit cfg of
     None \<Rightarrow> Inr ()
   | Some limit \<Rightarrow>
       if 0 < pr_point_count ro \<or> has_partition_tombstones r
       then try_with (prospective_partition_size (pc_sizes cfg) (pr_writer ro) None
           (pt_pending_bytes (rk_partition r))) (\<lambda>n.
         if limit < n then Inl (ResourceLimit
           ''indivisible compaction key group exceeds local staging limit'') else Inr ())
       else Inr ())"

definition ensure_output_fits_local_staging :: "writer_sizes \<Rightarrow> sst_content \<Rightarrow> nat option \<Rightarrow> unit midge_result" where
  "ensure_output_fits_local_staging sz w limit = (case limit of
     None \<Rightarrow> Inr ()
   | Some l \<Rightarrow>
       try_with (ok_or (ResourceLimit ''compaction writer cannot bound its local output size'')
         (encoded_size_upper_bound sz w)) (\<lambda>n.
       if l < n then Inl (ResourceLimit
         ''compaction partition exceeds local staging limit'') else Inr ()))"

fun add_partition_range_tombstones :: "nat \<Rightarrow> nat \<Rightarrow> bytes option \<Rightarrow> bytes option \<Rightarrow>
    range_tombstone list \<Rightarrow> sst_content \<Rightarrow> interrupts \<Rightarrow> (sst_content \<times> nat \<times> interrupts) midge_result" where
  "add_partition_range_tombstones index added lower upper [] w t = Inr (w, added, t)"
| "add_partition_range_tombstones index added lower upper (rt # rts) w t =
     try_with (abort_every_1024 index t) (\<lambda>t.
     if upper_clip upper (rt_end rt) \<le> lower_clip lower (rt_start rt)
     then add_partition_range_tombstones (index + 1) added lower upper rts w t
     else try_with (add_range_tombstone (lower_clip lower (rt_start rt)) (upper_clip upper (rt_end rt))
         (rt_seq rt) w t) (\<lambda>(w, t).
       add_partition_range_tombstones (index + 1) (saturating_add_usize added 1) lower upper rts w t))"

definition partition_file_name :: "partition_config \<Rightarrow> u32 \<Rightarrow> string" where
  "partition_file_name cfg ordinal =
     compaction_file_name (pc_cf_id cfg) (pc_target_level cfg) (pc_generation cfg) ordinal"

text \<open>
  Persisting the table, resolving its path and reading its metadata may each fail. The size
  check after the write uses the size of the finished file.
\<close>

definition persist_partition :: "partition_config \<Rightarrow> u32 \<Rightarrow> sst_content \<Rightarrow> interrupts \<Rightarrow>
    (finished_partition \<times> interrupts) midge_result" where
  "persist_partition cfg ordinal w t =
     try_with (ensure_output_fits_local_staging (pc_sizes cfg) w (pc_output_size_limit cfg)) (\<lambda>_.
     try_with (checkpoint t) (\<lambda>t.
     try_with (checkpoint t) (\<lambda>t.
     try_with (checkpoint t) (\<lambda>t.
     try_with (checkpoint t) (\<lambda>t.
     if (case pc_output_size_limit cfg of None \<Rightarrow> False
         | Some limit \<Rightarrow> limit < finished_file_size (pc_sizes cfg) w)
     then try_with (checkpoint t) (\<lambda>_. Inl (ResourceLimit
       ''encoded compaction partition exceeds its local staging limit''))
     else Inr (\<lparr>fp_name = partition_file_name cfg ordinal, fp_content = w\<rparr>, t))))))"

definition finish_current :: "partition_config \<Rightarrow> partition_roller \<Rightarrow> range_tombstone_tracker \<Rightarrow>
    bytes option \<Rightarrow> interrupts \<Rightarrow> (finished_partition option \<times> interrupts) midge_result" where
  "finish_current cfg ro r upper t =
     try_with (checkpoint t) (\<lambda>t.
     try_with (add_partition_range_tombstones 0 0 (pr_lower_bound ro) upper
         (map snd (pt_entries (rk_partition r))) (pr_writer ro) t) (\<lambda>(w, tombstone_count, t).
     if pr_point_count ro = 0 \<and> tombstone_count = 0 then Inr (None, t)
     else try_with (persist_partition cfg (pr_ordinal ro) w t) (\<lambda>(fp, t). Inr (Some fp, t))))"

definition finish_for_roll :: "partition_config \<Rightarrow> partition_roller \<Rightarrow> bytes \<Rightarrow> range_tombstone_tracker \<Rightarrow>
    interrupts \<Rightarrow> (finished_partition option \<times> interrupts) midge_result" where
  "finish_for_roll cfg ro boundary_key r t =
     try_with (checkpoint t) (\<lambda>t. finish_current cfg ro r (Some boundary_key) t)"

definition next_ordinal :: "bool \<Rightarrow> u32 \<Rightarrow> u32 midge_result" where
  "next_ordinal partition_emitted ordinal =
     (if \<not> partition_emitted then Inr ordinal
      else if unat ordinal < u32_max then Inr (ordinal + 1)
      else Inl (ResourceLimit ''compaction partition ordinal space exhausted''))"

definition start_next_partition :: "partition_config \<Rightarrow> partition_roller \<Rightarrow> bytes \<Rightarrow>
    range_tombstone_tracker \<Rightarrow> bool \<Rightarrow> interrupts \<Rightarrow>
    (partition_roller \<times> range_tombstone_tracker \<times> interrupts) midge_result" where
  "start_next_partition cfg ro boundary_key r partition_emitted t =
     try_with (next_ordinal partition_emitted (pr_ordinal ro)) (\<lambda>ordinal.
     try_with (checkpoint t) (\<lambda>t.
     let ro = \<lparr>pr_ordinal = ordinal, pr_writer = new_content,
       pr_lower_bound = Some boundary_key, pr_point_count = 0\<rparr>
     in try_with (carry_live_tombstones (pc_sizes cfg) (pending_tombstone_bound cfg ro) r t) (\<lambda>(r, t).
       Inr (ro, r, t))))"

text \<open>A finished partition is handed to the sink, which may refuse it, and then named.\<close>

definition record_finished_partition :: "finished_partition option \<Rightarrow> finished_partition list \<Rightarrow>
    interrupts \<Rightarrow> (finished_partition list \<times> interrupts) midge_result" where
  "record_finished_partition finished outputs t = (case finished of
     None \<Rightarrow> Inr (outputs, t)
   | Some fp \<Rightarrow> try_with (checkpoint t) (\<lambda>t. Inr (outputs @ [fp], t)))"

section \<open>The run\<close>

record partition_run =
  ru_roller :: partition_roller
  ru_tombstones :: range_tombstone_tracker
  ru_outputs :: "finished_partition list"

text \<open>
  Close the current output at a key and open the next one there. The partitioned run checks for
  cancellation once more between staging the finished output and opening the next.
\<close>

definition roll_at :: "partition_config \<Rightarrow> bool \<Rightarrow> bytes \<Rightarrow> partition_run \<Rightarrow> interrupts \<Rightarrow>
    (partition_run \<times> interrupts) midge_result" where
  "roll_at cfg check_abort key s t =
     try_with (finish_for_roll cfg (ru_roller s) key (ru_tombstones s) t) (\<lambda>(finished, t).
     try_with (record_finished_partition finished (ru_outputs s) t) (\<lambda>(outputs, t).
     try_with (if check_abort then checkpoint t else Inr t) (\<lambda>t.
     try_with (start_next_partition cfg (ru_roller s) key (ru_tombstones s) (finished \<noteq> None) t)
       (\<lambda>(ro, r, t).
       Inr (\<lparr>ru_roller = ro, ru_tombstones = r, ru_outputs = outputs\<rparr>, t)))))"

definition has_output :: "partition_run \<Rightarrow> bool" where
  "has_output s \<longleftrightarrow> 0 < pr_point_count (ru_roller s) \<or> has_partition_tombstones (ru_tombstones s)"

fun write_all :: "raw_version list \<Rightarrow> partition_roller \<Rightarrow> interrupts \<Rightarrow>
    (partition_roller \<times> interrupts) midge_result" where
  "write_all [] ro t = Inr (ro, t)"
| "write_all (v # vs) ro t = try_with (write_selected v ro t) (\<lambda>(ro, t). write_all vs ro t)"

text \<open>What both runs do with a group once the output to write to is settled.\<close>

definition write_group :: "partition_config \<Rightarrow> tombstone_gc_policy \<Rightarrow> range_tombstone list \<Rightarrow>
    raw_version list \<Rightarrow> partition_run \<Rightarrow> interrupts \<Rightarrow> (partition_run \<times> interrupts) midge_result" where
  "write_group cfg gc starts selected s t =
     try_with (observe_starts (pc_sizes cfg) gc (pending_tombstone_bound cfg (ru_roller s)) starts
         (ru_tombstones s) t) (\<lambda>(r, t).
     try_with (write_all selected (ru_roller s) t) (\<lambda>(ro, t).
     try_with (ensure_current_fits cfg ro r) (\<lambda>_.
       Inr (\<lparr>ru_roller = ro, ru_tombstones = r, ru_outputs = ru_outputs s\<rparr>, t))))"

definition observe_output :: "partition_config \<Rightarrow> bytes \<Rightarrow> partition_run \<Rightarrow> overlap_tracker \<Rightarrow> interrupts \<Rightarrow>
    (overlap_tracker \<times> interrupts) midge_result" where
  "observe_output cfg key s tr t =
     (if has_output s then overlap_observe (pc_grandparent_overlap cfg) tr key t else Inr (tr, t))"

definition write_key_group :: "partition_config \<Rightarrow> compaction_event list \<Rightarrow> partition_run \<Rightarrow>
    overlap_tracker \<Rightarrow> interrupts \<Rightarrow> (partition_run \<times> overlap_tracker \<times> interrupts) midge_result" where
  "write_key_group cfg key_events s tr t =
     try_with (select_partition_key_output key_events (ru_tombstones s) (pc_tombstone_gc cfg))
       (\<lambda>(selected, r).
     let key = event_key (hd key_events);
         starts = event_starts key_events;
         s = s\<lparr>ru_tombstones := r\<rparr>;
         grandparent_roll = has_output s \<and> overlap_should_roll (pc_grandparent_overlap cfg) tr key
     in
     try_with (should_roll cfg (ru_roller s) selected starts r (pc_tombstone_gc cfg)) (\<lambda>size_roll.
     try_with (if size_roll \<or> grandparent_roll
         then try_with (roll_at cfg True key s t) (\<lambda>(s, t). Inr (s, new_tracker, t))
         else Inr (s, tr, t)) (\<lambda>(s, tr, t).
     try_with (write_group cfg (pc_tombstone_gc cfg) starts
         (case selected of None \<Rightarrow> [] | Some v \<Rightarrow> [v]) s t) (\<lambda>(s, t).
     try_with (observe_output cfg key s tr t) (\<lambda>(tr, t).
       Inr (s, tr, t))))))"

text \<open>
  Collecting the events of one key: the first is taken already, the others as long as the head
  of the merge has the same key. A head that was peeked and is gone would be a panic.
\<close>

function collect_more :: "sst_factory \<Rightarrow> bytes \<Rightarrow> event_merge \<Rightarrow> nat \<Rightarrow> interrupts \<Rightarrow>
    (compaction_event list \<times> event_merge \<times> nat \<times> interrupts) midge_result" where
  "collect_more fac key m seen t =
     (if (case peek_event m of None \<Rightarrow> False | Some e \<Rightarrow> event_key e = key) then
        try_with (next_event fac m t) (\<lambda>(item, m, t). case item of
          None \<Rightarrow> Inl (Internal ''peeked compaction event exists'')
        | Some e \<Rightarrow>
            try_with (checkpoint t) (\<lambda>t.
            try_with (abort_every_1024 (saturating_add_usize seen 1) t) (\<lambda>t.
            try_with (collect_more fac key m (saturating_add_usize seen 1) t) (\<lambda>(es, m, seen, t).
              Inr (e # es, m, seen, t)))))
      else Inr ([], m, seen, t))"
  by pat_completeness auto
termination
  by (relation "measure (\<lambda>(fac, key, m, seen, t). size (pending fac m))") (auto dest: next_event_size)

declare collect_more.simps [simp del]

definition collect_same_key_events :: "sst_factory \<Rightarrow> event_merge \<Rightarrow> compaction_event \<Rightarrow> nat \<Rightarrow> interrupts \<Rightarrow>
    (compaction_event list \<times> event_merge \<times> nat \<times> interrupts) midge_result" where
  "collect_same_key_events fac m first seen t =
     try_with (checkpoint t) (\<lambda>t.
     try_with (collect_more fac (event_key first) m seen t) (\<lambda>(es, m, seen, t).
       Inr (first # es, m, seen, t)))"

lemma collect_more_size:
  "collect_more fac key m seen t = Inr (es, m', seen', t') \<Longrightarrow> size (pending fac m') \<le> size (pending fac m)"
proof (induction fac key m seen t arbitrary: es rule: collect_more.induct)
  case (1 fac key m seen t)
  note run = "1.prems" [unfolded collect_more.simps [of fac key m seen t]]
  show ?case
  proof (cases "case peek_event m of None \<Rightarrow> False | Some e \<Rightarrow> event_key e = key")
    case True
    then obtain e m1 t1 t2 t3 es' where nxt: "next_event fac m t = Inr (Some e, m1, t1)"
      and t: "checkpoint t1 = Inr t2" "abort_every_1024 (saturating_add_usize seen 1) t2 = Inr t3"
      and rest: "collect_more fac key m1 (saturating_add_usize seen 1) t3 = Inr (es', m', seen', t')"
      using run by (auto split: option.splits)
    from next_event_size [OF nxt] "1.IH" [OF True nxt refl refl refl t rest] show ?thesis by simp
  qed (use run in auto)
qed

function partition_loop :: "sst_factory \<Rightarrow> partition_config \<Rightarrow> event_merge \<Rightarrow> nat \<Rightarrow> partition_run \<Rightarrow>
    overlap_tracker \<Rightarrow> interrupts \<Rightarrow> (partition_run \<times> interrupts) midge_result" where
  "partition_loop fac cfg m seen s tr t =
     try_with (next_event fac m t) (\<lambda>(item, m, t). case item of
       None \<Rightarrow> Inr (s, t)
     | Some first \<Rightarrow>
         try_with (abort_every_1024 seen t) (\<lambda>t.
         try_with (collect_same_key_events fac m first (saturating_add_usize seen 1) t)
           (\<lambda>(key_events, m, seen, t).
         try_with (write_key_group cfg key_events s tr t) (\<lambda>(s, tr, t).
           partition_loop fac cfg m seen s tr t))))"
  by pat_completeness auto
termination
  by (relation "measure (\<lambda>(fac, cfg, m, seen, s, tr, t). size (pending fac m))")
    (auto dest!: next_event_size collect_more_size simp: collect_same_key_events_def)

declare partition_loop.simps [simp del]

definition new_run :: partition_run where
  "new_run = \<lparr>ru_roller = new_roller, ru_tombstones = new_tombstone_tracker, ru_outputs = []\<rparr>"

definition finish_partitioned_outputs :: "partition_config \<Rightarrow> partition_run \<Rightarrow> interrupts \<Rightarrow>
    (finished_partition list \<times> interrupts) midge_result" where
  "finish_partitioned_outputs cfg s t =
     try_with (checkpoint t) (\<lambda>t.
     try_with (finish_current cfg (ru_roller s) (ru_tombstones s) None t) (\<lambda>(finished, t).
     try_with (record_finished_partition finished (ru_outputs s) t) (\<lambda>(outputs, t).
     try_with (checkpoint t) (\<lambda>t. Inr (outputs, t)))))"

definition require_compaction_input :: "event_merge \<Rightarrow> unit midge_result" where
  "require_compaction_input m =
     (if peek_event m = None
      then Inl (Internal ''compaction produced no output; inputs were not replaced'') else Inr ())"

definition write_partitioned_compaction_outputs :: "sst_factory \<Rightarrow> partition_config \<Rightarrow>
    event_cursor list \<Rightarrow> interrupts \<Rightarrow> (finished_partition list \<times> interrupts) midge_result" where
  "write_partitioned_compaction_outputs fac cfg cursors t =
     try_with (checkpoint t) (\<lambda>t.
     try_with (boundary_cursor (pc_grandparent_overlap cfg) t) (\<lambda>(boundaries, t).
     try_with (checkpoint t) (\<lambda>t.
     try_with (merge_new fac (cursors @ boundaries) t) (\<lambda>(merged, t).
     try_with (require_compaction_input merged) (\<lambda>_.
     try_with (partition_loop fac cfg merged 0 new_run new_tracker t) (\<lambda>(s, t).
       finish_partitioned_outputs cfg s t))))))"

section \<open>Fragmentation\<close>

datatype compaction_purpose = MergeLevels | Repair | Fragment bytes

definition retain_all :: tombstone_gc_policy where
  "retain_all = \<lparr>snapshot_horizon = None, point_eligible = False, range_eligible = False\<rparr>"

function fragment_more :: "sst_factory \<Rightarrow> bytes \<Rightarrow> event_merge \<Rightarrow> interrupts \<Rightarrow>
    (compaction_event list \<times> event_merge \<times> interrupts) midge_result" where
  "fragment_more fac key m t =
     (if (case peek_event m of None \<Rightarrow> False | Some e \<Rightarrow> event_key e = key) then
        try_with (next_event fac m t) (\<lambda>(item, m, t). case item of
          None \<Rightarrow> Inl (Internal ''peeked fragment event exists'')
        | Some e \<Rightarrow>
            try_with (checkpoint t) (\<lambda>t.
            try_with (fragment_more fac key m t) (\<lambda>(es, m, t). Inr (e # es, m, t))))
      else Inr ([], m, t))"
  by pat_completeness auto
termination
  by (relation "measure (\<lambda>(fac, key, m, t). size (pending fac m))") (auto dest: next_event_size)

declare fragment_more.simps [simp del]

definition collect_fragment_key_events :: "sst_factory \<Rightarrow> compaction_event \<Rightarrow> event_merge \<Rightarrow> interrupts \<Rightarrow>
    (compaction_event list \<times> event_merge \<times> interrupts) midge_result" where
  "collect_fragment_key_events fac first m t =
     try_with (checkpoint t) (\<lambda>t.
     try_with (fragment_more fac (event_key first) m t) (\<lambda>(es, m, t). Inr (first # es, m, t)))"

definition fragment_roll_due :: "partition_config \<Rightarrow> compaction_event list \<Rightarrow> partition_run \<Rightarrow>
    raw_version option \<Rightarrow> bool \<Rightarrow> bool \<Rightarrow> bool midge_result" where
  "fragment_roll_due cfg events s newest_version forced_roll final_group =
     (let key = event_key (hd events);
          keep_ending_range = final_group \<and>
            list_ex (\<lambda>(_, rt). rt_end rt = key) (pt_entries (rk_partition (ru_tombstones s)));
          allow_soft_roll = (\<not> forced_roll \<and> \<not> keep_ending_range);
          can_roll = (\<not> forced_roll \<or>
            (case pr_lower_bound (ru_roller s) of None \<Rightarrow> False | Some lower \<Rightarrow> lower < key))
      in if can_roll
         then should_roll_with_soft_target cfg (ru_roller s) newest_version (event_starts events)
           (ru_tombstones s) retain_all allow_soft_roll
         else Inr False)"

definition write_fragment_key_events :: "partition_config \<Rightarrow> compaction_event list \<Rightarrow> bool \<Rightarrow> bool \<Rightarrow>
    partition_run \<Rightarrow> interrupts \<Rightarrow> (partition_run \<times> interrupts) midge_result" where
  "write_fragment_key_events cfg events forced_roll final_group s t =
     (let s = s\<lparr>ru_tombstones := advance_to_key events (ru_tombstones s)\<rparr> in
     try_with (select_newest_version events) (\<lambda>newest_version.
     try_with (fragment_roll_due cfg events s newest_version forced_roll final_group) (\<lambda>roll.
     try_with (if roll then roll_at cfg False (event_key (hd events)) s t else Inr (s, t)) (\<lambda>(s, t).
       write_group cfg retain_all (event_starts events) (event_versions events) s t))))"

text \<open>
  The forced cut at the planned boundary: at the exact key the ranges that end there are
  retired first; across a gap they stay live until their own end.
\<close>

definition fragment_cut :: "partition_config \<Rightarrow> bytes \<Rightarrow> compaction_event list \<Rightarrow> partition_run \<Rightarrow>
    interrupts \<Rightarrow> (partition_run \<times> interrupts) midge_result" where
  "fragment_cut cfg split_key events s t =
     roll_at cfg False split_key
       (if event_key (hd events) = split_key
        then s\<lparr>ru_tombstones := advance_to_key events (ru_tombstones s)\<rparr> else s) t"

function fragment_loop :: "sst_factory \<Rightarrow> partition_config \<Rightarrow> bytes \<Rightarrow> event_merge \<Rightarrow> bool \<Rightarrow> bool \<Rightarrow>
    partition_run \<Rightarrow> interrupts \<Rightarrow> (partition_run \<times> bool \<times> interrupts) midge_result" where
  "fragment_loop fac cfg split_key m cut_pending has_key_after_cut s t =
     try_with (next_event fac m t) (\<lambda>(item, m, t). case item of
       None \<Rightarrow> Inr (s, has_key_after_cut, t)
     | Some first \<Rightarrow>
         try_with (checkpoint t) (\<lambda>t.
         try_with (collect_fragment_key_events fac first m t) (\<lambda>(events, m, t).
         let key = event_key first;
             forced_roll = cut_pending \<and> split_key \<le> key
         in
         try_with (if forced_roll then fragment_cut cfg split_key events s t else Inr (s, t)) (\<lambda>(s, t).
         try_with (write_fragment_key_events cfg events forced_roll (peek_event m = None) s t) (\<lambda>(s, t).
           fragment_loop fac cfg split_key m (cut_pending \<and> \<not> forced_roll)
             (has_key_after_cut \<or> split_key < key) s t)))))"
  by pat_completeness auto

lemma fragment_more_size:
  "fragment_more fac key m t = Inr (es, m', t') \<Longrightarrow> size (pending fac m') \<le> size (pending fac m)"
proof (induction fac key m t arbitrary: es rule: fragment_more.induct)
  case (1 fac key m t)
  note run = "1.prems" [unfolded fragment_more.simps [of fac key m t]]
  show ?case
  proof (cases "case peek_event m of None \<Rightarrow> False | Some e \<Rightarrow> event_key e = key")
    case True
    then obtain e m1 t1 t2 es' where nxt: "next_event fac m t = Inr (Some e, m1, t1)"
      and t: "checkpoint t1 = Inr t2"
      and rest: "fragment_more fac key m1 t2 = Inr (es', m', t')"
      using run by (auto split: option.splits)
    from next_event_size [OF nxt] "1.IH" [OF True nxt refl refl refl t rest] show ?thesis by simp
  qed (use run in auto)
qed

termination fragment_loop
  by (relation "measure (\<lambda>(fac, cfg, split_key, m, c, h, s, t). size (pending fac m))")
    (auto dest!: next_event_size fragment_more_size simp: collect_fragment_key_events_def)

declare fragment_loop.simps [simp del]

definition fragment_bounds_error :: midge_error where
  "fragment_bounds_error = Corruption ''fragment boundary is not inside its source bounds''"

definition write_fragmented_compaction_outputs :: "sst_factory \<Rightarrow> partition_config \<Rightarrow> compaction_purpose \<Rightarrow>
    event_cursor list \<Rightarrow> interrupts \<Rightarrow> (finished_partition list \<times> interrupts) midge_result" where
  "write_fragmented_compaction_outputs fac cfg purpose cursors t = (case purpose of
     Fragment split_key \<Rightarrow>
       try_with (checkpoint t) (\<lambda>t.
       try_with (merge_new fac cursors t) (\<lambda>(merged, t).
       if (case peek_event merged of None \<Rightarrow> True | Some first \<Rightarrow> split_key \<le> event_key first)
       then Inl fragment_bounds_error
       else
         try_with (checkpoint t) (\<lambda>t.
         try_with (fragment_loop fac cfg split_key merged True False new_run t)
           (\<lambda>(s, has_key_after_cut, t).
         if \<not> has_key_after_cut then Inl fragment_bounds_error
         else
           try_with (finish_current cfg (ru_roller s) (ru_tombstones s) None t) (\<lambda>(finished, t).
           try_with (record_finished_partition finished (ru_outputs s) t) (\<lambda>(outputs, t).
           try_with (checkpoint t) (\<lambda>t. Inr (outputs, t))))))))
   | _ \<Rightarrow> Inl (Corruption ''fragmentation requires a split boundary''))"

end
