(* ===== verification/Compaction_Retention.thy ===== *)
theory Compaction_Retention
  imports Compaction_Partition
begin

text \<open>
  What a compaction run keeps. The state of a run is related to the events it has consumed:
  which tombstones are open, which belong to the current output, which versions were written
  and which keys the finished outputs cover. From this relation follow the retention
  theorems: for every key the outputs hold exactly the newest version unless tombstone
  collection drops it, and exactly the live tombstones over it, cut at the table boundaries
  without a gap; the outputs are
  disjoint and ascending and carry consecutive names.
\<close>

section \<open>Tombstone collections as sets\<close>

definition tagged :: "(range_tombstone \<Rightarrow> 'k) \<Rightarrow> range_tombstone set \<Rightarrow> ('k \<times> range_tombstone) set" where
  "tagged f A = (\<lambda>rt. (f rt, rt)) ` A"

text \<open>A sorted map from the key of a tombstone to the tombstone represents a set of them.\<close>

definition represents :: "(range_tombstone \<Rightarrow> 'k :: linorder) \<Rightarrow> ('k \<times> range_tombstone) list \<Rightarrow>
    range_tombstone set \<Rightarrow> bool" where
  "represents f m A \<longleftrightarrow> bt_ok m \<and> set m = tagged f A"

lemma partition_key_inj: "partition_key a = partition_key b \<longleftrightarrow> a = b"
  by (auto simp: partition_key_def)

lemma active_key_inj: "active_key a = active_key b \<longleftrightarrow> a = b"
  by (auto simp: active_key_def)

lemma represents_Nil [simp]: "represents f [] {}"
  by (simp add: represents_def tagged_def)

lemma represents_snd: "represents f m A \<Longrightarrow> set (map snd m) = A"
  by (force simp: represents_def tagged_def)

lemma represents_empty: "represents f m A \<Longrightarrow> m = [] \<longleftrightarrow> A = {}"
  by (auto simp: represents_def tagged_def)

lemma represents_mem:
  assumes "represents f m A" "\<And>a b. f a = f b \<longleftrightarrow> a = b"
  shows "map_of m (f rt) \<noteq> None \<longleftrightarrow> rt \<in> A"
proof -
  have "map_of m (f rt) \<noteq> None \<longleftrightarrow> f rt \<in> fst ` set m" by (simp add: map_of_eq_None_iff)
  also have "\<dots> \<longleftrightarrow> rt \<in> A" using assms by (auto simp: represents_def tagged_def image_iff)
  finally show ?thesis .
qed

lemma set_bt_insert: "bt_ok m \<Longrightarrow> set (bt_insert k v m) = insert (k, v) {p \<in> set m. fst p \<noteq> k}"
  by (induction k v m rule: bt_insert.induct) auto

lemma represents_insert:
  assumes "represents f m A" "\<And>a b. f a = f b \<longleftrightarrow> a = b"
  shows "represents f (bt_insert (f rt) rt m) (insert rt A)"
  using assms by (auto simp: represents_def tagged_def bt_insert_ok set_bt_insert)

lemma represents_remove:
  assumes "represents f m A" "\<And>a b. f a = f b \<longleftrightarrow> a = b"
  shows "represents f (bt_remove (f rt) m) (A - {rt})"
  using assms by (auto simp: represents_def tagged_def bt_remove_ok) (auto simp: bt_remove_def)

lemmas represents_active = represents_insert [OF _ active_key_inj] represents_remove [OF _ active_key_inj]
lemmas represents_partition = represents_insert [OF _ partition_key_inj]

text \<open>The last entry of the obsolete map has the highest sequence.\<close>

lemma represents_last:
  assumes rep: "represents active_key m A" and "m \<noteq> []"
  shows "snd (last m) \<in> A" "rt \<in> A \<Longrightarrow> rt_seq rt \<le> rt_seq (snd (last m))"
proof -
  obtain q z where m: "m = q @ [z]" using assms(2) by (cases m rule: rev_cases) auto
  have setm: "set m = tagged active_key A" using rep by (simp add: represents_def)
  have "z \<in> set m" by (simp add: m)
  then have "z \<in> tagged active_key A" by (simp only: setm)
  then have z: "fst z = active_key (snd z)" "snd z \<in> A" by (auto simp: tagged_def)
  then show "snd (last m) \<in> A" by (simp add: m)
  assume "rt \<in> A"
  then have "(active_key rt, rt) \<in> set m" by (simp add: setm tagged_def)
  then consider "z = (active_key rt, rt)" | "(active_key rt, rt) \<in> set q" by (auto simp: m)
  then have "active_key rt \<le> fst z"
  proof cases
    case 2
    moreover have "\<forall>p \<in> set q. fst p < fst z"
      using rep by (simp add: represents_def bt_ok_def m sorted_wrt_append)
    ultimately show ?thesis by (metis fst_conv less_imp_le)
  qed simp
  then have "active_key rt \<le> active_key (snd z)" using z(1) by simp
  then show "rt_seq rt \<le> rt_seq (snd (last m))" by (auto simp: active_key_def m)
qed

section \<open>The selected version\<close>

lemma complement_le: "- 1 - a \<le> - 1 - b \<longleftrightarrow> b \<le> a" for a b :: u64
proof -
  have "unat (- 1 - x) = u64_max - unat x" for x :: u64
    by (subst unat_sub) (auto simp: word_le_nat_alt)
  moreover have "unat x \<le> u64_max" for x :: u64 by (rule unat_u64_le)
  ultimately show ?thesis unfolding word_le_nat_alt by (metis le_diff_iff')
qed

lemma consistentD:
  "consistent vs \<Longrightarrow> a \<in> set vs \<Longrightarrow> b \<in> set vs \<Longrightarrow> v_key a = v_key b \<Longrightarrow> v_seq a = v_seq b \<Longrightarrow> a = b"
  unfolding consistent_def by blast

lemma consistent_Cons:
  assumes "consistent vs" "\<And>w. w \<in> set vs \<Longrightarrow> v_seq a = v_seq w \<Longrightarrow> a = w"
  shows "consistent (a # vs)"
  unfolding consistent_def
proof (intro ballI impI)
  fix x y assume mem: "x \<in> set (a # vs)" "y \<in> set (a # vs)" and eq: "v_key x = v_key y \<and> v_seq x = v_seq y"
  then consider "x = y" | "x = a" "y \<in> set vs" | "y = a" "x \<in> set vs" | "x \<in> set vs" "y \<in> set vs"
    by auto
  then show "x = y"
  proof cases
    case 2
    then show ?thesis using assms(2) eq by simp
  next
    case 3
    then show ?thesis using assms(2) [OF 3(2)] eq by simp
  next
    case 4
    then show ?thesis using consistentD [OF assms(1)] eq by blast
  qed
qed

lemma agree_at_sequences_eq:
  assumes "agree_at_sequences vs = Inr ()" "sorted_wrt (\<lambda>a b. v_seq b \<le> v_seq a) vs"
    and "\<forall>v \<in> set vs. v_key v = k"
  shows "consistent vs"
  using assms
proof (induction vs)
  case (Cons a vs)
  show ?case
  proof (cases vs)
    case Nil
    then show ?thesis by (simp add: consistent_def)
  next
    case (Cons b rest)
    have rest: "agree_at_sequences vs = Inr ()"
      and ab: "v_seq a = v_seq b \<Longrightarrow> version_content_of a = version_content_of b"
      using Cons.prems(1) Cons by (auto split: if_splits)
    have tl: "consistent vs" by (rule Cons.IH [OF rest]) (use Cons.prems in auto)
    show ?thesis
    proof (rule consistent_Cons [OF tl])
      fix w assume w: "w \<in> set vs" and eq: "v_seq a = v_seq w"
      have "v_seq w \<le> v_seq b" "v_seq b \<le> v_seq a" using w Cons.prems(2) Cons by auto
      then have seq: "v_seq a = v_seq b" "v_seq b = v_seq w" using eq by auto
      have "v_key a = v_key b" "v_key b = v_key w" using Cons.prems(3) Cons w by auto
      with ab seq have "a = b" by (blast intro: raw_version_eq)
      moreover have "b \<in> set vs" using Cons by simp
      then have "b = w" using consistentD [OF tl _ w \<open>v_key b = v_key w\<close> seq(2)] by blast
      ultimately show "a = w" by simp
    qed
  qed
qed (simp add: consistent_def)

lemma select_newest_version_exact:
  assumes "select_newest_version g = Inr r" and key: "\<And>e. e \<in> set g \<Longrightarrow> event_key e = k"
  shows "consistent (event_versions g)" "r = newest (event_versions g)"
proof -
  let ?vs = "sort_key (\<lambda>v. - 1 - v_seq v) (event_versions g)"
  have ok: "agree_at_sequences ?vs = Inr ()" and r: "r = (case ?vs of [] \<Rightarrow> None | v # _ \<Rightarrow> Some v)"
    using assms(1) by (auto simp: select_newest_version_def Let_def)
  have keys: "v_key v = k" if "v \<in> set (event_versions g)" for v
    using key [of "Version v"] that by simp
  have "sorted (map (\<lambda>v. - 1 - v_seq v) ?vs)" by simp
  then have desc: "sorted_wrt (\<lambda>a b. v_seq b \<le> v_seq a) ?vs"
    unfolding sorted_map by (rule sorted_wrt_mono_rel [rotated]) (simp add: complement_le)
  have "consistent ?vs" by (rule agree_at_sequences_eq [OF ok desc, of k]) (use keys in simp)
  then show cons: "consistent (event_versions g)" by (simp add: consistent_def)
  show "r = newest (event_versions g)"
  proof (cases ?vs)
    case Nil
    then have "event_versions g = []" by (metis set_sort set_empty)
    then show ?thesis using r by simp
  next
    case (Cons v vs)
    then have "v \<in> set (event_versions g)" by (metis list.set_intros(1) set_sort)
    moreover have "v_seq w \<le> v_seq v" if "w \<in> set (event_versions g)" for w
    proof -
      have "w \<in> set (v # vs)" using that Cons by (metis set_sort)
      then show ?thesis using desc Cons by auto
    qed
    ultimately have "newest (event_versions g) = Some v"
      using newest_unique [OF cons keys] by blast
    then show ?thesis using r Cons by simp
  qed
qed

section \<open>Open tombstones\<close>

text \<open>
  \<open>tracker_inv\<close>: of the tombstones \<open>R\<close> seen so far, those not in \<open>X\<close> are still open, split by
  whether they may be collected, and the live ones that reach past the lower bound of the
  current output belong to it.
\<close>

definition beyond :: "bytes option \<Rightarrow> range_tombstone \<Rightarrow> bool" where
  "beyond lower rt = (case lower of None \<Rightarrow> True | Some l \<Rightarrow> l < rt_end rt)"

definition live_tombstones :: "tombstone_gc_policy \<Rightarrow> range_tombstone set \<Rightarrow> range_tombstone set" where
  "live_tombstones gc R = {rt \<in> R. \<not> range_tombstone_is_obsolete rt gc}"

definition tracker_inv :: "tombstone_gc_policy \<Rightarrow> range_tombstone set \<Rightarrow> range_tombstone set \<Rightarrow>
    bytes option \<Rightarrow> range_tombstone_tracker \<Rightarrow> bool" where
  "tracker_inv gc R X lower r \<longleftrightarrow> (\<forall>rt \<in> R. rt_start rt < rt_end rt) \<and>
     represents active_key (at_live (rk_active r)) (live_tombstones gc R - X) \<and>
     represents active_key (at_obsolete (rk_active r)) (R - live_tombstones gc R - X) \<and>
     represents partition_key (pt_entries (rk_partition r)) {rt \<in> live_tombstones gc R. beyond lower rt}"

lemma tracker_new: "tracker_inv gc {} {} None new_tombstone_tracker"
  by (simp add: tracker_inv_def new_tombstone_tracker_def live_tombstones_def)

lemma remove_tracker:
  assumes "tracker_inv gc R X lower r"
  shows "tracker_inv gc R (insert rt X) lower (r\<lparr>rk_active := at_remove rt (rk_active r)\<rparr>)"
proof -
  have "A - insert rt X = A - X - {rt}" for A by auto
  with assms show ?thesis
    by (simp add: tracker_inv_def at_remove_def represents_active(2))
qed

lemma advance_tracker:
  "tracker_inv gc R X lower r \<Longrightarrow>
   tracker_inv gc R (X \<union> {rt. RangeEnd rt \<in> set g}) lower (advance_to_key g r)"
proof (induction g r arbitrary: X rule: advance_to_key.induct)
  case (2 rt es r)
  have "X \<union> {x. RangeEnd x \<in> set (RangeEnd rt # es)} = insert rt X \<union> {x. RangeEnd x \<in> set es}" by auto
  with "2.IH" [OF remove_tracker [OF "2.prems", of rt]] show ?case by simp
qed auto

lemma pt_insert_represents:
  assumes "pt_insert sz pb rt p t = Inr (p', t')" "represents partition_key (pt_entries p) A"
  shows "represents partition_key (pt_entries p') (insert rt A)"
proof (cases "map_of (pt_entries p) (partition_key rt) \<noteq> None")
  case True
  then have "rt \<in> A" using represents_mem [OF assms(2) partition_key_inj] by blast
  then show ?thesis using assms True by (auto simp: pt_insert_def insert_absorb)
next
  case False
  then show ?thesis using assms by (auto simp: pt_insert_def intro: represents_partition)
qed

lemma at_insert_represents:
  assumes run: "at_insert obs rt a t = Inr (a', t')"
    and live: "represents active_key (at_live a) A" and old: "represents active_key (at_obsolete a) B"
    and apart: "obs \<Longrightarrow> rt \<notin> A" "\<not> obs \<Longrightarrow> rt \<notin> B"
  shows "represents active_key (at_live a') (if obs then A else insert rt A) \<and>
    represents active_key (at_obsolete a') (if obs then insert rt B else B)"
proof (cases "at_contains rt a")
  case True
  then have "rt \<in> A \<or> rt \<in> B"
    using represents_mem [OF live active_key_inj] represents_mem [OF old active_key_inj]
    by (simp add: at_contains_def)
  then show ?thesis using run True live old apart by (auto simp: at_insert_def insert_absorb)
next
  case False
  then show ?thesis using run live old represents_active(1) by (auto simp: at_insert_def)
qed

lemma observe_start_tracker:
  assumes run: "observe_start sz gc pb rt r t = Inr (r', t')" and inv: "tracker_inv gc R X lower r"
    and new: "rt_start rt < rt_end rt \<Longrightarrow> rt \<notin> X \<and> beyond lower rt"
  shows "tracker_inv gc (insert rt R) X lower r'"
proof -
  let ?obs = "range_tombstone_is_obsolete rt gc"
  have ord: "rt_start rt < rt_end rt" using run by (auto simp: observe_start_def split: if_splits)
  then have X: "rt \<notin> X" "beyond lower rt" using new by auto
  obtain p t1 a where p: "(if ?obs then Inr (rk_partition r, t) else pt_insert sz pb rt (rk_partition r) t) = Inr (p, t1)"
    and a: "at_insert ?obs rt (rk_active r) t1 = Inr (a, t')" and r': "r' = \<lparr>rk_active = a, rk_partition = p\<rparr>"
    using run ord by (auto simp: observe_start_def split: if_splits)
  note i = inv [unfolded tracker_inv_def]
  have parts: "represents partition_key (pt_entries p) {x \<in> live_tombstones gc (insert rt R). beyond lower x}"
  proof (cases ?obs)
    case True
    then have "live_tombstones gc (insert rt R) = live_tombstones gc R" by (auto simp: live_tombstones_def)
    then show ?thesis using p True i by simp
  next
    case False
    then have "{x \<in> live_tombstones gc (insert rt R). beyond lower x} =
        insert rt {x \<in> live_tombstones gc R. beyond lower x}" using X by (auto simp: live_tombstones_def)
    then show ?thesis using p False i pt_insert_represents by fastforce
  qed
  have "live_tombstones gc (insert rt R) - X = (if ?obs then live_tombstones gc R - X else insert rt (live_tombstones gc R - X))"
    "insert rt R - live_tombstones gc (insert rt R) - X =
      (if ?obs then insert rt (R - live_tombstones gc R - X) else R - live_tombstones gc R - X)"
    using X by (auto simp: live_tombstones_def)
  moreover have "represents active_key (at_live a) (if ?obs then live_tombstones gc R - X else insert rt (live_tombstones gc R - X)) \<and>
      represents active_key (at_obsolete a) (if ?obs then insert rt (R - live_tombstones gc R - X) else R - live_tombstones gc R - X)"
    by (rule at_insert_represents [OF a]) (use i in \<open>auto simp: live_tombstones_def\<close>)
  ultimately show ?thesis using i ord parts by (simp add: tracker_inv_def r')
qed

lemma observe_starts_tracker:
  "observe_starts sz gc pb rts r t = Inr (r', t') \<Longrightarrow> tracker_inv gc R X lower r \<Longrightarrow>
   (\<And>rt. rt \<in> set rts \<Longrightarrow> rt_start rt < rt_end rt \<Longrightarrow> rt \<notin> X \<and> beyond lower rt) \<Longrightarrow>
   tracker_inv gc (R \<union> set rts) X lower r'"
proof (induction rts arbitrary: r t R)
  case (Cons rt rts)
  then obtain r1 t1 where one: "observe_start sz gc pb rt r t = Inr (r1, t1)"
    and rest: "observe_starts sz gc pb rts r1 t1 = Inr (r', t')" by auto
  have "tracker_inv gc (insert rt R) X lower r1"
    by (rule observe_start_tracker [OF one Cons.prems(2)]) (use Cons.prems(3) in auto)
  from Cons.IH [OF rest this] Cons.prems(3) show ?case by auto
qed simp

lemma pt_insert_all_represents:
  "pt_insert_all sz pb rts p t = Inr (p', t') \<Longrightarrow> represents partition_key (pt_entries p) A \<Longrightarrow>
   represents partition_key (pt_entries p') (A \<union> set rts)"
proof (induction rts arbitrary: p t A)
  case (Cons rt rts)
  then obtain p1 t1 where "pt_insert sz pb rt p t = Inr (p1, t1)" "pt_insert_all sz pb rts p1 t1 = Inr (p', t')"
    by auto
  with Cons.IH [OF this(2) pt_insert_represents [OF this(1) Cons.prems(2)]] show ?case by simp
qed simp

lemma carry_tracker:
  assumes run: "carry_live_tombstones sz pb r t = Inr (r', t')" and inv: "tracker_inv gc R X lower r"
    and key: "\<And>rt. rt \<in> R \<Longrightarrow> rt \<notin> X \<longleftrightarrow> k < rt_end rt"
  shows "tracker_inv gc R X (Some k) r'"
proof -
  obtain p where p: "pt_insert_all sz pb (map snd (at_live (rk_active r)))
      \<lparr>pt_entries = [], pt_encoded_bytes = 0, pt_pending_bytes = 0\<rparr> t = Inr (p, t')"
    and r': "r' = r\<lparr>rk_partition := p\<rparr>"
    using run by (auto simp: carry_live_tombstones_def)
  have "set (map snd (at_live (rk_active r))) = live_tombstones gc R - X"
    using inv by (intro represents_snd [of active_key]) (simp add: tracker_inv_def)
  moreover have "live_tombstones gc R - X = {rt \<in> live_tombstones gc R. beyond (Some k) rt}"
    using key by (auto simp: live_tombstones_def beyond_def)
  ultimately have "represents partition_key (pt_entries p) {rt \<in> live_tombstones gc R. beyond (Some k) rt}"
    using pt_insert_all_represents [OF p, of "{}"] by simp
  then show ?thesis using inv by (simp add: tracker_inv_def r')
qed

section \<open>Finished outputs\<close>

definition clip :: "bytes option \<Rightarrow> bytes option \<Rightarrow> range_tombstone \<Rightarrow> range_tombstone" where
  "clip lower upper rt =
     \<lparr>rt_start = lower_clip lower (rt_start rt), rt_end = upper_clip upper (rt_end rt), rt_seq = rt_seq rt\<rparr>"

definition clipped :: "bytes option \<Rightarrow> bytes option \<Rightarrow> range_tombstone list \<Rightarrow> range_tombstone list" where
  "clipped lower upper rts = filter (\<lambda>rt. rt_start rt < rt_end rt) (map (clip lower upper) rts)"

definition at_or_above :: "bytes option \<Rightarrow> bytes \<Rightarrow> bool" where
  "at_or_above lower x = (case lower of None \<Rightarrow> True | Some l \<Rightarrow> l \<le> x)"

definition under :: "bytes option \<Rightarrow> bytes \<Rightarrow> bool" where
  "under upper x = (case upper of None \<Rightarrow> True | Some u \<Rightarrow> x < u)"

lemma add_ranges_exact:
  "add_partition_range_tombstones i a lower upper rts w t = Inr (w', a', t') \<Longrightarrow>
   w' = w\<lparr>sw_ranges := sw_ranges w @ clipped lower upper rts\<rparr> \<and>
   (a' = 0 \<longleftrightarrow> a = 0 \<and> clipped lower upper rts = [])"
proof (induction rts arbitrary: i a w t)
  case (Cons rt rts)
  show ?case
  proof (cases "upper_clip upper (rt_end rt) \<le> lower_clip lower (rt_start rt)")
    case True
    with Cons show ?thesis by (auto simp: clipped_def clip_def not_less)
  next
    case False
    obtain w1 t1 where
      w1: "w1 = w\<lparr>sw_ranges := sw_ranges w @ [clip lower upper rt]\<rparr>"
      and rec: "add_partition_range_tombstones (i + 1) (saturating_add_usize a 1) lower upper rts w1 t1 =
        Inr (w', a', t')"
      using Cons.prems False by (auto simp: add_range_tombstone_def clip_def)
    have "saturating_add_usize a 1 \<noteq> 0" by (simp add: saturating_add_usize_def)
    moreover have "clipped lower upper (rt # rts) = clip lower upper rt # clipped lower upper rts"
      using False by (simp add: clipped_def clip_def)
    ultimately show ?thesis using Cons.IH [OF rec] by (simp add: w1)
  qed
qed (simp add: clipped_def)

lemma covers_clip:
  "covers (clip lower upper rt) x \<longleftrightarrow> covers rt x \<and> at_or_above lower x \<and> under upper x"
  by (auto simp: covers_def clip_def lower_clip_def upper_clip_def at_or_above_def under_def
      split: option.splits)

lemma covers_ordered: "covers rt x \<Longrightarrow> rt_start rt < rt_end rt"
  by (auto simp: covers_def)

lemma cover_seqs_clipped:
  "cover_seqs x (clipped lower upper rts) =
     (if at_or_above lower x \<and> under upper x then cover_seqs x rts else {})"
proof -
  have "cover_seqs x (clipped lower upper rts) =
      rt_seq ` clip lower upper ` {rt \<in> set rts. covers (clip lower upper rt) x}"
    using covers_ordered by (auto simp: cover_seqs_def clipped_def)
  also have "\<dots> = rt_seq ` {rt \<in> set rts. covers (clip lower upper rt) x}"
    by (simp add: image_image clip_def)
  finally show ?thesis by (auto simp: covers_clip cover_seqs_def)
qed

lemma cover_seqs_append [simp]: "cover_seqs x (as @ bs) = cover_seqs x as \<union> cover_seqs x bs"
  by (auto simp: cover_seqs_def)

lemma cover_seqs_Nil [simp]: "cover_seqs x [] = {}"
  by (simp add: cover_seqs_def)

text \<open>
  A table lies within bounds when its point keys do and its tombstones are nonempty ranges
  between them; two tables are separated when some key bounds one above and the other below.
\<close>

definition within :: "bytes option \<Rightarrow> bytes option \<Rightarrow> sst_content \<Rightarrow> bool" where
  "within lower upper c \<longleftrightarrow>
     (\<forall>v \<in> set (sw_points c). at_or_above lower (v_key v) \<and> under upper (v_key v)) \<and>
     (\<forall>rt \<in> set (sw_ranges c). rt_start rt < rt_end rt \<and> at_or_above lower (rt_start rt) \<and>
        (case upper of None \<Rightarrow> True | Some u \<Rightarrow> rt_end rt \<le> u))"

definition separated :: "sst_content \<Rightarrow> sst_content \<Rightarrow> bool" where
  "separated a b \<longleftrightarrow> (\<exists>k. within None (Some k) a \<and> within (Some k) None b)"

definition all_points :: "finished_partition list \<Rightarrow> raw_version list" where
  "all_points outs = concat (map (\<lambda>fp. sw_points (fp_content fp)) outs)"

definition all_ranges :: "finished_partition list \<Rightarrow> range_tombstone list" where
  "all_ranges outs = concat (map (\<lambda>fp. sw_ranges (fp_content fp)) outs)"

lemma all_points_append [simp]:
  "all_points [] = []" "all_points (xs @ [y]) = all_points xs @ sw_points (fp_content y)"
  by (simp_all add: all_points_def)

lemma all_ranges_append [simp]:
  "all_ranges [] = []" "all_ranges (xs @ [y]) = all_ranges xs @ sw_ranges (fp_content y)"
  by (simp_all add: all_ranges_def)

lemma within_mono_upper: "within lower (Some l) c \<Longrightarrow> l \<le> k \<Longrightarrow> within lower (Some k) c"
  by (auto simp: within_def under_def)

lemma within_drop: "within lower upper c \<Longrightarrow> within lower None c \<and> within None upper c"
  by (auto simp: within_def under_def at_or_above_def split: option.splits)

lemma within_clipped:
  assumes "\<And>v. v \<in> set (sw_points w) \<Longrightarrow> at_or_above lower (v_key v) \<and> under upper (v_key v)"
  shows "within lower upper (w\<lparr>sw_ranges := clipped lower upper rts\<rparr>)"
  using assms by (auto simp: within_def clipped_def clip_def lower_clip_def upper_clip_def at_or_above_def
      split: option.splits)

section \<open>The state of a run\<close>

definition covered :: "tombstone_gc_policy \<Rightarrow> range_tombstone set \<Rightarrow> bytes \<Rightarrow> u64 set" where
  "covered gc R x = rt_seq ` {rt \<in> live_tombstones gc R. covers rt x}"

text \<open>
  \<open>closed\<close>: finished outputs that cover exactly the keys below \<open>upper\<close>, are separated and carry
  consecutive names. \<open>run_inv\<close>: the finished outputs are closed up to the lower bound of the
  current one, and finished and current output together hold the versions \<open>pts\<close>.
\<close>

definition closed :: "partition_config \<Rightarrow> tombstone_gc_policy \<Rightarrow> range_tombstone set \<Rightarrow> bytes option \<Rightarrow>
    finished_partition list \<Rightarrow> bool" where
  "closed cfg gc R upper outs \<longleftrightarrow>
     (\<forall>x. cover_seqs x (all_ranges outs) = (if under upper x then covered gc R x else {})) \<and>
     sorted_wrt separated (map fp_content outs) \<and>
     (\<forall>fp \<in> set outs. within None upper (fp_content fp)) \<and>
     map fp_name outs = map (\<lambda>i. partition_file_name cfg (of_nat i)) [0..<length outs]"

definition closed_below :: "partition_config \<Rightarrow> tombstone_gc_policy \<Rightarrow> range_tombstone set \<Rightarrow> bytes option \<Rightarrow>
    finished_partition list \<Rightarrow> bool" where
  "closed_below cfg gc R lower outs =
     (case lower of None \<Rightarrow> outs = [] | Some l \<Rightarrow> closed cfg gc R (Some l) outs)"

definition roller_inv :: "partition_roller \<Rightarrow> bool" where
  "roller_inv ro \<longleftrightarrow> sw_ranges (pr_writer ro) = [] \<and>
     pr_point_count ro = min usize_max (length (sw_points (pr_writer ro))) \<and>
     (\<forall>v \<in> set (sw_points (pr_writer ro)). at_or_above (pr_lower_bound ro) (v_key v))"

definition run_inv :: "partition_config \<Rightarrow> tombstone_gc_policy \<Rightarrow> range_tombstone set \<Rightarrow> range_tombstone set \<Rightarrow>
    raw_version list \<Rightarrow> partition_run \<Rightarrow> bool" where
  "run_inv cfg gc R X pts s \<longleftrightarrow>
     tracker_inv gc R X (pr_lower_bound (ru_roller s)) (ru_tombstones s) \<and>
     roller_inv (ru_roller s) \<and>
     closed_below cfg gc R (pr_lower_bound (ru_roller s)) (ru_outputs s) \<and>
     pts = all_points (ru_outputs s) @ sw_points (pr_writer (ru_roller s)) \<and>
     pr_ordinal (ru_roller s) = of_nat (length (ru_outputs s)) \<and> length (ru_outputs s) \<le> u32_max"

lemma run_inv_new: "run_inv cfg gc {} {} [] new_run"
  by (simp add: run_inv_def new_run_def new_roller_def roller_inv_def closed_below_def tracker_new new_content_def)

lemma run_inv_advance:
  "run_inv cfg gc R X pts s \<Longrightarrow>
   run_inv cfg gc R (X \<union> {rt. RangeEnd rt \<in> set g}) pts (s\<lparr>ru_tombstones := advance_to_key g (ru_tombstones s)\<rparr>)"
  by (simp add: run_inv_def advance_tracker)

lemma closed_below_covers:
  assumes "closed_below cfg gc R lower outs"
  shows "cover_seqs x (all_ranges outs) = (if at_or_above lower x then {} else covered gc R x)"
  using assms by (auto simp: closed_below_def closed_def at_or_above_def under_def split: option.splits)

lemma tracker_covers:
  assumes "tracker_inv gc R X lower r" "at_or_above lower x"
  shows "cover_seqs x (map snd (pt_entries (rk_partition r))) = covered gc R x"
proof -
  have "set (map snd (pt_entries (rk_partition r))) = {rt \<in> live_tombstones gc R. beyond lower rt}"
    using assms(1) by (intro represents_snd [of partition_key]) (simp add: tracker_inv_def)
  moreover have "covers rt x \<Longrightarrow> beyond lower rt" for rt
    using assms(2) by (auto simp: covers_def beyond_def at_or_above_def split: option.splits)
  ultimately show ?thesis by (auto simp: cover_seqs_def covered_def)
qed

definition precedes :: "bytes option \<Rightarrow> bytes option \<Rightarrow> bool" where
  "precedes lower upper = (case lower of None \<Rightarrow> True
     | Some l \<Rightarrow> (case upper of None \<Rightarrow> True | Some u \<Rightarrow> l \<le> u))"

lemma finished_covers:
  assumes "run_inv cfg gc R X pts s" "precedes (pr_lower_bound (ru_roller s)) upper"
  shows "cover_seqs x (all_ranges (ru_outputs s) @ clipped (pr_lower_bound (ru_roller s)) upper
      (map snd (pt_entries (rk_partition (ru_tombstones s))))) =
    (if under upper x then covered gc R x else {})"
proof -
  let ?lo = "pr_lower_bound (ru_roller s)"
  have "\<not> at_or_above ?lo x \<Longrightarrow> under upper x"
    using assms(2) by (auto simp: precedes_def at_or_above_def under_def split: option.splits)
  moreover have "cover_seqs x (all_ranges (ru_outputs s)) = (if at_or_above ?lo x then {} else covered gc R x)"
    by (rule closed_below_covers [of cfg]) (use assms(1) in \<open>simp add: run_inv_def\<close>)
  moreover have "at_or_above ?lo x \<Longrightarrow>
      cover_seqs x (map snd (pt_entries (rk_partition (ru_tombstones s)))) = covered gc R x"
    by (rule tracker_covers [of gc R X]) (use assms(1) in \<open>simp_all add: run_inv_def\<close>)
  ultimately show ?thesis by (simp add: cover_seqs_clipped)
qed

lemma closed_below_separated:
  assumes "closed_below cfg gc R lower outs" "within lower upper c" "precedes lower upper"
  shows "sorted_wrt separated (map fp_content outs @ [c])"
    and "\<forall>fp \<in> set outs. within None upper (fp_content fp)"
    and "map fp_name outs = map (\<lambda>i. partition_file_name cfg (of_nat i)) [0..<length outs]"
proof -
  have fp: "\<exists>l. lower = Some l \<and> within None (Some l) (fp_content fp)" if "fp \<in> set outs" for fp
    using assms(1) that by (auto simp: closed_below_def closed_def split: option.splits)
  have "separated (fp_content fp) c" if mem: "fp \<in> set outs" for fp
  proof -
    obtain l where "lower = Some l" "within None (Some l) (fp_content fp)" using fp [OF mem] by blast
    moreover from this have "within (Some l) None c" using within_drop [OF assms(2)] by simp
    ultimately show ?thesis unfolding separated_def by blast
  qed
  moreover have "sorted_wrt separated (map fp_content outs)"
    using assms(1) by (auto simp: closed_below_def closed_def split: option.splits)
  ultimately show "sorted_wrt separated (map fp_content outs @ [c])" by (auto simp: sorted_wrt_append)
  show "map fp_name outs = map (\<lambda>i. partition_file_name cfg (of_nat i)) [0..<length outs]"
    using assms(1) by (auto simp: closed_below_def closed_def split: option.splits)
  show "\<forall>fp \<in> set outs. within None upper (fp_content fp)"
  proof
    fix fp assume "fp \<in> set outs"
    then obtain l where "lower = Some l" "within None (Some l) (fp_content fp)" using fp by blast
    then show "within None upper (fp_content fp)"
      using assms(3) within_mono_upper [of None l] within_drop [of None "Some l"]
      by (cases upper) (auto simp: precedes_def)
  qed
qed

lemma min_usize_length: "min usize_max (length xs) = 0 \<longleftrightarrow> xs = []"
  by (auto simp: min_def)

definition with_finished :: "finished_partition option \<Rightarrow> finished_partition list \<Rightarrow> finished_partition list" where
  "with_finished finished outs = (case finished of None \<Rightarrow> outs | Some fp \<Rightarrow> outs @ [fp])"

lemma persist_partition_exact:
  "persist_partition cfg n w t = Inr (fp, t') \<Longrightarrow> fp = \<lparr>fp_name = partition_file_name cfg n, fp_content = w\<rparr>"
  by (auto simp: persist_partition_def split: if_splits)

lemma finish_current_exact:
  assumes "finish_current cfg ro r upper t = Inr (finished, t')" "roller_inv ro"
  defines "w \<equiv> (pr_writer ro)\<lparr>sw_ranges := clipped (pr_lower_bound ro) upper (map snd (pt_entries (rk_partition r)))\<rparr>"
  shows "finished = (if sw_points w = [] \<and> sw_ranges w = [] then None
    else Some \<lparr>fp_name = partition_file_name cfg (pr_ordinal ro), fp_content = w\<rparr>)"
proof -
  obtain t1 w1 n t2 where add: "add_partition_range_tombstones 0 0 (pr_lower_bound ro) upper
        (map snd (pt_entries (rk_partition r))) (pr_writer ro) t1 = Inr (w1, n, t2)"
    and fin: "(if pr_point_count ro = 0 \<and> n = 0 then Inr (None, t2)
      else try_with (persist_partition cfg (pr_ordinal ro) w1 t2) (\<lambda>(fp, t). Inr (Some fp, t))) = Inr (finished, t')"
    using assms(1) by (auto simp: finish_current_def)
  from add_ranges_exact [OF add] assms(2)
  have "w1 = w" "n = 0 \<longleftrightarrow> sw_ranges w = []" by (auto simp: w_def roller_inv_def)
  moreover have "pr_point_count ro = 0 \<longleftrightarrow> sw_points w = []"
    using assms(2) by (simp add: w_def roller_inv_def min_usize_length)
  ultimately show ?thesis using fin by (auto split: if_splits dest!: persist_partition_exact)
qed

text \<open>Finishing the current output closes the run up to the given bound.\<close>

lemma finish_current_closed:
  assumes run: "finish_current cfg (ru_roller s) (ru_tombstones s) upper t = Inr (finished, t')"
    and inv: "run_inv cfg gc R X pts s" and up: "precedes (pr_lower_bound (ru_roller s)) upper"
    and pts: "\<And>v. v \<in> set (sw_points (pr_writer (ru_roller s))) \<Longrightarrow> under upper (v_key v)"
  shows "closed cfg gc R upper (with_finished finished (ru_outputs s)) \<and>
    all_points (with_finished finished (ru_outputs s)) = pts"
proof -
  define w where "w = (pr_writer (ru_roller s))\<lparr>sw_ranges := clipped (pr_lower_bound (ru_roller s)) upper
    (map snd (pt_entries (rk_partition (ru_tombstones s))))\<rparr>"
  have ro: "roller_inv (ru_roller s)" using inv by (simp add: run_inv_def)
  note fin = finish_current_exact [OF run ro, folded w_def]
  have w: "within (pr_lower_bound (ru_roller s)) upper w"
    unfolding w_def by (rule within_clipped) (use ro pts in \<open>simp add: roller_inv_def\<close>)
  have below: "closed_below cfg gc R (pr_lower_bound (ru_roller s)) (ru_outputs s)" using inv by (simp add: run_inv_def)
  note sep = closed_below_separated [OF below w up]
  have cov: "cover_seqs x (all_ranges (ru_outputs s) @ sw_ranges w) = (if under upper x then covered gc R x else {})" for x
    using finished_covers [OF inv up, of x] by (simp add: w_def)
  have p: "pts = all_points (ru_outputs s) @ sw_points w" using inv by (simp add: run_inv_def w_def)
  have ord: "pr_ordinal (ru_roller s) = of_nat (length (ru_outputs s))" using inv by (simp add: run_inv_def)
  show ?thesis
  proof (cases "sw_points w = [] \<and> sw_ranges w = []")
    case True
    then show ?thesis using fin cov p sep by (simp add: with_finished_def closed_def sorted_wrt_append)
  next
    case False
    have "within None upper w" using within_drop [OF w] by simp
    with False show ?thesis using fin cov p sep ord
      by (auto simp: with_finished_def closed_def simp del: cover_seqs_append)
  qed
qed

lemma next_ordinal_exact:
  assumes "next_ordinal emitted n = Inr n'" "n = of_nat k" "k \<le> u32_max"
  shows "n' = of_nat (if emitted then Suc k else k) \<and> (if emitted then Suc k else k) \<le> u32_max"
proof -
  have "unat n = k" using assms(2,3) by (simp add: unat_of_nat)
  then show ?thesis using assms by (auto simp: next_ordinal_def split: if_splits)
qed

lemma roll_at_inv:
  assumes run: "roll_at cfg b k s t = Inr (s', t')" and inv: "run_inv cfg gc R X pts s"
    and up: "precedes (pr_lower_bound (ru_roller s)) (Some k)"
    and pts: "\<And>v. v \<in> set (sw_points (pr_writer (ru_roller s))) \<Longrightarrow> v_key v < k"
    and ends: "\<And>rt. rt \<in> R \<Longrightarrow> rt \<notin> X \<longleftrightarrow> k < rt_end rt"
  shows "run_inv cfg gc R X pts s' \<and> pr_lower_bound (ru_roller s') = Some k \<and>
    sw_points (pr_writer (ru_roller s')) = []"
proof -
  obtain t1 finished t2 outs t3 t4 n t5 r where
    fin: "finish_current cfg (ru_roller s) (ru_tombstones s) (Some k) t1 = Inr (finished, t2)"
    and outs: "record_finished_partition finished (ru_outputs s) t2 = Inr (outs, t3)"
    and n: "next_ordinal (finished \<noteq> None) (pr_ordinal (ru_roller s)) = Inr n"
    and r: "carry_live_tombstones (pc_sizes cfg) t4 (ru_tombstones s) t5 = Inr (r, t')"
    and s': "s' = \<lparr>ru_roller = \<lparr>pr_ordinal = n, pr_writer = new_content, pr_lower_bound = Some k, pr_point_count = 0\<rparr>,
      ru_tombstones = r, ru_outputs = outs\<rparr>"
    using run unfolding roll_at_def finish_for_roll_def start_next_partition_def Let_def by (auto split: if_splits)
  have outs': "outs = with_finished finished (ru_outputs s)"
    using outs by (auto simp: record_finished_partition_def with_finished_def split: option.splits)
  from finish_current_closed [OF fin inv up] pts
  have closed: "closed cfg gc R (Some k) outs" "all_points outs = pts" by (auto simp: outs' under_def)
  have "tracker_inv gc R X (pr_lower_bound (ru_roller s)) (ru_tombstones s)" using inv by (simp add: run_inv_def)
  from carry_tracker [OF r this ends] have "tracker_inv gc R X (Some k) r" .
  moreover have "n = of_nat (length outs) \<and> length outs \<le> u32_max"
    using next_ordinal_exact [OF n] inv by (auto simp: run_inv_def outs' with_finished_def split: option.splits)
  ultimately show ?thesis using closed
    by (simp add: run_inv_def s' roller_inv_def closed_below_def new_content_def)
qed

lemma write_all_exact:
  "write_all vs ro t = Inr (ro', t') \<Longrightarrow> roller_inv ro \<Longrightarrow>
   (\<And>v. v \<in> set vs \<Longrightarrow> at_or_above (pr_lower_bound ro) (v_key v)) \<Longrightarrow>
   roller_inv ro' \<and> sw_points (pr_writer ro') = sw_points (pr_writer ro) @ vs \<and>
   pr_lower_bound ro' = pr_lower_bound ro \<and> pr_ordinal ro' = pr_ordinal ro"
proof (induction vs arbitrary: ro t)
  case (Cons v vs)
  then obtain ro1 t1 where one: "write_selected v ro t = Inr (ro1, t1)"
    and rest: "write_all vs ro1 t1 = Inr (ro', t')" by auto
  have ro1: "ro1 = ro\<lparr>pr_writer := (pr_writer ro)\<lparr>sw_points := sw_points (pr_writer ro) @ [v]\<rparr>,
      pr_point_count := saturating_add_usize (pr_point_count ro) 1\<rparr>"
    using one by (auto simp: write_selected_def add_sorted_with_meta_def)
  have "roller_inv ro1"
    using Cons.prems(2,3) by (auto simp: ro1 roller_inv_def saturating_add_usize_def)
  from Cons.IH [OF rest this] Cons.prems(3) show ?case by (simp add: ro1)
qed simp

lemma closed_below_more:
  assumes "closed_below cfg gc R lower outs" "\<And>rt. rt \<in> S \<Longrightarrow> at_or_above lower (rt_start rt)"
  shows "closed_below cfg gc (R \<union> S) lower outs"
proof -
  have "covered gc (R \<union> S) x = covered gc R x" if "lower = Some l" "x < l" for l x
  proof -
    have "\<not> covers rt x" if "rt \<in> S" for rt
      using assms(2) [OF that] \<open>x < l\<close> by (auto simp: covers_def at_or_above_def \<open>lower = Some l\<close>)
    then show ?thesis by (auto simp: covered_def live_tombstones_def)
  qed
  with assms(1) show ?thesis
    by (auto simp: closed_below_def closed_def under_def split: option.splits)
qed

lemma write_group_inv:
  assumes run: "write_group cfg gc starts sel s t = Inr (s', t')" and inv: "run_inv cfg gc R X pts s"
    and starts: "\<And>rt. rt \<in> set starts \<Longrightarrow> rt_start rt < rt_end rt \<Longrightarrow> rt \<notin> X"
      "\<And>rt. rt \<in> set starts \<Longrightarrow> at_or_above (pr_lower_bound (ru_roller s)) (rt_start rt)"
    and sel: "\<And>v. v \<in> set sel \<Longrightarrow> at_or_above (pr_lower_bound (ru_roller s)) (v_key v)"
  shows "run_inv cfg gc (R \<union> set starts) X (pts @ sel) s' \<and>
    pr_lower_bound (ru_roller s') = pr_lower_bound (ru_roller s)"
proof -
  obtain pb r t1 ro where r: "observe_starts (pc_sizes cfg) gc pb starts (ru_tombstones s) t = Inr (r, t1)"
    and ro: "write_all sel (ru_roller s) t1 = Inr (ro, t')"
    and s': "s' = \<lparr>ru_roller = ro, ru_tombstones = r, ru_outputs = ru_outputs s\<rparr>"
    using run by (auto simp: write_group_def)
  note i = inv [unfolded run_inv_def]
  have "beyond (pr_lower_bound (ru_roller s)) rt" if "rt \<in> set starts" "rt_start rt < rt_end rt" for rt
    using starts(2) [OF that(1)] that(2) by (auto simp: beyond_def at_or_above_def split: option.splits)
  then have "tracker_inv gc (R \<union> set starts) X (pr_lower_bound (ru_roller s)) r"
    using observe_starts_tracker [OF r] i starts(1) by blast
  moreover have "closed_below cfg gc (R \<union> set starts) (pr_lower_bound (ru_roller s)) (ru_outputs s)"
    using closed_below_more i starts(2) by blast
  moreover note write_all_exact [OF ro _ sel]
  ultimately show ?thesis using i by (simp add: run_inv_def s')
qed

section \<open>Key groups\<close>

definition group_key :: "compaction_event list \<Rightarrow> bytes" where
  "group_key g = event_key (hd g)"

definition key_groups :: "compaction_event list list \<Rightarrow> bool" where
  "key_groups gs \<longleftrightarrow> (\<forall>g \<in> set gs. g \<noteq> [] \<and> (\<forall>e \<in> set g. event_key e = group_key g)) \<and>
     sorted_wrt (<) (map group_key gs)"

text \<open>Every tombstone that starts also ends.\<close>

definition paired :: "compaction_event set \<Rightarrow> bool" where
  "paired E \<longleftrightarrow> (\<forall>rt. RangeStart rt \<in> E \<longrightarrow> RangeEnd rt \<in> E)"

definition splits_at :: "bytes \<Rightarrow> compaction_event set \<Rightarrow> compaction_event list \<Rightarrow> compaction_event set \<Rightarrow> bool" where
  "splits_at k before g after \<longleftrightarrow> (\<forall>e \<in> before. event_key e < k) \<and> (\<forall>e \<in> set g. event_key e = k) \<and>
     (\<forall>e \<in> after. k < event_key e)"

definition starts_of :: "compaction_event set \<Rightarrow> range_tombstone set" where
  "starts_of E = {rt. RangeStart rt \<in> E}"

definition ends_of :: "compaction_event set \<Rightarrow> range_tombstone set" where
  "ends_of E = {rt. RangeEnd rt \<in> E}"

lemma parts_Un [simp]:
  "starts_of (A \<union> B) = starts_of A \<union> starts_of B" "ends_of (A \<union> B) = ends_of A \<union> ends_of B"
  "starts_of {} = {}" "ends_of {} = {}"
  by (auto simp: starts_of_def ends_of_def)

lemma set_event_starts_of: "set (event_starts g) = starts_of (set g)"
  by (simp add: starts_of_def)

lemma key_groups_splits:
  assumes "key_groups (done @ g # rest)"
  shows "splits_at (group_key g) (set (concat done)) g (set (concat rest))" "g \<noteq> []"
proof -
  have k: "e \<in> set h \<Longrightarrow> event_key e = group_key h" if "h \<in> set (done @ g # rest)" for e h
    using assms that by (auto simp: key_groups_def)
  have "sorted_wrt (<) (map group_key done @ group_key g # map group_key rest)"
    using assms by (simp add: key_groups_def)
  then have o: "\<forall>h \<in> set done. group_key h < group_key g" "\<forall>h \<in> set rest. group_key g < group_key h"
    by (auto simp: sorted_wrt_append)
  have "event_key e < group_key g" if "e \<in> set (concat done)" for e
    using that k o(1) by fastforce
  moreover have "event_key e = group_key g" if "e \<in> set g" for e using that k by simp
  moreover have "group_key g < event_key e" if "e \<in> set (concat rest)" for e
    using that k o(2) by fastforce
  ultimately show "splits_at (group_key g) (set (concat done)) g (set (concat rest))"
    by (simp add: splits_at_def)
  show "g \<noteq> []" using assms by (simp add: key_groups_def)
qed

lemma key_groups_Cons:
  assumes "key_groups gs" "\<And>e. e \<in> set g \<Longrightarrow> event_key e = k" "g \<noteq> []"
    and "\<And>e. e \<in> set (concat gs) \<Longrightarrow> k < event_key e"
  shows "key_groups (g # gs)"
proof -
  have "group_key g = k" using assms(2,3) by (simp add: group_key_def)
  moreover have "k < group_key h" if "h \<in> set gs" for h
  proof -
    have "h \<noteq> []" using assms(1) that by (auto simp: key_groups_def)
    then have "hd h \<in> set h" by simp
    then have "hd h \<in> set (concat gs)" using that by auto
    then show ?thesis using assms(4) by (simp add: group_key_def)
  qed
  ultimately show ?thesis using assms by (auto simp: key_groups_def)
qed

text \<open>A pass over the merge takes whole groups.\<close>

lemma past_group:
  assumes ok: "merge_ok fac m" and stop: "\<not> (case peek_event m of None \<Rightarrow> False | Some e \<Rightarrow> event_key e = key)"
    and least: "\<And>e. Inr e \<in># pending fac m \<Longrightarrow> key \<le> event_key e" and mem: "Inr e \<in># pending fac m"
  shows "key < event_key e"
proof (cases "peek_event m")
  case None
  then show ?thesis using peek_event_None [OF ok] mem by simp
next
  case (Some p)
  then have "event_key p \<noteq> key" "key \<le> event_key p" "event_key p \<le> event_key e"
    using stop least peek_least [OF ok Some] mem by auto
  then show ?thesis by simp
qed

lemma collect_more_group:
  "collect_more fac key m seen t = Inr (es, m', seen', t') \<Longrightarrow> merge_ok fac m \<Longrightarrow>
   (\<And>e. Inr e \<in># pending fac m \<Longrightarrow> key \<le> event_key e) \<Longrightarrow>
   pending fac m = mset (map Inr es) + pending fac m' \<and> merge_ok fac m' \<and>
   (\<forall>e \<in> set es. event_key e = key) \<and> (\<forall>e. Inr e \<in># pending fac m' \<longrightarrow> key < event_key e)"
proof (induction fac key m seen t arbitrary: es rule: collect_more.induct)
  case (1 fac key m seen t)
  note run = "1.prems"(1) [unfolded collect_more.simps [of fac key m seen t]]
  note ok = "1.prems"(2) and least = "1.prems"(3)
  show ?case
  proof (cases "case peek_event m of None \<Rightarrow> False | Some e \<Rightarrow> event_key e = key")
    case True
    then obtain e m1 t1 t2 t3 es' where nxt: "next_event fac m t = Inr (Some e, m1, t1)"
      and t: "checkpoint t1 = Inr t2" "abort_every_1024 (saturating_add_usize seen 1) t2 = Inr t3"
      and rest: "collect_more fac key m1 (saturating_add_usize seen 1) t3 = Inr (es', m', seen', t')"
      and es: "es = e # es'"
      using run by (auto split: option.splits)
    note nx = next_event_Some [OF ok nxt]
    have "event_key e = key" using True nx(3) by simp
    moreover have "key \<le> event_key x" if "Inr x \<in># pending fac m1" for x using least nx(1) that by simp
    ultimately show ?thesis
      using "1.IH" [OF True nxt refl refl refl t rest nx(2)] nx(1) by (auto simp: es)
  next
    case False
    then have out: "es = []" "m' = m" using run by auto
    then show ?thesis using past_group [OF ok False least] ok by simp
  qed
qed

inductive partition_steps :: "partition_config \<Rightarrow> partition_run \<Rightarrow> compaction_event list list \<Rightarrow>
    partition_run \<Rightarrow> bool" for cfg where
  no_groups: "partition_steps cfg s [] s"
| one_group: "write_key_group cfg g s tr t = Inr (s1, tr1, t1) \<Longrightarrow> partition_steps cfg s1 gs s2 \<Longrightarrow>
    partition_steps cfg s (g # gs) s2"

inductive_cases partition_steps_Cons: "partition_steps cfg s (g # gs) s2"
inductive_cases partition_steps_Nil: "partition_steps cfg s [] s2"

lemma partition_loop_groups:
  "partition_loop fac cfg m seen s tr t = Inr (s', t') \<Longrightarrow> merge_ok fac m \<Longrightarrow>
   \<exists>gs. pending fac m = mset (map Inr (concat gs)) \<and> key_groups gs \<and> partition_steps cfg s gs s'"
proof (induction fac cfg m seen s tr t rule: partition_loop.induct)
  case (1 fac cfg m seen s tr t)
  note run = "1.prems"(1) [unfolded partition_loop.simps [of fac cfg m seen s tr t]]
  note ok = "1.prems"(2)
  obtain item m1 t1 where nxt: "next_event fac m t = Inr (item, m1, t1)" using run by auto
  show ?case
  proof (cases item)
    case None
    then have "s' = s" "pending fac m = {#}" using run nxt next_event_None [OF ok] by auto
    then show ?thesis
      by (intro exI [of _ "[]"]) (simp add: key_groups_def partition_steps.no_groups)
  next
    case (Some e)
    then obtain t2 g m2 seen2 t3 s1 tr1 t4 where
      a: "abort_every_1024 seen t1 = Inr t2"
      and c: "collect_same_key_events fac m1 e (saturating_add_usize seen 1) t2 = Inr (g, m2, seen2, t3)"
      and w: "write_key_group cfg g s tr t3 = Inr (s1, tr1, t4)"
      and rest: "partition_loop fac cfg m2 seen2 s1 tr1 t4 = Inr (s', t')"
      using run nxt by auto
    note nx = next_event_Some [OF ok nxt [unfolded Some]]
    obtain es t5 where es: "collect_more fac (event_key e) m1 (saturating_add_usize seen 1) t5 = Inr (es, m2, seen2, t3)"
      and g: "g = e # es" using c by (auto simp: collect_same_key_events_def)
    have "event_key e \<le> event_key x" if "Inr x \<in># pending fac m1" for x using nx(4) nx(1) that by simp
    note grp = collect_more_group [OF es nx(2) this]
    from "1.IH" [OF nxt refl refl Some a c refl refl refl w refl refl rest] grp obtain gs where
      gs: "pending fac m2 = mset (map Inr (concat gs))" "key_groups gs" "partition_steps cfg s1 gs s'" by auto
    have "key_groups (g # gs)"
      by (rule key_groups_Cons [OF gs(2), where k = "event_key e"]) (use grp gs(1) in \<open>auto simp: g\<close>)
    moreover have "pending fac m = mset (map Inr (concat (g # gs)))" using nx(1) grp gs(1) by (simp add: g)
    ultimately show ?thesis using partition_steps.one_group [OF w gs(3)] by blast
  qed
qed

section \<open>What a group leaves\<close>

text \<open>
  The specification of tombstone collection: a version is dropped when an obsolete range
  tombstone of at least its sequence covers its key, or when it is itself an obsolete point
  tombstone of an eligible run.
\<close>

definition gc_drops :: "tombstone_gc_policy \<Rightarrow> range_tombstone set \<Rightarrow> raw_version \<Rightarrow> bool" where
  "gc_drops gc R v \<longleftrightarrow>
     (\<exists>rt \<in> R. range_tombstone_is_obsolete rt gc \<and> covers rt (v_key v) \<and> v_seq v \<le> rt_seq rt) \<or>
     (point_eligible gc \<and> v_is_tombstone v \<and> tombstone_is_obsolete (v_seq v) (snapshot_horizon gc))"

definition kept :: "tombstone_gc_policy \<Rightarrow> range_tombstone set \<Rightarrow> raw_version list \<Rightarrow> raw_version list" where
  "kept gc R vs = (case newest vs of None \<Rightarrow> [] | Some v \<Rightarrow> if gc_drops gc R v then [] else [v])"

lemma kept_subset: "set (kept gc R vs) \<subseteq> set vs"
  by (cases "newest vs") (auto simp: kept_def dest: newest_in)

lemma open_iff:
  assumes "splits_at k before g after" "paired (before \<union> set g \<union> after)" "rt \<in> starts_of before"
  shows "rt \<notin> ends_of before \<union> ends_of (set g) \<longleftrightarrow> k < rt_end rt"
proof
  assume "rt \<notin> ends_of before \<union> ends_of (set g)"
  then have "RangeEnd rt \<in> after" using assms(2,3) by (auto simp: paired_def starts_of_def ends_of_def)
  then show "k < rt_end rt" using assms(1) by (auto simp: splits_at_def)
next
  assume "k < rt_end rt"
  then show "rt \<notin> ends_of before \<union> ends_of (set g)" using assms(1) by (fastforce simp: splits_at_def ends_of_def)
qed

lemma highest_obsolete_cover_exact:
  assumes "tracker_inv gc R X lower r" "\<And>rt. rt \<in> R - X \<Longrightarrow> covers rt k"
  shows "(case highest_obsolete_cover r of None \<Rightarrow> False | Some rt \<Rightarrow> covers rt k \<and> q \<le> rt_seq rt) \<longleftrightarrow>
    (\<exists>rt \<in> R - X. range_tombstone_is_obsolete rt gc \<and> q \<le> rt_seq rt)"
proof -
  let ?m = "at_obsolete (rk_active r)" and ?A = "R - live_tombstones gc R - X"
  have rep: "represents active_key ?m ?A" using assms(1) by (simp add: tracker_inv_def)
  have A: "rt \<in> ?A \<longleftrightarrow> rt \<in> R - X \<and> range_tombstone_is_obsolete rt gc" for rt
    by (auto simp: live_tombstones_def)
  show ?thesis
  proof (cases "?m = []")
    case True
    then have "?A = {}" using represents_empty [OF rep] by simp
    then show ?thesis using True A by (auto simp: highest_obsolete_cover_def)
  next
    case False
    have h: "highest_obsolete_cover r = Some (snd (last ?m))"
      using False by (cases ?m) (simp_all add: highest_obsolete_cover_def)
    have "snd (last ?m) \<in> R - X" "range_tombstone_is_obsolete (snd (last ?m)) gc"
      using represents_last(1) [OF rep False] A by auto
    moreover have "rt_seq rt \<le> rt_seq (snd (last ?m))" if "rt \<in> R - X" "range_tombstone_is_obsolete rt gc" for rt
      using represents_last(2) [OF rep False] A that by blast
    ultimately show ?thesis using h assms(2) by (auto intro: order.trans)
  qed
qed

lemma survives_exact:
  assumes inv: "tracker_inv gc (starts_of before) (ends_of before \<union> ends_of (set g)) lower r"
    and sp: "splits_at k before g after" and pr: "paired (before \<union> set g \<union> after)" and v: "v_key v = k"
  shows "survives_tombstone_gc v (highest_obsolete_cover r) (event_starts g) gc \<longleftrightarrow>
    \<not> gc_drops gc (starts_of (before \<union> set g \<union> after)) v"
proof -
  let ?hit = "\<lambda>rt. range_tombstone_is_obsolete rt gc \<and> covers rt k \<and> v_seq v \<le> rt_seq rt"
  have R: "rt \<in> starts_of before \<Longrightarrow> covers rt k \<longleftrightarrow> rt \<notin> ends_of before \<union> ends_of (set g)" for rt
    using open_iff [OF sp pr, of rt] sp by (fastforce simp: covers_def splits_at_def starts_of_def)
  have "rt \<in> starts_of after \<Longrightarrow> \<not> covers rt k" for rt
    using sp by (fastforce simp: covers_def splits_at_def starts_of_def)
  then have split: "(\<exists>rt \<in> starts_of (before \<union> set g \<union> after). ?hit rt) \<longleftrightarrow>
      (\<exists>rt \<in> starts_of before. ?hit rt) \<or> (\<exists>rt \<in> starts_of (set g). ?hit rt)" by auto
  have "(case highest_obsolete_cover r of None \<Rightarrow> False | Some rt \<Rightarrow> covers rt k \<and> v_seq v \<le> rt_seq rt) \<longleftrightarrow>
      (\<exists>rt \<in> starts_of before. ?hit rt)"
    using highest_obsolete_cover_exact [OF inv, of k "v_seq v"] R by blast
  moreover have "list_ex ?hit (event_starts g) \<longleftrightarrow> (\<exists>rt \<in> starts_of (set g). ?hit rt)"
    by (auto simp: list_ex_iff starts_of_def)
  ultimately show ?thesis unfolding survives_tombstone_gc_def gc_drops_def v split by argo
qed

lemma select_output_exact:
  assumes run: "select_partition_key_output g r gc = Inr (sel, r')"
    and inv: "tracker_inv gc (starts_of before) (ends_of before) lower r"
    and sp: "splits_at k before g after" and pr: "paired (before \<union> set g \<union> after)"
  shows "r' = advance_to_key g r" "consistent (event_versions g)"
    "(case sel of None \<Rightarrow> [] | Some v \<Rightarrow> [v]) = kept gc (starts_of (before \<union> set g \<union> after)) (event_versions g)"
proof -
  obtain n where n: "select_newest_version g = Inr n" and r': "r' = advance_to_key g r"
    and sel: "sel = Option.bind n (\<lambda>v. if survives_tombstone_gc v (highest_obsolete_cover r') (event_starts g) gc
      then Some v else None)"
    using run by (auto simp: select_partition_key_output_def Let_def)
  have key: "event_key e = k" if "e \<in> set g" for e using sp that by (simp add: splits_at_def)
  note new = select_newest_version_exact [OF n key]
  show "r' = advance_to_key g r" "consistent (event_versions g)" using r' new by auto
  have inv': "tracker_inv gc (starts_of before) (ends_of before \<union> ends_of (set g)) lower r'"
    using advance_tracker [OF inv, of g] by (simp add: r' ends_of_def)
  show "(case sel of None \<Rightarrow> [] | Some v \<Rightarrow> [v]) = kept gc (starts_of (before \<union> set g \<union> after)) (event_versions g)"
  proof (cases n)
    case (Some v)
    then have "v \<in> set (event_versions g)" using new(2) newest_in by metis
    then have "v_key v = k" using key [of "Version v"] by simp
    from survives_exact [OF inv' sp pr this] Some show ?thesis
      using new(2) by (auto simp: sel kept_def split: if_splits)
  qed (use new(2) sel in \<open>simp add: kept_def split: option.splits\<close>)
qed

definition run_at :: "partition_config \<Rightarrow> tombstone_gc_policy \<Rightarrow> compaction_event set \<Rightarrow> raw_version list \<Rightarrow>
    partition_run \<Rightarrow> bool" where
  "run_at cfg gc before pts s \<longleftrightarrow> run_inv cfg gc (starts_of before) (ends_of before) pts s \<and>
     (\<forall>l. pr_lower_bound (ru_roller s) = Some l \<longrightarrow> (\<exists>e \<in> before. l \<le> event_key e)) \<and>
     (\<forall>v \<in> set pts. Version v \<in> before)"

lemma run_at_new: "run_at cfg gc {} [] new_run"
  by (simp add: run_at_def run_inv_new) (simp add: new_run_def new_roller_def)

lemma run_at_bounds:
  assumes "run_at cfg gc before pts s" "splits_at k before g after"
  shows "precedes (pr_lower_bound (ru_roller s)) (Some k)" "at_or_above (pr_lower_bound (ru_roller s)) k"
    "v \<in> set (sw_points (pr_writer (ru_roller s))) \<Longrightarrow> v_key v < k"
proof -
  have "l < k" if "pr_lower_bound (ru_roller s) = Some l" for l
    using assms that by (force simp: run_at_def splits_at_def)
  then show "precedes (pr_lower_bound (ru_roller s)) (Some k)" "at_or_above (pr_lower_bound (ru_roller s)) k"
    by (auto simp: precedes_def at_or_above_def split: option.splits dest: less_imp_le)
  assume "v \<in> set (sw_points (pr_writer (ru_roller s)))"
  then have "Version v \<in> before" using assms(1) by (auto simp: run_at_def run_inv_def)
  then show "v_key v < k" using assms(2) by (fastforce simp: splits_at_def)
qed

text \<open>
  Writing a group whose ranges are retired, to the current output or to one opened at or below
  its key.
\<close>

lemma write_group_at:
  assumes run: "write_group cfg gc (event_starts g) sel s t = Inr (s', t')"
    and inv: "run_inv cfg gc (starts_of before) (ends_of before \<union> ends_of (set g)) pts s"
    and sp: "splits_at k before g after" and g: "g \<noteq> []"
    and lower: "at_or_above (pr_lower_bound (ru_roller s)) k"
    and pts: "\<forall>v \<in> set pts. Version v \<in> before" and sel: "set sel \<subseteq> set (event_versions g)"
  shows "run_at cfg gc (before \<union> set g) (pts @ sel) s'"
proof -
  have k: "event_key e = k" if "e \<in> set g" for e using sp that by (simp add: splits_at_def)
  have "run_inv cfg gc (starts_of before \<union> set (event_starts g)) (ends_of before \<union> ends_of (set g)) (pts @ sel) s' \<and>
      pr_lower_bound (ru_roller s') = pr_lower_bound (ru_roller s)"
  proof (rule write_group_inv [OF run inv])
    fix rt assume rt: "rt \<in> set (event_starts g)"
    then have start: "rt_start rt = k" using k [of "RangeStart rt"] by simp
    then show "at_or_above (pr_lower_bound (ru_roller s)) (rt_start rt)" using lower by simp
    assume "rt_start rt < rt_end rt"
    then show "rt \<notin> ends_of before \<union> ends_of (set g)"
      using sp start by (fastforce simp: splits_at_def ends_of_def)
  next
    fix v assume "v \<in> set sel"
    then have "v_key v = k" using sel k [of "Version v"] by auto
    then show "at_or_above (pr_lower_bound (ru_roller s)) (v_key v)" using lower by simp
  qed
  moreover have "\<exists>e \<in> before \<union> set g. l \<le> event_key e" if "pr_lower_bound (ru_roller s) = Some l" for l
  proof
    show "hd g \<in> before \<union> set g" using g by simp
    show "l \<le> event_key (hd g)" using lower that k [of "hd g"] g by (simp add: at_or_above_def)
  qed
  ultimately show ?thesis using pts sel
    by (auto simp: run_at_def set_event_starts_of simp del: set_event_starts)
qed

lemma write_key_group_at:
  assumes run: "write_key_group cfg g s tr t = Inr (s', tr', t')" and at: "run_at cfg (pc_tombstone_gc cfg) before pts s"
    and sp: "splits_at k before g after" and pr: "paired (before \<union> set g \<union> after)" and g: "g \<noteq> []"
  shows "run_at cfg (pc_tombstone_gc cfg) (before \<union> set g)
      (pts @ kept (pc_tombstone_gc cfg) (starts_of (before \<union> set g \<union> after)) (event_versions g)) s' \<and>
    consistent (event_versions g)"
proof -
  let ?gc = "pc_tombstone_gc cfg"
  obtain sel r b s1 t1 t2 where
    sel: "select_partition_key_output g (ru_tombstones s) ?gc = Inr (sel, r)"
    and s1: "(if b then try_with (roll_at cfg True (event_key (hd g)) (s\<lparr>ru_tombstones := r\<rparr>) t)
        (\<lambda>(s, t). Inr (s, new_tracker, t)) else Inr (s\<lparr>ru_tombstones := r\<rparr>, tr, t)) = Inr (s1, t1)"
    and w: "write_group cfg ?gc (event_starts g) (case sel of None \<Rightarrow> [] | Some v \<Rightarrow> [v]) s1 (snd t1) = Inr (s', t2)"
    using run by (auto simp: write_key_group_def Let_def)
  have inv: "run_inv cfg ?gc (starts_of before) (ends_of before) pts s" and pts: "\<forall>v \<in> set pts. Version v \<in> before"
    using at by (auto simp: run_at_def)
  then have tr: "tracker_inv ?gc (starts_of before) (ends_of before) (pr_lower_bound (ru_roller s)) (ru_tombstones s)"
    by (simp add: run_inv_def)
  note so = select_output_exact [OF sel tr sp pr]
  have k: "event_key (hd g) = k" using sp g by (simp add: splits_at_def)
  have inv0: "run_inv cfg ?gc (starts_of before) (ends_of before \<union> ends_of (set g)) pts (s\<lparr>ru_tombstones := r\<rparr>)"
    using run_inv_advance [OF inv, of g] by (simp add: so(1) ends_of_def)
  note b = run_at_bounds [OF at sp]
  have "run_inv cfg ?gc (starts_of before) (ends_of before \<union> ends_of (set g)) pts s1 \<and>
      at_or_above (pr_lower_bound (ru_roller s1)) k"
  proof (cases b)
    case True
    then obtain t3 where roll: "roll_at cfg True k (s\<lparr>ru_tombstones := r\<rparr>) t = Inr (s1, t3)" using s1 k by auto
    have "run_inv cfg ?gc (starts_of before) (ends_of before \<union> ends_of (set g)) pts s1 \<and>
        pr_lower_bound (ru_roller s1) = Some k \<and> sw_points (pr_writer (ru_roller s1)) = []"
      by (rule roll_at_inv [OF roll inv0]) (use b(1,3) open_iff [OF sp pr] in auto)
    then show ?thesis by (simp add: at_or_above_def)
  next
    case False
    then show ?thesis using s1 inv0 b(2) by auto
  qed
  moreover note kept_subset
  ultimately have "run_at cfg ?gc (before \<union> set g) (pts @ (case sel of None \<Rightarrow> [] | Some v \<Rightarrow> [v])) s'"
    using write_group_at [OF w _ sp g _ pts] so(3) by metis
  then show ?thesis using so by simp
qed

lemma partition_steps_at:
  "partition_steps cfg s gs s' \<Longrightarrow> key_groups (before @ gs) \<Longrightarrow> paired (set (concat (before @ gs))) \<Longrightarrow>
   run_at cfg (pc_tombstone_gc cfg) (set (concat before)) pts s \<Longrightarrow>
   run_at cfg (pc_tombstone_gc cfg) (set (concat (before @ gs)))
     (pts @ concat (map (\<lambda>g. kept (pc_tombstone_gc cfg) (starts_of (set (concat (before @ gs)))) (event_versions g)) gs)) s' \<and>
   (\<forall>g \<in> set gs. consistent (event_versions g))"
proof (induction s gs s' arbitrary: before pts rule: partition_steps.induct)
  case (one_group g s tr t s1 tr1 t1 gs s2)
  let ?E = "set (concat (before @ g # gs))"
  note sp = key_groups_splits [OF one_group.prems(1)]
  have E: "set (concat before) \<union> set g \<union> set (concat gs) = ?E" by auto
  from write_key_group_at [OF one_group.hyps(1) one_group.prems(3) sp(1) _ sp(2)] one_group.prems(2)
  have step: "run_at cfg (pc_tombstone_gc cfg) (set (concat (before @ [g])))
      (pts @ kept (pc_tombstone_gc cfg) (starts_of ?E) (event_versions g)) s1" "consistent (event_versions g)"
    unfolding E by auto
  have "key_groups ((before @ [g]) @ gs)" "paired (set (concat ((before @ [g]) @ gs)))"
    using one_group.prems by simp_all
  from one_group.IH [OF this step(1)] step(2) show ?case by simp
qed simp

section \<open>Retention\<close>

text \<open>The events of a run: what its tables hold, and the boundaries of the grandparent level.\<close>

lemma run_events:
  assumes cs: "collect_compaction_stream_inputs fac src tgt lvl rep t = Inr (cs, t')"
    and asc: "\<forall>f \<in> set src. versions_ascend fac f"
    and bs: "\<forall>c \<in> set bs. key_ordered (cursor_items fac c)"
      "oks (concat (map (cursor_items fac) bs)) = map Boundary ks"
    and m: "merge_new fac (cs @ bs) t2 = Inr (m, t3)"
  shows "merge_ok fac m"
    and "pending fac m = mset (map Inr es) \<Longrightarrow>
      mset es = input_events fac (src @ tgt) + mset (map Boundary ks)"
proof -
  have ord: "key_ordered (cursor_items fac c)" if "c \<in> set (cs @ bs)" for c
    using that bs(1) collect_inputs_ordered [OF cs] asc by auto
  note new = merge_new_ok [OF m ord]
  then show "merge_ok fac m" by simp
  assume "pending fac m = mset (map Inr es)"
  then have eq: "mset (concat (map (cursor_items fac) (cs @ bs))) = mset (map Inr es)" using new by simp
  have cl: "clean (concat (map (cursor_items fac) cs))" using clean_mset [OF eq] by simp
  have "mset es = mset (oks (concat (map (cursor_items fac) (cs @ bs))))" using mset_oks [OF eq] by simp
  also have "\<dots> = mset (oks (concat (map (cursor_items fac) cs))) + mset (map Boundary ks)" using bs(2) by simp
  also have "oks (concat (map (cursor_items fac) cs)) = oks (concat (map (file_items fac) (src @ tgt)))"
    using collect_inputs_items [OF cs cl] by simp
  also have "mset \<dots> = input_events fac (src @ tgt)"
    by (rule clean_input_events) (use cl collect_inputs_items [OF cs cl] in simp)
  finally show "mset es = input_events fac (src @ tgt) + mset (map Boundary ks)" .
qed

lemma input_events_paired:
  assumes "mset es = input_events fac fs + mset (map Boundary ks)"
  shows "paired (set es)" "starts_of (set es) = set (concat (map (file_tombstones fac) fs))"
    "mset (event_versions es) = mset (concat (map (file_versions fac) fs))"
proof -
  have "set es = set_mset (input_events fac fs + mset (map Boundary ks))" using assms by (metis set_mset_mset)
  then have es: "e \<in> set es \<longleftrightarrow> e \<in> Version ` set (concat (map (file_versions fac) fs)) \<or>
      e \<in> RangeStart ` set (concat (map (file_tombstones fac) fs)) \<or>
      e \<in> RangeEnd ` set (concat (map (file_tombstones fac) fs)) \<or> e \<in> Boundary ` set ks" for e
    by (simp add: input_events_def)
  show "paired (set es)" unfolding paired_def es by auto
  show "starts_of (set es) = set (concat (map (file_tombstones fac) fs))" unfolding starts_of_def es by auto
  have "event_versions (map Boundary ks) = []" by (induction ks) auto
  moreover obtain xs where xs: "mset xs = input_events fac fs" by (metis ex_mset)
  then have "mset es = mset (xs @ map Boundary ks)" using assms by simp
  then have "mset (event_versions es) = mset (event_versions (xs @ map Boundary ks))"
    unfolding mset_event_versions by simp
  ultimately show "mset (event_versions es) = mset (concat (map (file_versions fac) fs))"
    using input_events_versions(1) [OF xs] by simp
qed

lemma oks_boundaries: "oks (map (\<lambda>k. Inr (Boundary k)) ks) = map Boundary ks"
  by (induction ks) auto

lemma boundary_cursor_items:
  assumes "boundary_cursor g t = Inr (bs, t')"
  shows "\<exists>ks. oks (concat (map (cursor_items fac) bs)) = map Boundary ks" "c \<in> set bs \<Longrightarrow> key_ordered (cursor_items fac c)"
proof -
  let ?ks = "remdups_adj (sort (map fst (go_starts g)))"
  have "sorted ?ks" "bs = [] \<or> bs = [BoundaryCursor ?ks]"
    using assms by (auto simp: boundary_cursor_def split: if_splits)
  then show "\<exists>ks. oks (concat (map (cursor_items fac) bs)) = map Boundary ks"
    "c \<in> set bs \<Longrightarrow> key_ordered (cursor_items fac c)"
    by (auto simp: key_ordered_def o_def oks_boundaries intro: exI [of _ "[]"])
qed

definition kept_points :: "tombstone_gc_policy \<Rightarrow> range_tombstone set \<Rightarrow> compaction_event list list \<Rightarrow> raw_version list" where
  "kept_points gc R gs = concat (map (\<lambda>g. kept gc R (event_versions g)) gs)"

text \<open>Everything a successful run establishes, over the groups it consumed.\<close>

lemma partitioned_run:
  assumes cs: "collect_compaction_stream_inputs fac src tgt lvl rep t = Inr (cs, t1)"
    and asc: "\<forall>f \<in> set src. versions_ascend fac f"
    and run: "write_partitioned_compaction_outputs fac cfg cs t2 = Inr (outs, t3)"
  shows "\<exists>gs. key_groups gs \<and> (\<forall>g \<in> set gs. consistent (event_versions g)) \<and>
    mset (event_versions (concat gs)) = mset (concat (map (file_versions fac) (src @ tgt))) \<and>
    starts_of (set (concat gs)) = set (concat (map (file_tombstones fac) (src @ tgt))) \<and>
    closed cfg (pc_tombstone_gc cfg) (starts_of (set (concat gs))) None outs \<and>
    all_points outs = kept_points (pc_tombstone_gc cfg) (starts_of (set (concat gs))) gs \<and>
    length outs \<le> Suc u32_max"
proof -
  let ?gc = "pc_tombstone_gc cfg"
  obtain u1 bs u2 u3 m u4 s u5 u6 fin u7 u8 where
    bs: "boundary_cursor (pc_grandparent_overlap cfg) u1 = Inr (bs, u2)"
    and m: "merge_new fac (cs @ bs) u3 = Inr (m, u4)"
    and loop: "partition_loop fac cfg m 0 new_run new_tracker u4 = Inr (s, u5)"
    and fin: "finish_current cfg (ru_roller s) (ru_tombstones s) None u6 = Inr (fin, u7)"
    and outs: "record_finished_partition fin (ru_outputs s) u7 = Inr (outs, u8)"
    using run unfolding write_partitioned_compaction_outputs_def finish_partitioned_outputs_def by auto
  obtain ks where ks: "oks (concat (map (cursor_items fac) bs)) = map Boundary ks"
    using boundary_cursor_items(1) [OF bs] by blast
  have "\<forall>c \<in> set bs. key_ordered (cursor_items fac c)" using boundary_cursor_items(2) [OF bs] by blast
  note ev = run_events [OF cs asc this ks m]
  obtain gs where gs: "pending fac m = mset (map Inr (concat gs))" "key_groups gs" "partition_steps cfg new_run gs s"
    using partition_loop_groups [OF loop ev(1)] by blast
  note pr = input_events_paired [OF ev(2) [OF gs(1)]]
  from partition_steps_at [OF gs(3), of "[]" "[]"] gs(2) pr(1) run_at_new
  have at: "run_at cfg ?gc (set (concat gs)) (kept_points ?gc (starts_of (set (concat gs))) gs) s"
    and cons: "\<forall>g \<in> set gs. consistent (event_versions g)"
    by (auto simp: kept_points_def)
  then have inv: "run_inv cfg ?gc (starts_of (set (concat gs))) (ends_of (set (concat gs)))
      (kept_points ?gc (starts_of (set (concat gs))) gs) s" by (simp add: run_at_def)
  have o: "outs = with_finished fin (ru_outputs s)"
    using outs by (auto simp: record_finished_partition_def with_finished_def split: option.splits)
  have "length outs \<le> Suc u32_max" using inv by (auto simp: o with_finished_def run_inv_def split: option.splits)
  moreover have "closed cfg ?gc (starts_of (set (concat gs))) None outs \<and>
      all_points outs = kept_points ?gc (starts_of (set (concat gs))) gs"
    unfolding o by (rule finish_current_closed [OF fin inv]) (auto simp: precedes_def under_def split: option.splits)
  ultimately show ?thesis using gs(2) cons pr by blast
qed

lemma newest_perm:
  assumes "mset xs = mset ys" "consistent xs" "\<And>v. v \<in> set xs \<Longrightarrow> v_key v = k"
  shows "newest ys = newest xs"
proof (cases "newest xs")
  case None
  then show ?thesis using assms(1) by simp
next
  case (Some v)
  have s: "set ys = set xs" using assms(1) by (metis set_mset_mset)
  then have "consistent ys" using assms(2) by (simp add: consistent_def)
  moreover have "v \<in> set ys" "\<And>w. w \<in> set ys \<Longrightarrow> v_seq w \<le> v_seq v" using Some newest_in newest_max s by auto
  ultimately show ?thesis using newest_unique [of ys k v] assms(3) s Some by simp
qed

lemma versions_at_append [simp]: "versions_at k (xs @ ys) = versions_at k xs @ versions_at k ys"
  by (simp add: versions_at_def)

lemma versions_at_all: "(\<And>v. v \<in> set vs \<Longrightarrow> v_key v = k) \<Longrightarrow> versions_at k vs = vs"
  by (simp add: versions_at_def)

lemma versions_at_none: "(\<And>v. v \<in> set vs \<Longrightarrow> v_key v \<noteq> k) \<Longrightarrow> versions_at k vs = []"
  by (simp add: versions_at_def)

lemma key_groups_Cons_iff:
  "key_groups (g # gs) \<Longrightarrow> key_groups gs \<and> (\<forall>v \<in> set (event_versions g). v_key v = group_key g) \<and>
     (\<forall>v \<in> set (event_versions (concat gs)). group_key g < v_key v)"
  using key_groups_splits [of "[]" g gs] by (fastforce simp: key_groups_def splits_at_def)

lemma kept_points_at:
  "key_groups gs \<Longrightarrow> versions_at k (kept_points gc R gs) = kept gc R (versions_at k (event_versions (concat gs)))"
proof (induction gs)
  case (Cons g gs)
  note c = key_groups_Cons_iff [OF Cons.prems]
  have sub: "v \<in> set (kept gc R (event_versions g)) \<Longrightarrow> v_key v = group_key g" for v
    using c kept_subset by blast
  have split: "kept_points gc R (g # gs) = kept gc R (event_versions g) @ kept_points gc R gs"
    by (simp add: kept_points_def)
  show ?case
  proof (cases "group_key g = k")
    case True
    then have rest: "versions_at k (event_versions (concat gs)) = []" using c by (intro versions_at_none) auto
    then have "versions_at k (kept_points gc R gs) = []" using Cons.IH c by (simp add: kept_def)
    moreover have "versions_at k (kept gc R (event_versions g)) = kept gc R (event_versions g)"
      using sub True by (intro versions_at_all) auto
    moreover have "versions_at k (event_versions g) = event_versions g" using c True by (intro versions_at_all) auto
    ultimately show ?thesis using rest by (simp add: split)
  next
    case False
    then have "versions_at k (kept gc R (event_versions g)) = []" "versions_at k (event_versions g) = []"
      using sub c by (auto intro!: versions_at_none)
    then show ?thesis using Cons.IH c by (simp add: split)
  qed
qed (simp add: kept_points_def kept_def versions_at_def)

lemma consistent_versions_at:
  "key_groups gs \<Longrightarrow> \<forall>g \<in> set gs. consistent (event_versions g) \<Longrightarrow> consistent (versions_at k (event_versions (concat gs)))"
proof (induction gs)
  case (Cons g gs)
  note c = key_groups_Cons_iff [OF Cons.prems(1)]
  show ?case
  proof (cases "group_key g = k")
    case True
    then have "versions_at k (event_versions (concat gs)) = []" using c by (intro versions_at_none) auto
    moreover have "versions_at k (event_versions g) = event_versions g" using c True by (intro versions_at_all) auto
    ultimately show ?thesis using Cons.prems(2) by simp
  next
    case False
    then have "versions_at k (event_versions g) = []" using c by (auto intro!: versions_at_none)
    then show ?thesis using Cons c by simp
  qed
qed (simp add: consistent_def versions_at_def)

definition input_versions :: "sst_factory \<Rightarrow> string list \<Rightarrow> raw_version list" where
  "input_versions fac fs = concat (map (file_versions fac) fs)"

definition input_tombstones :: "sst_factory \<Rightarrow> string list \<Rightarrow> range_tombstone list" where
  "input_tombstones fac fs = concat (map (file_tombstones fac) fs)"

lemma partitioned_view:
  assumes "collect_compaction_stream_inputs fac src tgt lvl rep t = Inr (cs, t1)"
    and "\<forall>f \<in> set src. versions_ascend fac f"
    and "write_partitioned_compaction_outputs fac cfg cs t2 = Inr (outs, t3)"
  shows "versions_at k (all_points outs) =
      kept (pc_tombstone_gc cfg) (set (input_tombstones fac (src @ tgt)))
        (versions_at k (input_versions fac (src @ tgt)))"
    and "cover_seqs k (all_ranges outs) =
      rt_seq ` {rt \<in> set (input_tombstones fac (src @ tgt)).
        \<not> range_tombstone_is_obsolete rt (pc_tombstone_gc cfg) \<and> covers rt k}"
    and "consistent (versions_at k (input_versions fac (src @ tgt)))"
proof -
  let ?gc = "pc_tombstone_gc cfg" and ?R = "set (input_tombstones fac (src @ tgt))"
    and ?vs = "input_versions fac (src @ tgt)"
  from partitioned_run [OF assms] obtain gs where
    gs: "key_groups gs" "\<forall>g \<in> set gs. consistent (event_versions g)"
      "mset (event_versions (concat gs)) = mset ?vs" "starts_of (set (concat gs)) = ?R"
    and cl: "closed cfg ?gc ?R None outs" and pts: "all_points outs = kept_points ?gc ?R gs"
    unfolding input_versions_def input_tombstones_def by auto
  let ?e = "versions_at k (event_versions (concat gs))"
  have m: "mset ?e = mset (versions_at k ?vs)" using gs(3) by (simp add: versions_at_def)
  note cons = consistent_versions_at [OF gs(1,2), of k]
  have "newest (versions_at k ?vs) = newest ?e"
    by (rule newest_perm [OF m cons]) (simp add: versions_at_def)
  then show "versions_at k (all_points outs) = kept ?gc ?R (versions_at k ?vs)"
    unfolding pts kept_points_at [OF gs(1)] by (simp add: kept_def)
  show "consistent (versions_at k ?vs)" using cons mset_eq_setD [OF m] by (simp add: consistent_def)
  show "cover_seqs k (all_ranges outs) = rt_seq ` {rt \<in> ?R. \<not> range_tombstone_is_obsolete rt ?gc \<and> covers rt k}"
    using cl by (auto simp: closed_def under_def covered_def live_tombstones_def)
qed

section \<open>A concrete run\<close>

text \<open>
  The two sample tables compacted to the bottommost level with outputs of one point: the
  tombstone and the version under it are collected.
\<close>

definition sample_config :: partition_config where
  "sample_config = \<lparr>pc_cf_id = 1, pc_target_level = 2, pc_generation = 9, pc_target_sst_size = 1,
     pc_tombstone_gc = \<lparr>snapshot_horizon = None, point_eligible = True, range_eligible = True\<rparr>,
     pc_output_size_limit = None, pc_grandparent_overlap = from_files [] 0, pc_sizes = sample_sizes\<rparr>"

definition sample_cursors :: "event_cursor list" where
  "sample_cursors = (case collect_compaction_stream_inputs sample_tables [''new''] [''old''] 0 False [] of
     Inr (cs, _) \<Rightarrow> cs | Inl _ \<Rightarrow> [])"

definition sample_outputs :: "finished_partition list" where
  "sample_outputs = map (\<lambda>(i, v). \<lparr>fp_name = partition_file_name sample_config i,
     fp_content = \<lparr>sw_points = [v], sw_ranges = []\<rparr>\<rparr>) [(0, sample_version [1] 7), (1, sample_version [4] 1)]"

lemma sample_inputs:
  "collect_compaction_stream_inputs sample_tables [''new''] [''old''] 0 False [] = Inr (sample_cursors, [])"
  by code_simp

lemma sample_compaction:
  "write_partitioned_compaction_outputs sample_tables sample_config sample_cursors [] = Inr (sample_outputs, [])"
  by code_simp

lemma sample_source_ascends: "\<forall>f \<in> set [''new'']. versions_ascend sample_tables f"
  by code_simp

text \<open>C1. Compaction keeps exactly the right versions and tombstones: for every key the outputs of
  a successful run hold the newest input version unless tombstone collection drops it, and
  no other version; and over every key, written or not, they hold exactly the sequences of
  the input tombstones that are not collected, however the output was cut into tables.\<close>

theorem compaction_keeps_view:
  assumes "collect_compaction_stream_inputs fac src tgt lvl rep t = Inr (cs, t1)"
    and "\<forall>f \<in> set src. versions_ascend fac f"
    and "write_partitioned_compaction_outputs fac cfg cs t2 = Inr (outs, t3)"
  shows "versions_at k (all_points outs) =
      kept (pc_tombstone_gc cfg) (set (input_tombstones fac (src @ tgt)))
        (versions_at k (input_versions fac (src @ tgt))) \<and>
    cover_seqs k (all_ranges outs) = cover_seqs k (filter
      (\<lambda>rt. \<not> range_tombstone_is_obsolete rt (pc_tombstone_gc cfg)) (input_tombstones fac (src @ tgt)))"
  using partitioned_view [OF assms, of k] by (auto simp: cover_seqs_def)

theorem compaction_keeps_view_witness:
  "versions_at [1] (all_points sample_outputs) =
     kept (pc_tombstone_gc sample_config) (set (input_tombstones sample_tables ([''new''] @ [''old''])))
       (versions_at [1] (input_versions sample_tables ([''new''] @ [''old'']))) \<and>
   versions_at [1] (all_points sample_outputs) = [sample_version [1] 7]"
proof -
  have "versions_at [1] (all_points sample_outputs) = [sample_version [1] 7]" by code_simp
  then show ?thesis
    using compaction_keeps_view [OF sample_inputs sample_source_ascends sample_compaction, of "[1]"] by blast
qed


section \<open>Reads\<close>

text \<open>
  What a reader of the latest state sees of a key: its newest version, unless that is a point
  tombstone or a range tombstone of at least its sequence covers the key.
\<close>

definition visible :: "bytes \<Rightarrow> raw_version list \<Rightarrow> range_tombstone list \<Rightarrow> raw_version option" where
  "visible k vs rts = (case newest (versions_at k vs) of None \<Rightarrow> None
     | Some v \<Rightarrow> if v_is_tombstone v \<or> (\<exists>q \<in> cover_seqs k rts. v_seq v \<le> q) then None else Some v)"

lemma versions_at_key: "v \<in> set (versions_at k vs) \<Longrightarrow> v_key v = k"
  by (simp add: versions_at_def)

lemma visible_absent: "versions_at k vs = [] \<Longrightarrow> visible k vs rts = None"
  by (simp add: visible_def newest_None [THEN iffD2])

lemma visible_deleted:
  "newest (versions_at k vs) = Some v \<Longrightarrow> v_is_tombstone v \<or> (\<exists>q \<in> cover_seqs k rts. v_seq v \<le> q) \<Longrightarrow>
    visible k vs rts = None"
  by (simp add: visible_def)

lemma visible_cong:
  assumes "newest (versions_at k vs) = newest (versions_at k ws)"
    and "\<And>w. newest (versions_at k ws) = Some w \<Longrightarrow>
      (\<exists>q \<in> cover_seqs k rts. v_seq w \<le> q) \<longleftrightarrow> (\<exists>q \<in> cover_seqs k sts. v_seq w \<le> q)"
  shows "visible k vs rts = visible k ws sts"
  using assms by (cases "newest (versions_at k ws)") (simp_all add: visible_def del: newest_None)

lemma newest_of_kept:
  assumes "consistent (vs @ older)" "\<And>v. v \<in> set (vs @ older) \<Longrightarrow> v_key v = k" "newest vs = Some v"
  shows "newest (v # older) = newest (vs @ older)"
proof -
  have v: "v \<in> set vs" by (rule newest_in [OF assms(3)])
  obtain w where w: "newest (vs @ older) = Some w" using v by (cases "newest (vs @ older)") auto
  have mem: "w \<in> set (vs @ older)" by (rule newest_in [OF w])
  have max: "v_seq x \<le> v_seq w" if "x \<in> set (vs @ older)" for x by (rule newest_max [OF w that])
  have "w \<in> set (v # older)"
  proof (cases "w \<in> set vs")
    case True
    then have "v_seq w = v_seq v" using newest_max [OF assms(3) True] max [of v] v by simp
    then have "w = v" using consistentD [OF assms(1), of w v] assms(2) mem v by simp
    then show ?thesis by simp
  qed (use mem in auto)
  moreover have "consistent (v # older)" using assms(1) v by (auto simp: consistent_def)
  ultimately have "newest (v # older) = Some w"
    using newest_unique [of "v # older" k w] assms(2) v max by auto
  then show ?thesis using w by simp
qed

lemma kept_newest_reads:
  assumes view: "versions_at k ps = kept gc (set rts) (versions_at k vs)"
      "cover_seqs k rs = rt_seq ` {rt \<in> set rts. \<not> range_tombstone_is_obsolete rt gc \<and> covers rt k}"
    and older: "point_eligible gc \<or> range_eligible gc \<Longrightarrow> versions_at k older = []"
    and new: "newest (versions_at k vs) = Some v" and keep: "\<not> gc_drops gc (set rts) v"
    and con: "consistent (versions_at k (vs @ older))"
  shows "visible k (ps @ older) (rs @ older_tombstones) = visible k (vs @ older) (rts @ older_tombstones)"
proof -
  let ?vs = "versions_at k vs"
  have "versions_at k ps = [v]" using view(1) new keep by (simp add: kept_def)
  moreover have "v_key x = k" if "x \<in> set (?vs @ versions_at k older)" for x
    using that by (auto dest: versions_at_key)
  note newest_of_kept [OF con [unfolded versions_at_append] this new]
  ultimately have same_newest: "newest (versions_at k (ps @ older)) = newest (?vs @ versions_at k older)"
    by simp
  have same: "(\<exists>q \<in> cover_seqs k rs. v_seq w \<le> q) \<longleftrightarrow> (\<exists>q \<in> cover_seqs k rts. v_seq w \<le> q)"
    if w: "newest (?vs @ versions_at k older) = Some w" for w
  proof (cases "range_eligible gc")
    case True
    then have "w = v" using older w new by simp
    have "(\<exists>q \<in> cover_seqs k rts. v_seq v \<le> q) \<longleftrightarrow>
        (\<exists>rt \<in> set rts. \<not> range_tombstone_is_obsolete rt gc \<and> covers rt k \<and> v_seq v \<le> rt_seq rt)"
      using keep versions_at_key [OF newest_in [OF new]] unfolding cover_seqs_def gc_drops_def by blast
    then show ?thesis unfolding view(2) \<open>w = v\<close> by blast
  next
    case False
    then have "cover_seqs k rs = cover_seqs k rts"
      unfolding view(2) by (simp add: cover_seqs_def range_tombstone_is_obsolete_def)
    then show ?thesis by simp
  qed
  show ?thesis
  proof (rule visible_cong)
    show "newest (versions_at k (ps @ older)) =
        newest (versions_at k (vs @ older))" using same_newest by simp
    fix w assume "newest (versions_at k (vs @ older)) = Some w"
    then show "(\<exists>q \<in> cover_seqs k (rs @ older_tombstones). v_seq w \<le> q) \<longleftrightarrow>
        (\<exists>q \<in> cover_seqs k (rts @ older_tombstones). v_seq w \<le> q)"
      using same [of w] by (simp only: cover_seqs_append bex_Un versions_at_append)
  qed
qed

lemma kept_view_reads:
  assumes view: "versions_at k ps = kept gc (set rts) (versions_at k vs)"
      "cover_seqs k rs = rt_seq ` {rt \<in> set rts. \<not> range_tombstone_is_obsolete rt gc \<and> covers rt k}"
    and older: "point_eligible gc \<or> range_eligible gc \<Longrightarrow> versions_at k older = []"
    and con: "consistent (versions_at k (vs @ older))"
  shows "visible k (ps @ older) (rs @ older_tombstones) = visible k (vs @ older) (rts @ older_tombstones)"
proof -
  let ?vs = "versions_at k vs"
  show ?thesis
  proof (cases "newest ?vs")
    case None
    then have e: "?vs = []" "versions_at k ps = []" using view(1) by (simp_all add: kept_def)
    have c: "cover_seqs k rs = cover_seqs k rts" if "newest (versions_at k older) = Some w" for w
      using view(2) older that by (cases "versions_at k older = []")
        (auto simp: cover_seqs_def range_tombstone_is_obsolete_def)
    show ?thesis
      by (cases "newest (versions_at k older)") (simp_all add: visible_def e c del: newest_None)
  next
    case (Some v)
    have v: "v_key v = k" using newest_in [OF Some] by (simp add: versions_at_def)
    show ?thesis
    proof (cases "gc_drops gc (set rts) v")
      case True
      then have none: "versions_at k older = []"
        using older by (auto simp: gc_drops_def range_tombstone_is_obsolete_def)
      have "v_is_tombstone v \<or> (\<exists>q \<in> cover_seqs k (rts @ older_tombstones). v_seq v \<le> q)"
        using True v unfolding gc_drops_def cover_seqs_def by auto
      then have "visible k (vs @ older) (rts @ older_tombstones) = None"
        by (rule visible_deleted [rotated]) (simp add: Some none)
      then show ?thesis using view(1) Some True none by (simp add: visible_absent kept_def)
    next
      case False
      show ?thesis by (rule kept_newest_reads [OF view older Some False con])
    qed
  qed
qed




text \<open>C9. The outputs are disjoint, ascending and distinctly named: some key separates each output
  from every later one, points and tombstones alike; the points of all outputs ascend
  strictly; and the names are those of consecutive ordinals.\<close>

theorem compaction_outputs_ordered:
  assumes "collect_compaction_stream_inputs fac src tgt lvl rep t = Inr (cs, t1)"
    and "\<forall>f \<in> set src. versions_ascend fac f"
    and "write_partitioned_compaction_outputs fac cfg cs t2 = Inr (outs, t3)"
  shows "sorted_wrt separated (map fp_content outs) \<and> sorted_wrt (<) (map v_key (all_points outs)) \<and>
    map fp_name outs = map (\<lambda>i. partition_file_name cfg (of_nat i)) [0..<length outs] \<and>
    distinct (map fp_name outs)"
proof -
  from partitioned_run [OF assms] obtain gs where gs: "key_groups gs"
    and cl: "closed cfg (pc_tombstone_gc cfg) (starts_of (set (concat gs))) None outs"
    and pts: "all_points outs = kept_points (pc_tombstone_gc cfg) (starts_of (set (concat gs))) gs"
    and len: "length outs \<le> Suc u32_max" by blast
  have sub: "set (kept_points gc R hs) \<subseteq> set (event_versions (concat hs))" for gc R hs
    using kept_subset by (induction hs) (auto simp: kept_points_def, fastforce+)
  have "sorted_wrt (<) (map v_key (kept_points gc R gs))" for gc R using gs
  proof (induction gs)
    case (Cons g gs)
    note c = key_groups_Cons_iff [OF Cons.prems]
    have "kept gc R (event_versions g) = [] \<or> (\<exists>v \<in> set (event_versions g). kept gc R (event_versions g) = [v])"
      by (cases "newest (event_versions g)") (auto simp: kept_def dest: newest_in)
    moreover have "group_key g < v_key v" if "v \<in> set (kept_points gc R gs)" for v using c sub that by blast
    ultimately show ?case using Cons.IH c by (auto simp: kept_points_def)
  qed (simp add: kept_points_def)
  moreover have "inj_on (\<lambda>i. partition_file_name cfg (of_nat i)) {0..<length outs}"
  proof (rule inj_onI)
    fix i j assume ij: "i \<in> {0..<length outs}" "j \<in> {0..<length outs}"
      and "partition_file_name cfg (of_nat i) = partition_file_name cfg (of_nat j)"
    then have "unat (of_nat i :: u32) = unat (of_nat j :: u32)" by (simp add: partition_file_name_def)
    then show "i = j" using ij len by (simp add: unat_of_nat)
  qed
  ultimately show ?thesis using cl pts by (simp add: closed_def distinct_map)
qed


theorem compaction_outputs_ordered_witness:
  "sorted_wrt separated (map fp_content sample_outputs) \<and> sorted_wrt (<) (map v_key (all_points sample_outputs)) \<and>
   map fp_name sample_outputs = map (\<lambda>i. partition_file_name sample_config (of_nat i)) [0..<length sample_outputs] \<and>
   distinct (map fp_name sample_outputs)"
  by (rule compaction_outputs_ordered [OF sample_inputs sample_source_ascends sample_compaction])

end
