(* ===== verification/Compaction_Fragment.thy ===== *)
theory Compaction_Fragment
  imports Compaction_Retention
begin

text \<open>
  Fragmentation (\<^verbatim>\<open>write_fragmented_compaction_outputs\<close> of
  \<^verbatim>\<open>src/src/compaction/executor/partition.rs\<close>): one source is rewritten without selecting
  versions or collecting tombstones, cut at a planned key. The proofs reuse the invariant of
  partitioned runs under the policy that retains everything.
\<close>

section \<open>Groups\<close>

lemma fragment_more_group:
  "fragment_more fac key m t = Inr (es, m', t') \<Longrightarrow> merge_ok fac m \<Longrightarrow>
   (\<And>e. Inr e \<in># pending fac m \<Longrightarrow> key \<le> event_key e) \<Longrightarrow>
   pending fac m = mset (map Inr es) + pending fac m' \<and> merge_ok fac m' \<and>
   (\<forall>e \<in> set es. event_key e = key) \<and> (\<forall>e. Inr e \<in># pending fac m' \<longrightarrow> key < event_key e)"
proof (induction fac key m t arbitrary: es rule: fragment_more.induct)
  case (1 fac key m t)
  note run = "1.prems"(1) [unfolded fragment_more.simps [of fac key m t]]
  note ok = "1.prems"(2) and least = "1.prems"(3)
  show ?case
  proof (cases "case peek_event m of None \<Rightarrow> False | Some e \<Rightarrow> event_key e = key")
    case True
    then obtain e m1 t1 t2 es' where nxt: "next_event fac m t = Inr (Some e, m1, t1)"
      and t: "checkpoint t1 = Inr t2"
      and rest: "fragment_more fac key m1 t2 = Inr (es', m', t')"
      and es: "es = e # es'"
      using run by (auto split: option.splits)
    note nx = next_event_Some [OF ok nxt]
    have "event_key e = key" using True nx(3) by simp
    moreover have "key \<le> event_key x" if "Inr x \<in># pending fac m1" for x using least nx(1) that by simp
    ultimately show ?thesis
      using "1.IH" [OF True nxt refl refl refl t rest nx(2)] nx(1) by (auto simp: es)
  next
    case False
    then have out: "es = []" "m' = m" using run by auto
    then show ?thesis using past_group [OF ok False least] ok by simp
  qed
qed

inductive fragment_steps :: "partition_config \<Rightarrow> bytes \<Rightarrow> bool \<Rightarrow> partition_run \<Rightarrow> compaction_event list list \<Rightarrow>
    bool \<Rightarrow> partition_run \<Rightarrow> bool" for cfg split_key where
  no_fragments: "fragment_steps cfg split_key uncut s [] uncut s"
| one_fragment: "forced \<longleftrightarrow> uncut \<and> split_key \<le> group_key g \<Longrightarrow>
    (if forced then fragment_cut cfg split_key g s t else Inr (s, t)) = Inr (s1, t1) \<Longrightarrow>
    write_fragment_key_events cfg g forced final_group s1 t1 = Inr (s2, t2) \<Longrightarrow>
    fragment_steps cfg split_key (uncut \<and> \<not> forced) s2 gs uncut' s3 \<Longrightarrow>
    fragment_steps cfg split_key uncut s (g # gs) uncut' s3"

lemma fragment_loop_groups:
  "fragment_loop fac cfg split_key m uncut after s t = Inr (s', after', t') \<Longrightarrow> merge_ok fac m \<Longrightarrow>
   \<exists>gs uncut'. pending fac m = mset (map Inr (concat gs)) \<and> key_groups gs \<and>
     fragment_steps cfg split_key uncut s gs uncut' s' \<and>
     (after' \<longleftrightarrow> after \<or> (\<exists>g \<in> set gs. split_key < group_key g))"
proof (induction fac cfg split_key m uncut after s t rule: fragment_loop.induct)
  case (1 fac cfg split_key m uncut after s t)
  note run = "1.prems"(1) [unfolded fragment_loop.simps [of fac cfg split_key m uncut after s t]]
  note ok = "1.prems"(2)
  obtain item m1 t1 where nxt: "next_event fac m t = Inr (item, m1, t1)" using run by auto
  show ?case
  proof (cases item)
    case None
    then have "s' = s" "after' = after" "pending fac m = {#}" using run nxt next_event_None [OF ok] by auto
    then show ?thesis
      by (intro exI [of _ "[]"] exI [of _ uncut]) (simp add: key_groups_def fragment_steps.no_fragments)
  next
    case (Some e)
    let ?f = "uncut \<and> split_key \<le> event_key e"
    obtain t2 g m2 t3 s1 t4 s2 t5 where
      a: "checkpoint t1 = Inr t2"
      and c: "collect_fragment_key_events fac e m1 t2 = Inr (g, m2, t3)"
      and k: "(if ?f then fragment_cut cfg split_key g s t3 else Inr (s, t3)) = Inr (s1, t4)"
      and w: "write_fragment_key_events cfg g ?f (peek_event m2 = None) s1 t4 = Inr (s2, t5)"
      and rest: "fragment_loop fac cfg split_key m2 (uncut \<and> \<not> ?f) (after \<or> split_key < event_key e) s2 t5 =
        Inr (s', after', t')"
      using run nxt Some by (auto simp: Let_def)
    note nx = next_event_Some [OF ok nxt [unfolded Some]]
    obtain es t6 where es: "fragment_more fac (event_key e) m1 t6 = Inr (es, m2, t3)"
      and g: "g = e # es" using c by (auto simp: collect_fragment_key_events_def)
    have "event_key e \<le> event_key x" if "Inr x \<in># pending fac m1" for x using nx(4) nx(1) that by simp
    note grp = fragment_more_group [OF es nx(2) this]
    from "1.IH" [OF nxt refl refl Some a c refl refl refl refl k refl w refl rest] grp
    obtain gs uncut' where
      gs: "pending fac m2 = mset (map Inr (concat gs))" "key_groups gs"
        "fragment_steps cfg split_key (uncut \<and> \<not> ?f) s2 gs uncut' s'"
        "after' \<longleftrightarrow> (after \<or> split_key < event_key e) \<or> (\<exists>g \<in> set gs. split_key < group_key g)" by auto
    have "key_groups (g # gs)"
      by (rule key_groups_Cons [OF gs(2), where k = "event_key e"]) (use grp gs(1) in \<open>auto simp: g\<close>)
    moreover have "pending fac m = mset (map Inr (concat (g # gs)))" using nx(1) grp gs(1) by (simp add: g)
    moreover have "group_key g = event_key e" by (simp add: g group_key_def)
    ultimately show ?thesis
      using fragment_steps.one_fragment [OF _ k w gs(3)] gs(4) by (intro exI [of _ "g # gs"] exI [of _ uncut']) auto
  qed
qed

section \<open>The cut\<close>

text \<open>
  \<open>cut_at\<close>: the finished outputs divide into those below the split key and those from it on, and
  the current output starts at it or later.
\<close>

definition divided :: "bytes \<Rightarrow> finished_partition list \<Rightarrow> bool" where
  "divided split_key outs \<longleftrightarrow> (\<exists>below above. outs = below @ above \<and>
     (\<forall>fp \<in> set below. within None (Some split_key) (fp_content fp)) \<and>
     (\<forall>fp \<in> set above. within (Some split_key) None (fp_content fp)))"

definition cut_at :: "bytes \<Rightarrow> partition_run \<Rightarrow> bool" where
  "cut_at split_key s \<longleftrightarrow> divided split_key (ru_outputs s) \<and>
     (\<exists>l. pr_lower_bound (ru_roller s) = Some l \<and> split_key \<le> l)"

lemma divided_snoc:
  assumes "divided split_key outs" "within (Some split_key) None (fp_content fp)"
  shows "divided split_key (outs @ [fp])"
proof -
  obtain below above where "outs = below @ above"
    "\<forall>fp \<in> set below. within None (Some split_key) (fp_content fp)"
    "\<forall>fp \<in> set above. within (Some split_key) None (fp_content fp)"
    using assms(1) unfolding divided_def by blast
  then show ?thesis unfolding divided_def
    by (intro exI [of _ below] exI [of _ "above @ [fp]"]) (use assms(2) in auto)
qed

lemma within_raise: "within (Some l) upper c \<Longrightarrow> k \<le> l \<Longrightarrow> within (Some k) None c"
  by (auto simp: within_def at_or_above_def under_def)

lemma finished_divided:
  assumes run: "finish_current cfg (ru_roller s) (ru_tombstones s) upper t = Inr (finished, t')"
    and ro: "roller_inv (ru_roller s)" and cut: "cut_at split_key s"
    and pts: "\<And>v. v \<in> set (sw_points (pr_writer (ru_roller s))) \<Longrightarrow> under upper (v_key v)"
  shows "divided split_key (with_finished finished (ru_outputs s))"
proof (cases finished)
  case (Some fp)
  obtain l where l: "pr_lower_bound (ru_roller s) = Some l" "split_key \<le> l" using cut by (auto simp: cut_at_def)
  have "within (Some l) upper (fp_content fp)"
    using finish_current_exact [OF run ro] Some
    by (auto split: if_splits intro!: within_clipped simp flip: l(1)) (use ro pts in \<open>auto simp: roller_inv_def\<close>)
  then show ?thesis using divided_snoc within_raise l(2) cut Some by (simp add: with_finished_def cut_at_def)
qed (use cut in \<open>simp add: with_finished_def cut_at_def\<close>)

lemma roll_at_outputs:
  assumes "roll_at cfg b k s t = Inr (s', t')"
  obtains finished t1 t2 where "finish_current cfg (ru_roller s) (ru_tombstones s) (Some k) t1 = Inr (finished, t2)"
    "ru_outputs s' = with_finished finished (ru_outputs s)" "pr_lower_bound (ru_roller s') = Some k"
proof -
  obtain t1 finished t2 outs t3 where
    fin: "finish_current cfg (ru_roller s) (ru_tombstones s) (Some k) t1 = Inr (finished, t2)"
    and outs: "record_finished_partition finished (ru_outputs s) t2 = Inr (outs, t3)"
    and s': "ru_outputs s' = outs" "pr_lower_bound (ru_roller s') = Some k"
    using assms unfolding roll_at_def finish_for_roll_def start_next_partition_def Let_def by (auto split: if_splits)
  have "outs = with_finished finished (ru_outputs s)"
    using outs by (auto simp: record_finished_partition_def with_finished_def split: option.splits)
  then show ?thesis using that fin s' by blast
qed

lemma roll_at_cut:
  assumes "roll_at cfg b k s t = Inr (s', t')" "run_inv cfg gc R X pts s" "cut_at split_key s"
    and "precedes (pr_lower_bound (ru_roller s)) (Some k)"
    and "\<And>v. v \<in> set (sw_points (pr_writer (ru_roller s))) \<Longrightarrow> v_key v < k"
  shows "cut_at split_key s'"
proof -
  obtain finished t1 t2 where
    fin: "finish_current cfg (ru_roller s) (ru_tombstones s) (Some k) t1 = Inr (finished, t2)"
    and s': "ru_outputs s' = with_finished finished (ru_outputs s)" "pr_lower_bound (ru_roller s') = Some k"
    using roll_at_outputs [OF assms(1)] by blast
  have "roller_inv (ru_roller s)" using assms(2) by (simp add: run_inv_def)
  from finished_divided [OF fin this assms(3)] assms(3-5) s' show ?thesis
    by (auto simp: cut_at_def under_def precedes_def)
qed

lemma write_group_cut:
  assumes "write_group cfg gc starts sel s t = Inr (s', t')" "cut_at split_key s"
  shows "cut_at split_key s'"
proof -
  have "pr_lower_bound ro' = pr_lower_bound ro" if "write_all vs ro t = Inr (ro', t')" for vs ro ro' t t'
    using that by (induction vs arbitrary: ro t) (auto simp: write_selected_def)
  then show ?thesis using assms by (auto simp: write_group_def cut_at_def)
qed

lemma forced_cut:
  assumes run: "fragment_cut cfg split_key g s t = Inr (s1, t1)" and at: "run_at cfg gc before pts s"
    and sp: "splits_at k before g after" and pr: "paired (before \<union> set g \<union> after)" and g: "g \<noteq> []"
    and key: "split_key \<le> k" and below: "\<forall>e \<in> before. event_key e < split_key"
  shows "\<exists>X. run_inv cfg gc (starts_of before) X pts s1 \<and>
    X \<union> ends_of (set g) = ends_of before \<union> ends_of (set g) \<and>
    pr_lower_bound (ru_roller s1) = Some split_key \<and> sw_points (pr_writer (ru_roller s1)) = [] \<and>
    cut_at split_key s1"
proof -
  define s0 where "s0 = (if k = split_key then s\<lparr>ru_tombstones := advance_to_key g (ru_tombstones s)\<rparr> else s)"
  define X where "X = (if k = split_key then ends_of before \<union> ends_of (set g) else ends_of before)"
  have "event_key (hd g) = k" using sp g by (simp add: splits_at_def)
  then have roll: "roll_at cfg False split_key s0 t = Inr (s1, t1)" using run by (simp add: fragment_cut_def s0_def)
  have "run_inv cfg gc (starts_of before) (ends_of before) pts s" using at by (simp add: run_at_def)
  from this run_inv_advance [OF this, of g]
  have inv: "run_inv cfg gc (starts_of before) X pts s0" by (auto simp: X_def s0_def ends_of_def)
  have sp': "splits_at split_key before [] (set g \<union> after)" if "k \<noteq> split_key"
    using below sp key that by (auto simp: splits_at_def order_less_le_trans)
  have ends: "rt \<notin> X \<longleftrightarrow> split_key < rt_end rt" if "rt \<in> starts_of before" for rt
    using open_iff [OF sp pr that] open_iff [OF sp' _ that] pr by (auto simp: X_def Un_assoc)
  have "ru_roller s0 = ru_roller s" by (simp add: s0_def)
  then have b: "precedes (pr_lower_bound (ru_roller s0)) (Some split_key)"
      "\<And>v. v \<in> set (sw_points (pr_writer (ru_roller s0))) \<Longrightarrow> v_key v < split_key"
    using run_at_bounds [OF at, of split_key "[]" "{}"] below by (auto simp: splits_at_def)
  note post = roll_at_inv [OF roll inv b(1) b(2) ends]
  have "within None (Some split_key) (fp_content fp)" if "fp \<in> set (ru_outputs s1)" for fp
    using post that by (auto simp: run_inv_def closed_below_def closed_def)
  then have "divided split_key (ru_outputs s1)"
    unfolding divided_def by (intro exI [of _ "ru_outputs s1"] exI [of _ "[]"]) simp
  then have "cut_at split_key s1" using post by (simp add: cut_at_def)
  then show ?thesis using post by (intro exI [of _ X]) (auto simp: X_def)
qed

lemma write_fragment_at:
  assumes run: "write_fragment_key_events cfg g forced final_group s t = Inr (s', t')"
    and inv: "run_inv cfg retain_all (starts_of before) X pts s"
    and X: "X \<union> ends_of (set g) = ends_of before \<union> ends_of (set g)"
    and sp: "splits_at k before g after" and pr: "paired (before \<union> set g \<union> after)" and g: "g \<noteq> []"
    and b: "precedes (pr_lower_bound (ru_roller s)) (Some k)" "at_or_above (pr_lower_bound (ru_roller s)) k"
      "\<And>v. v \<in> set (sw_points (pr_writer (ru_roller s))) \<Longrightarrow> v_key v < k"
    and pts: "\<forall>v \<in> set pts. Version v \<in> before"
  shows "run_at cfg retain_all (before \<union> set g) (pts @ event_versions g) s' \<and> consistent (event_versions g) \<and>
    (cut_at split_key s \<longrightarrow> cut_at split_key s')"
proof -
  define s0 where "s0 = s\<lparr>ru_tombstones := advance_to_key g (ru_tombstones s)\<rparr>"
  obtain n roll s1 t1 where n: "select_newest_version g = Inr n"
    and s1: "(if roll then roll_at cfg False (event_key (hd g)) s0 t else Inr (s0, t)) = Inr (s1, t1)"
    and w: "write_group cfg retain_all (event_starts g) (event_versions g) s1 t1 = Inr (s', t')"
    using run unfolding write_fragment_key_events_def Let_def s0_def [symmetric] by auto
  have key: "event_key e = k" if "e \<in> set g" for e using sp that by (simp add: splits_at_def)
  have inv0: "run_inv cfg retain_all (starts_of before) (ends_of before \<union> ends_of (set g)) pts s0"
    using run_inv_advance [OF inv, of g] X by (simp add: s0_def ends_of_def)
  have s0: "ru_roller s0 = ru_roller s" "cut_at split_key s \<Longrightarrow> cut_at split_key s0"
    by (simp_all add: s0_def cut_at_def)
  have "run_inv cfg retain_all (starts_of before) (ends_of before \<union> ends_of (set g)) pts s1 \<and>
      at_or_above (pr_lower_bound (ru_roller s1)) k \<and> (cut_at split_key s \<longrightarrow> cut_at split_key s1)"
  proof (cases roll)
    case True
    then have roll: "roll_at cfg False k s0 t = Inr (s1, t1)" using s1 key [of "hd g"] g by simp
    note post = roll_at_inv [OF roll inv0] roll_at_cut [OF roll inv0]
    show ?thesis using post b s0 open_iff [OF sp pr] by (auto simp: at_or_above_def)
  qed (use s1 inv0 b(2) s0 in auto)
  then show ?thesis
    using write_group_at [OF w _ sp g _ pts] select_newest_version_exact [OF n key] write_group_cut [OF w] by auto
qed

lemma fragment_step_at:
  assumes forced: "forced \<longleftrightarrow> uncut \<and> split_key \<le> k"
    and cut: "(if forced then fragment_cut cfg split_key g s t else Inr (s, t)) = Inr (s1, t1)"
    and run: "write_fragment_key_events cfg g forced final_group s1 t1 = Inr (s2, t2)"
    and at: "run_at cfg retain_all before pts s"
    and sp: "splits_at k before g after" and pr: "paired (before \<union> set g \<union> after)" and g: "g \<noteq> []"
    and state: "if uncut then \<forall>e \<in> before. event_key e < split_key else cut_at split_key s"
  shows "run_at cfg retain_all (before \<union> set g) (pts @ event_versions g) s2 \<and> consistent (event_versions g) \<and>
    (if uncut \<and> \<not> forced then \<forall>e \<in> before \<union> set g. event_key e < split_key else cut_at split_key s2)"
proof -
  have pts: "\<forall>v \<in> set pts. Version v \<in> before" using at by (simp add: run_at_def)
  show ?thesis
  proof (cases forced)
    case True
    then have below: "\<forall>e \<in> before. event_key e < split_key" and sk: "split_key \<le> k"
      and cut': "fragment_cut cfg split_key g s t = Inr (s1, t1)" using forced state cut by auto
    obtain X where X: "run_inv cfg retain_all (starts_of before) X pts s1"
      "X \<union> ends_of (set g) = ends_of before \<union> ends_of (set g)"
      "pr_lower_bound (ru_roller s1) = Some split_key" "sw_points (pr_writer (ru_roller s1)) = []"
      "cut_at split_key s1"
      using forced_cut [OF cut' at sp pr g sk below] by blast
    from write_fragment_at [OF run X(1,2) sp pr g _ _ _ pts, of split_key] X(3-5) sk True show ?thesis
      by (simp add: precedes_def at_or_above_def)
  next
    case False
    then have s1: "s1 = s" using cut by simp
    have inv: "run_inv cfg retain_all (starts_of before) (ends_of before) pts s" using at by (simp add: run_at_def)
    from write_fragment_at [OF run [unfolded s1] inv refl sp pr g run_at_bounds [OF at sp] pts, of split_key]
    show ?thesis using False state forced sp by (auto simp: splits_at_def split: if_splits)
  qed
qed

lemma fragment_steps_at:
  "fragment_steps cfg split_key uncut s gs uncut' s' \<Longrightarrow> key_groups (before @ gs) \<Longrightarrow>
   paired (set (concat (before @ gs))) \<Longrightarrow> run_at cfg retain_all (set (concat before)) pts s \<Longrightarrow>
   (if uncut then \<forall>e \<in> set (concat before). event_key e < split_key else cut_at split_key s) \<Longrightarrow>
   run_at cfg retain_all (set (concat (before @ gs))) (pts @ event_versions (concat gs)) s' \<and>
   (\<forall>g \<in> set gs. consistent (event_versions g)) \<and>
   (if uncut' then \<forall>e \<in> set (concat (before @ gs)). event_key e < split_key else cut_at split_key s')"
proof (induction uncut s gs uncut' s' arbitrary: before pts rule: fragment_steps.induct)
  case (one_fragment forced uncut g s t s1 t1 final_group s2 t2 gs uncut' s3)
  let ?E = "set (concat (before @ g # gs))"
  note sp = key_groups_splits [OF one_fragment.prems(1)]
  have E: "set (concat before) \<union> set g \<union> set (concat gs) = ?E" "set (concat before) \<union> set g = set (concat (before @ [g]))"
    by auto
  from fragment_step_at [OF one_fragment.hyps(1-3) one_fragment.prems(3) sp(1) _ sp(2) one_fragment.prems(4)]
    one_fragment.prems(2)
  have step: "run_at cfg retain_all (set (concat (before @ [g]))) (pts @ event_versions g) s2"
      "consistent (event_versions g)"
      "if uncut \<and> \<not> forced then \<forall>e \<in> set (concat (before @ [g])). event_key e < split_key else cut_at split_key s2"
    unfolding E(1) E(2) [symmetric] by blast+
  have "key_groups ((before @ [g]) @ gs)" "paired (set (concat ((before @ [g]) @ gs)))"
    using one_fragment.prems by simp_all
  from one_fragment.IH [OF this step(1,3)] step(2) show ?case by simp
qed simp

section \<open>History\<close>

lemma fragmented_run:
  assumes cs: "collect_compaction_stream_inputs fac src tgt lvl rep t = Inr (cs, t1)"
    and asc: "\<forall>f \<in> set src. versions_ascend fac f"
    and run: "write_fragmented_compaction_outputs fac cfg (Fragment split_key) cs t2 = Inr (outs, t3)"
  obtains gs where "key_groups gs" "mset (concat gs) = input_events fac (src @ tgt)"
    "closed cfg retain_all (starts_of (set (concat gs))) None outs"
    "all_points outs = event_versions (concat gs)" "divided split_key outs"
    "\<exists>e \<in> set (concat gs). event_key e < split_key" "\<exists>e \<in> set (concat gs). split_key < event_key e"
    "\<forall>rt \<in> starts_of (set (concat gs)). rt_start rt < rt_end rt"
proof -
  obtain u1 m u2 first u3 s u4 fin u5 u6 where
    m: "merge_new fac cs u1 = Inr (m, u2)"
    and first: "peek_event m = Some first" "event_key first < split_key"
    and loop: "fragment_loop fac cfg split_key m True False new_run u3 = Inr (s, True, u4)"
    and fin: "finish_current cfg (ru_roller s) (ru_tombstones s) None u4 = Inr (fin, u5)"
    and outs: "record_finished_partition fin (ru_outputs s) u5 = Inr (outs, u6)"
    using run unfolding write_fragmented_compaction_outputs_def by (auto split: option.splits if_splits)
  note ev = run_events [OF cs asc, of "[]" "[]" u1 m u2, simplified, OF m]
  obtain gs uncut' where gs: "pending fac m = mset (map Inr (concat gs))" "key_groups gs"
    "fragment_steps cfg split_key True new_run gs uncut' s" "\<exists>g \<in> set gs. split_key < group_key g"
    using fragment_loop_groups [OF loop ev(1)] by auto
  note es = ev(2) [OF gs(1) [unfolded mset_map]]
  have pr: "paired (set (concat gs))" using input_events_paired(1) [of "concat gs" fac "src @ tgt" "[]"] es by simp
  from fragment_steps_at [OF gs(3), of "[]" "[]"] gs(2) pr run_at_new
  have at: "run_at cfg retain_all (set (concat gs)) (event_versions (concat gs)) s"
    and cut: "if uncut' then \<forall>e \<in> set (concat gs). event_key e < split_key else cut_at split_key s" by auto
  have inv: "run_inv cfg retain_all (starts_of (set (concat gs))) (ends_of (set (concat gs))) (event_versions (concat gs)) s"
    using at by (simp add: run_at_def)
  obtain g where g: "g \<in> set gs" "split_key < group_key g" using gs(4) by blast
  have "hd g \<in> set (concat gs)" using g(1) gs(2) by (auto simp: key_groups_def intro!: bexI [of _ g])
  then have last: "\<exists>e \<in> set (concat gs). split_key < event_key e" using g(2) unfolding group_key_def by blast
  then have c: "cut_at split_key s" using cut by (metis order_less_asym)
  have o: "outs = with_finished fin (ru_outputs s)"
    using outs by (auto simp: record_finished_partition_def with_finished_def split: option.splits)
  have "closed cfg retain_all (starts_of (set (concat gs))) None outs \<and> all_points outs = event_versions (concat gs)"
    unfolding o by (rule finish_current_closed [OF fin inv]) (auto simp: precedes_def under_def split: option.splits)
  moreover have "divided split_key outs" unfolding o
    by (rule finished_divided [OF fin _ c]) (use inv in \<open>auto simp: run_inv_def under_def\<close>)
  moreover have "first \<in> set (concat gs)" using peek_least(1) [OF ev(1) first(1)] gs(1) by auto
  moreover have "\<forall>rt \<in> starts_of (set (concat gs)). rt_start rt < rt_end rt"
    using inv by (simp add: run_inv_def tracker_inv_def)
  ultimately show ?thesis using that gs(2) es first(2) last by blast
qed

lemma key_groups_sorted: "key_groups gs \<Longrightarrow> sorted (map event_key (concat gs))"
proof (induction gs)
  case (Cons g gs)
  have "splits_at (group_key g) {} g (set (concat gs))" using key_groups_splits [of "[]" g gs] Cons.prems by simp
  then have g: "\<forall>e \<in> set g. event_key e = group_key g" "\<forall>e \<in> set (concat gs). group_key g < event_key e"
    by (auto simp: splits_at_def)
  then have "map event_key g = replicate (length g) (group_key g)" by (simp add: map_replicate_const [symmetric])
  then have "sorted (map event_key g)" by simp
  moreover have "key_groups gs" using Cons.prems by (simp add: key_groups_def)
  ultimately show ?case using Cons.IH g by (auto simp: sorted_append less_imp_le)
qed simp

text \<open>A table of the outputs holds something of a key that a version has or a tombstone covers.\<close>

definition touches :: "bytes \<Rightarrow> sst_content \<Rightarrow> bool" where
  "touches x c \<longleftrightarrow> (\<exists>v \<in> set (sw_points c). v_key v = x) \<or> (\<exists>rt \<in> set (sw_ranges c). covers rt x)"

lemma touches_within: "touches x c \<Longrightarrow> within lower upper c \<Longrightarrow> at_or_above lower x \<and> under upper x"
  by (cases lower; cases upper)
    (fastforce simp: touches_def within_def covers_def at_or_above_def under_def
      intro: order_trans order_less_le_trans)+

lemma output_touches:
  assumes "closed cfg retain_all (starts_of E) None outs" "all_points outs = pts"
    and "(\<exists>v \<in> set pts. v_key v = x) \<or> (\<exists>rt \<in> starts_of E. covers rt x)"
  shows "\<exists>fp \<in> set outs. touches x (fp_content fp)"
  using assms(3)
proof
  assume "\<exists>v \<in> set pts. v_key v = x"
  then show ?thesis using assms(2) unfolding all_points_def touches_def by auto blast
next
  assume "\<exists>rt \<in> starts_of E. covers rt x"
  moreover have "cover_seqs x (all_ranges outs) = rt_seq ` {rt \<in> starts_of E. covers rt x}"
    using assms(1) by (simp add: closed_def under_def covered_def live_tombstones_def
      range_tombstone_is_obsolete_def retain_all_def)
  ultimately have "cover_seqs x (all_ranges outs) \<noteq> {}" by auto
  then show ?thesis by (auto simp: cover_seqs_def all_ranges_def touches_def)
qed

lemma event_touches:
  assumes "mset es = input_events fac fs" "\<forall>rt \<in> starts_of (set es). rt_start rt < rt_end rt" "e \<in> set es"
  shows "\<exists>x. ((\<exists>v \<in> set (event_versions es). v_key v = x) \<or> (\<exists>rt \<in> starts_of (set es). covers rt x)) \<and>
    (event_key e < k \<longrightarrow> x < k) \<and> (k < event_key e \<longrightarrow> k \<le> x)"
proof -
  have mem: "e \<in> set es \<longleftrightarrow> e \<in># input_events fac fs" for e using assms(1) by (metis set_mset_mset)
  have "RangeEnd rt \<in> set es \<Longrightarrow> RangeStart rt \<in> set es" "Boundary b \<notin> set es" for rt b
    unfolding mem input_events_def by auto
  then consider v where "e = Version v" | rt where "e = RangeStart rt" | rt where "e = RangeEnd rt" "RangeStart rt \<in> set es"
    using assms(3) by (cases e) auto
  then show ?thesis
  proof cases
    case (1 v)
    then show ?thesis using assms(3) by (intro exI [of _ "v_key v"]) auto
  next
    case (2 rt)
    then show ?thesis using assms(2,3) by (intro exI [of _ "rt_start rt"]) (auto simp: starts_of_def covers_def)
  next
    case (3 rt)
    then have rt: "rt \<in> starts_of (set es)" "rt_start rt < rt_end rt" using assms(2) by (auto simp: starts_of_def)
    show ?thesis
    proof (cases "k < rt_end rt")
      case True
      then show ?thesis using 3 rt by (intro exI [of _ "max k (rt_start rt)"]) (auto simp: covers_def)
    next
      case False
      then show ?thesis using 3 rt by (intro exI [of _ "rt_start rt"]) (auto simp: covers_def)
    qed
  qed
qed

text \<open>C16. Fragmentation keeps the whole history and makes progress: the outputs hold every input
  version, in key order, and cover every key with exactly the input tombstones; and they
  divide at the planned key into tables below it and tables from it on, at least one of each.\<close>

theorem fragmentation_keeps_history:
  assumes "collect_compaction_stream_inputs fac src tgt lvl rep t = Inr (cs, t1)"
    and "\<forall>f \<in> set src. versions_ascend fac f"
    and "write_fragmented_compaction_outputs fac cfg (Fragment split_key) cs t2 = Inr (outs, t3)"
  shows "mset (all_points outs) = mset (input_versions fac (src @ tgt)) \<and> sorted (map v_key (all_points outs)) \<and>
    cover_seqs k (all_ranges outs) = cover_seqs k (input_tombstones fac (src @ tgt)) \<and>
    (\<exists>below above. outs = below @ above \<and> below \<noteq> [] \<and> above \<noteq> [] \<and>
      list_all (\<lambda>fp. within None (Some split_key) (fp_content fp)) below \<and>
      list_all (\<lambda>fp. within (Some split_key) None (fp_content fp)) above)"
proof -
  obtain gs where gs: "key_groups gs" "mset (concat gs) = input_events fac (src @ tgt)"
    and cl: "closed cfg retain_all (starts_of (set (concat gs))) None outs"
    and pts: "all_points outs = event_versions (concat gs)" and div: "divided split_key outs"
    and sides: "\<exists>e \<in> set (concat gs). event_key e < split_key" "\<exists>e \<in> set (concat gs). split_key < event_key e"
    and rts: "\<forall>rt \<in> starts_of (set (concat gs)). rt_start rt < rt_end rt"
    using fragmented_run [OF assms] by blast
  note ev = input_events_paired [of "concat gs" fac "src @ tgt" "[]", simplified, OF gs(2)]
  obtain below above where o: "outs = below @ above"
    "\<forall>fp \<in> set below. within None (Some split_key) (fp_content fp)"
    "\<forall>fp \<in> set above. within (Some split_key) None (fp_content fp)" using div unfolding divided_def by blast
  have touched: "\<exists>fp \<in> set outs. touches x (fp_content fp)"
    if "(\<exists>v \<in> set (event_versions (concat gs)). v_key v = x) \<or> (\<exists>rt \<in> starts_of (set (concat gs)). covers rt x)" for x
    using output_touches [OF cl pts that] .
  obtain x fp where "x < split_key" "fp \<in> set outs" "touches x (fp_content fp)"
    using sides(1) event_touches [OF gs(2) rts] touched by metis
  then have "below \<noteq> []" using o touches_within [of x "fp_content fp" "Some split_key" None] by (auto simp: at_or_above_def)
  moreover obtain y fq where "split_key \<le> y" "fq \<in> set outs" "touches y (fp_content fq)"
    using sides(2) event_touches [OF gs(2) rts] touched by metis
  then have "above \<noteq> []" using o touches_within [of y "fp_content fq" None "Some split_key"] by (auto simp: under_def)
  moreover have "cover_seqs k (all_ranges outs) = cover_seqs k (input_tombstones fac (src @ tgt))"
    using cl ev(2) by (simp add: closed_def under_def covered_def live_tombstones_def input_tombstones_def
      range_tombstone_is_obsolete_def retain_all_def cover_seqs_def)
  ultimately show ?thesis
    using o pts ev(3) sorted_event_versions [OF key_groups_sorted [OF gs(1)]]
    by (auto simp: input_versions_def list_all_iff)
qed

definition sample_source :: "event_cursor list" where
  "sample_source = (case collect_compaction_stream_inputs sample_tables [''new''] [] 1 True [] of
     Inr (cs, _) \<Rightarrow> cs | Inl _ \<Rightarrow> [])"

definition sample_fragments :: "finished_partition list" where
  "sample_fragments = map (\<lambda>(i, v, lo, hi). \<lparr>fp_name = partition_file_name sample_config i,
     fp_content = \<lparr>sw_points = [v], sw_ranges = [\<lparr>rt_start = lo, rt_end = hi, rt_seq = 5\<rparr>]\<rparr>\<rparr>)
     [(0, sample_version [1] 7, [1], [2]), (1, sample_version [2] 3, [2], [3])]"

lemma sample_fragment_inputs:
  "collect_compaction_stream_inputs sample_tables [''new''] [] 1 True [] = Inr (sample_source, [])"
  by code_simp

lemma sample_fragmentation:
  "write_fragmented_compaction_outputs sample_tables sample_config (Fragment [2]) sample_source [] =
    Inr (sample_fragments, [])"
  by code_simp

theorem fragmentation_keeps_history_witness:
  "mset (all_points sample_fragments) = mset (input_versions sample_tables ([''new''] @ [])) \<and>
   cover_seqs [2] (all_ranges sample_fragments) = cover_seqs [2] (input_tombstones sample_tables ([''new''] @ [])) \<and>
   (\<exists>below above. sample_fragments = below @ above \<and> below \<noteq> [] \<and> above \<noteq> [])"
  using fragmentation_keeps_history [OF sample_fragment_inputs sample_source_ascends sample_fragmentation, of "[2]"]
  by blast

end
