(* ===== verification/Compaction_Progress.thy ===== *)
theory Compaction_Progress
  imports Compaction_Retention
begin

text \<open>
  Compaction runs to completion: when nothing interrupts it and no staging limit is set, a run
  over readable, well-formed inputs returns its outputs. The empty tape is the run in which
  every reservation is granted, no cancellation arrives and every file operation succeeds.
\<close>

section \<open>Cursors\<close>

lemma sst_cursor_goes: "clean (sst_items c) \<Longrightarrow> \<exists>item c'. sst_cursor_next c = Inr (item, c')"
proof (cases "sc_versions c")
  case (Cons x vs)
  assume "clean (sst_items c)"
  then obtain v where "x = Inr v" using Cons by (cases x) (auto simp: sst_items_def)
  then show ?thesis using Cons by (cases "sc_range_events c") (auto simp: sst_cursor_next_def next_version_def)
qed (cases "sc_range_events c", auto simp: sst_cursor_next_def)

lemma sst_open_goes: "clean (file_items fac f) \<Longrightarrow> \<exists>c. sst_cursor_open fac f [] = Inr (c, [])"
  by (auto simp: file_items_def sst_cursor_open_def try_with_def split: sum.splits)

lemma clean_check_orderD: "clean (check_order l (xs @ ys)) \<Longrightarrow> clean xs \<and> clean ys"
proof -
  assume c: "clean (check_order l (xs @ ys))"
  then have "clean (xs @ ys)" using clean_check_order by metis
  then show ?thesis by (simp add: clean_def)
qed

lemma chained_goes:
  "clean (chained_items fac c) \<Longrightarrow> t = [] \<Longrightarrow> \<exists>item c'. chained_next fac c t = Inr (item, c', [])"
proof (induction fac c t rule: chained_next.induct)
  case (1 fac c t)
  note cl = clean_check_orderD [OF "1.prems"(1) [unfolded chained_items_def]]
  obtain found where found: "current_next c = Inr found"
    using cl sst_cursor_goes by (fastforce simp: current_next_def split: option.splits)
  show ?case
  proof (cases found)
    case (Some p)
    obtain e cur' where p: "p = (e, cur')" by (cases p)
    obtain cur where cur: "cc_current c = Some cur" "sst_cursor_next cur = Inr (Some e, cur')"
      using found Some p by (auto simp: current_next_def split: option.splits)
    have "\<not> goes_back (cc_last_key c) e"
      using "1.prems"(1) cur(1) sst_cursor_next_items [OF cur(2)] by (auto simp: chained_items_def split: if_splits)
    then show ?thesis using found Some p "1.prems"(2)
      by (simp add: chained_next.simps [of fac c] chained_accept_def)
  next
    case None
    then have cur: "(case cc_current c of None \<Rightarrow> [] | Some cur \<Rightarrow> sst_items cur) = []"
      using found by (auto simp: current_next_def dest: sst_cursor_next_items split: option.splits)
    show ?thesis
    proof (cases "cc_files c")
      case Nil
      then show ?thesis using found None "1.prems"(2) by (simp add: chained_next.simps [of fac c])
    next
      case (Cons f fs)
      then obtain cur' where o: "sst_cursor_open fac f [] = Inr (cur', [])"
        using cl sst_open_goes [of fac f] by (auto simp: clean_concat)
      have same: "chained_items fac (c\<lparr>cc_files := fs, cc_current := Some cur'\<rparr>) = chained_items fac c"
        using cur Cons sst_cursor_open_items [OF o] by (simp add: chained_items_def)
      have t: "checkpoint t = Inr []" "t = []" using "1.prems"(2) by simp_all
      show ?thesis using "1.IH" [OF found None Cons t(1) o refl] "1.prems"(1) same found None Cons o t(2)
        by (simp add: chained_next.simps [of fac c])
    qed
  qed
qed

lemma cursor_goes: "clean (cursor_items fac c) \<Longrightarrow> \<exists>item c'. cursor_next fac c [] = Inr (item, c', [])"
proof (cases c)
  case (SstCursor s)
  assume "clean (cursor_items fac c)"
  then show ?thesis using SstCursor sst_cursor_goes [of s] by auto
next
  case (ChainedCursor s)
  assume "clean (cursor_items fac c)"
  then show ?thesis using ChainedCursor chained_goes [of fac s] by auto
next
  case (BoundaryCursor ks)
  then show ?thesis by (cases ks) auto
qed

section \<open>The merge\<close>

lemma merge_admit_goes:
  "\<forall>c \<in> set cs. clean (cursor_items fac c) \<Longrightarrow> \<exists>inputs heap. merge_admit fac i cs [] = Inr (inputs, heap, [])"
proof (induction cs arbitrary: i)
  case (Cons c cs)
  then obtain item c' inputs heap where "cursor_next fac c [] = Inr (item, c', [])"
    "merge_admit fac (Suc i) cs [] = Inr (inputs, heap, [])"
    using cursor_goes [of fac c] by fastforce
  then show ?case by (cases item) (auto simp: merge_head_def)
qed simp

lemma merge_new_goes:
  "\<forall>c \<in> set cs. clean (cursor_items fac c) \<Longrightarrow> \<exists>m. merge_new fac cs [] = Inr (m, [])"
  using merge_admit_goes [of cs fac 0] by (auto simp: merge_new_def)

definition readable :: "sst_factory \<Rightarrow> event_merge \<Rightarrow> bool" where
  "readable fac m \<longleftrightarrow> merge_ok fac m \<and> (\<forall>x \<in># pending fac m. is_ok x)"

lemma next_event_goes:
  assumes "readable fac m"
  shows "\<exists>item m'. next_event fac m [] = Inr (item, m', []) \<and> readable fac m'"
proof -
  have "\<exists>item m'. next_event fac m [] = Inr (item, m', [])"
  proof (cases "em_heap m = []")
    case False
    obtain e i where ei: "arg_min_list heap_rank (em_heap m) = (e, i)" by fastforce
    have i: "i < length (em_inputs m)"
      using assms heap_least(1) [OF False ei] by (auto simp: readable_def merge_ok_def)
    have "clean (cursor_items fac (em_inputs m ! i))"
      using assms i by (fastforce simp: readable_def pending_def clean_def list_all_iff)
    then obtain item c' where "cursor_next fac (em_inputs m ! i) [] = Inr (item, c', [])" using cursor_goes by blast
    then show ?thesis using False ei i by (cases item) (auto simp: next_event_def merge_advance_def)
  qed (simp add: next_event_def)
  then obtain item m' where n: "next_event fac m [] = Inr (item, m', [])" by blast
  have ok: "merge_ok fac m" using assms by (simp add: readable_def)
  have "readable fac m'"
  proof (cases item)
    case None
    then have "m' = m" using n next_event_None(2) [OF ok] by blast
    then show ?thesis using assms by simp
  next
    case (Some e)
    then show ?thesis using n next_event_Some(1,2) [OF ok, of "[]" e] assms by (auto simp: readable_def)
  qed
  then show ?thesis using n by blast
qed

lemma abort_every_goes [simp]: "abort_every_1024 n [] = Inr []"
  by (simp add: abort_every_1024_def)

lemma collect_more_goes:
  "readable fac m \<Longrightarrow> t = [] \<Longrightarrow>
   \<exists>es m' seen'. collect_more fac key m seen t = Inr (es, m', seen', []) \<and> readable fac m'"
proof (induction fac key m seen t rule: collect_more.induct)
  case (1 fac key m seen t)
  obtain item m1 where n: "next_event fac m [] = Inr (item, m1, [])" "readable fac m1"
    using next_event_goes [OF "1.prems"(1)] by blast
  show ?case
  proof (cases "case peek_event m of None \<Rightarrow> False | Some e \<Rightarrow> event_key e = key")
    case True
    have "item \<noteq> None"
    proof
      assume "item = None"
      moreover have ok: "merge_ok fac m" using "1.prems"(1) by (simp add: readable_def)
      ultimately have "pending fac m = {#}" using n(1) next_event_None(1) by blast
      then show False using True peek_least(1) [OF ok] by (auto split: option.splits)
    qed
    then obtain e where e: "item = Some e" by blast
    have t: "t = []" "checkpoint [] = Inr []" "abort_every_1024 (saturating_add_usize seen 1) [] = Inr []"
      using "1.prems"(2) by simp_all
    have n': "next_event fac m t = Inr (item, m1, [])" using n(1) t(1) by simp
    from "1.IH" [OF True n' refl refl e t(2,3) n(2) refl] True n(1) e t(1)
    show ?thesis by (auto simp: collect_more.simps [of fac key m])
  next
    case False
    then show ?thesis using "1.prems" by (simp add: collect_more.simps [of fac key m])
  qed
qed

section \<open>One group\<close>

lemma agree_goes:
  "consistent vs \<Longrightarrow> \<forall>v \<in> set vs. v_key v = k \<Longrightarrow> agree_at_sequences vs = Inr ()"
proof (induction vs)
  case (Cons newer vs)
  have "set vs \<subseteq> set (newer # vs)" by auto
  then have "consistent vs" using Cons.prems(1) unfolding consistent_def by blast
  then have ih: "agree_at_sequences vs = Inr ()" using Cons.IH Cons.prems(2) by simp
  show ?case
  proof (cases vs)
    case (Cons older rest)
    have "newer = older" if "v_seq newer = v_seq older"
      by (rule consistentD [OF Cons.prems(1)]) (use that Cons Cons.prems(2) in auto)
    then show ?thesis using ih Cons by (auto simp: resolve_same_sequence_def)
  qed simp
qed simp

lemma select_newest_goes:
  assumes "consistent (event_versions g)" "\<forall>e \<in> set g. event_key e = k"
  shows "\<exists>n. select_newest_version g = Inr n"
proof -
  let ?vs = "sort_key (\<lambda>v. - 1 - v_seq v) (event_versions g)"
  have "consistent ?vs" using assms(1) by (simp add: consistent_def)
  moreover have "\<forall>v \<in> set ?vs. v_key v = k" using assms(2) by fastforce
  ultimately show ?thesis using agree_goes [of ?vs k] by (simp add: select_newest_version_def)
qed

lemma pt_insert_goes: "\<exists>p'. pt_insert sz None rt p [] = Inr (p', [])"
  by (simp add: pt_insert_def)

lemma pt_insert_all_goes: "\<exists>p'. pt_insert_all sz None rts p [] = Inr (p', [])"
proof (induction rts arbitrary: p)
  case (Cons rt rts)
  obtain p' where "pt_insert sz None rt p [] = Inr (p', [])" using pt_insert_goes by blast
  then show ?case using Cons.IH by simp
qed simp

lemma observe_starts_goes:
  "\<forall>rt \<in> set rts. rt_start rt < rt_end rt \<Longrightarrow> \<exists>r'. observe_starts sz gc None rts r [] = Inr (r', [])"
proof (induction rts arbitrary: r)
  case (Cons rt rts)
  obtain p where p: "pt_insert sz None rt (rk_partition r) [] = Inr (p, [])" using pt_insert_goes by blast
  have "\<exists>r'. observe_start sz gc None rt r [] = Inr (r', [])"
    using Cons.prems p by (auto simp: observe_start_def at_insert_def not_le)
  then show ?case using Cons by auto
qed simp

lemma add_ranges_goes: "\<exists>w' n'. add_partition_range_tombstones i n lower upper rts w [] = Inr (w', n', [])"
  by (induction rts arbitrary: i n w) (auto simp: add_range_tombstone_def)

lemma finish_current_goes:
  assumes "pc_output_size_limit cfg = None"
  shows "\<exists>finished. finish_current cfg ro r upper [] = Inr (finished, [])"
proof -
  obtain w n where "add_partition_range_tombstones 0 0 (pr_lower_bound ro) upper
      (map snd (pt_entries (rk_partition r))) (pr_writer ro) [] = Inr (w, n, [])"
    using add_ranges_goes by blast
  then show ?thesis using assms
    by (simp add: finish_current_def persist_partition_def ensure_output_fits_local_staging_def)
qed

lemma roll_at_goes:
  assumes "pc_output_size_limit cfg = None" "unat (pr_ordinal (ru_roller s)) < u32_max"
  shows "\<exists>s'. roll_at cfg b k s [] = Inr (s', []) \<and>
    unat (pr_ordinal (ru_roller s')) \<le> Suc (unat (pr_ordinal (ru_roller s)))"
proof -
  obtain finished where f: "finish_current cfg (ru_roller s) (ru_tombstones s) (Some k) [] = Inr (finished, [])"
    using finish_current_goes [OF assms(1)] by blast
  obtain outs where o: "record_finished_partition finished (ru_outputs s) [] = Inr (outs, [])"
    by (cases finished) (auto simp: record_finished_partition_def)
  obtain p where c: "pt_insert_all (pc_sizes cfg) None (map snd (at_live (rk_active (ru_tombstones s))))
      \<lparr>pt_entries = [], pt_encoded_bytes = 0, pt_pending_bytes = 0\<rparr> [] = Inr (p, [])"
    using pt_insert_all_goes by blast
  have "unat (pr_ordinal (ru_roller s) + 1) \<le> Suc (unat (pr_ordinal (ru_roller s)))"
    using assms(2) by (simp add: unat_word_ariths)
  then show ?thesis using assms f o c
    by (simp add: roll_at_def finish_for_roll_def start_next_partition_def next_ordinal_def Let_def
        carry_live_tombstones_def pending_tombstone_bound_def)
qed

lemma write_all_goes:
  "\<exists>ro'. write_all vs ro [] = Inr (ro', []) \<and> pr_ordinal ro' = pr_ordinal ro"
proof (induction vs arbitrary: ro)
  case (Cons v vs)
  obtain ro1 where "write_selected v ro [] = Inr (ro1, [])" "pr_ordinal ro1 = pr_ordinal ro"
    by (simp add: write_selected_def add_sorted_with_meta_def)
  then show ?case using Cons.IH [of ro1] by auto
qed simp

lemma write_group_goes:
  assumes "pc_output_size_limit cfg = None" "\<forall>rt \<in> set starts. rt_start rt < rt_end rt"
  shows "\<exists>s'. write_group cfg gc starts sel s [] = Inr (s', []) \<and>
    pr_ordinal (ru_roller s') = pr_ordinal (ru_roller s)"
proof -
  obtain r where "observe_starts (pc_sizes cfg) gc None starts (ru_tombstones s) [] = Inr (r, [])"
    using observe_starts_goes [OF assms(2)] by blast
  moreover obtain ro where "write_all sel (ru_roller s) [] = Inr (ro, [])" "pr_ordinal ro = pr_ordinal (ru_roller s)"
    using write_all_goes by blast
  ultimately show ?thesis using assms(1)
    by (simp add: write_group_def pending_tombstone_bound_def ensure_current_fits_def)
qed

lemma write_key_group_goes:
  assumes lim: "pc_output_size_limit cfg = None" and con: "consistent (event_versions g)"
    and key: "\<forall>e \<in> set g. event_key e = k" and starts: "\<forall>rt \<in> set (event_starts g). rt_start rt < rt_end rt"
    and ord: "unat (pr_ordinal (ru_roller s)) < u32_max"
  shows "\<exists>s' tr'. write_key_group cfg g s tr [] = Inr (s', tr', []) \<and>
    unat (pr_ordinal (ru_roller s')) \<le> Suc (unat (pr_ordinal (ru_roller s)))"
proof -
  let ?gc = "pc_tombstone_gc cfg"
  obtain sel r where sel: "select_partition_key_output g (ru_tombstones s) ?gc = Inr (sel, r)"
    using select_newest_goes [OF con key] by (auto simp: select_partition_key_output_def Let_def)
  define s0 where "s0 = s\<lparr>ru_tombstones := r\<rparr>"
  obtain b where b: "should_roll cfg (ru_roller s0) sel (event_starts g) r ?gc = Inr b"
    using lim by (simp add: should_roll_def should_roll_with_soft_target_def hard_roll_due_def Let_def)
  let ?roll = "b \<or> has_output s0 \<and> overlap_should_roll (pc_grandparent_overlap cfg) tr (event_key (hd g))"
  obtain s1 tr1 where s1: "(if ?roll then try_with (roll_at cfg True (event_key (hd g)) s0 [])
        (\<lambda>(s, t). Inr (s, new_tracker, t)) else Inr (s0, tr, [])) = Inr (s1, tr1, [])"
      "unat (pr_ordinal (ru_roller s1)) \<le> Suc (unat (pr_ordinal (ru_roller s)))"
    using roll_at_goes [OF lim, of s0 True "event_key (hd g)"] ord by (cases ?roll) (auto simp: s0_def)
  obtain s2 where s2: "write_group cfg ?gc (event_starts g) (case sel of None \<Rightarrow> [] | Some v \<Rightarrow> [v]) s1 [] = Inr (s2, [])"
      "pr_ordinal (ru_roller s2) = pr_ordinal (ru_roller s1)"
    using write_group_goes [OF lim starts] by blast
  obtain tr2 where tr2: "observe_output cfg (event_key (hd g)) s2 tr1 [] = Inr (tr2, [])"
    by (cases "has_output s2"; cases "ot_lower tr1") (simp_all add: observe_output_def overlap_observe_def)
  show ?thesis using sel b s1 s2 tr2 unfolding write_key_group_def Let_def s0_def by simp
qed

section \<open>The run\<close>

text \<open>
  Events a run can take: versions that agree wherever key and sequence are equal, and
  nonempty ranges.
\<close>

definition well_formed :: "compaction_event set \<Rightarrow> bool" where
  "well_formed E \<longleftrightarrow>
     (\<forall>a b. Version a \<in> E \<and> Version b \<in> E \<and> v_key a = v_key b \<and> v_seq a = v_seq b \<longrightarrow> a = b) \<and>
     (\<forall>rt. RangeStart rt \<in> E \<longrightarrow> rt_start rt < rt_end rt)"

lemma well_formed_mono: "well_formed E \<Longrightarrow> F \<subseteq> E \<Longrightarrow> well_formed F"
  unfolding well_formed_def by blast

lemma well_formed_group:
  assumes "well_formed E" "set g \<subseteq> E"
  shows "consistent (event_versions g)" "\<forall>rt \<in> set (event_starts g). rt_start rt < rt_end rt"
proof -
  show "consistent (event_versions g)"
    using assms unfolding well_formed_def consistent_def set_event_versions by blast
  show "\<forall>rt \<in> set (event_starts g). rt_start rt < rt_end rt"
    using assms unfolding well_formed_def set_event_starts by blast
qed

lemma partition_loop_goes:
  assumes lim: "pc_output_size_limit cfg = None"
  shows "readable fac m \<Longrightarrow> t = [] \<Longrightarrow> well_formed {e. Inr e \<in># pending fac m} \<Longrightarrow>
   unat (pr_ordinal (ru_roller s)) + size (pending fac m) \<le> u32_max \<Longrightarrow>
   \<exists>s'. partition_loop fac cfg m seen s tr t = Inr (s', [])"
proof (induction "size (pending fac m)" arbitrary: m seen s tr t rule: less_induct)
  case (less m seen s tr t)
  obtain item m1 where n: "next_event fac m [] = Inr (item, m1, [])" "readable fac m1"
    using next_event_goes [OF less.prems(1)] by blast
  show ?case
  proof (cases item)
    case None
    then show ?thesis using n(1) less.prems(2) by (simp add: partition_loop.simps [of fac cfg m])
  next
    case (Some e)
    note nx = next_event_Some [OF _ n(1) [unfolded Some]]
    have ok: "merge_ok fac m" "merge_ok fac m1" using less.prems(1) n(2) by (simp_all add: readable_def)
    note p1 = nx(1) [OF ok(1)]
    obtain es m2 seen2 where c: "collect_more fac (event_key e) m1 (saturating_add_usize seen 1) [] = Inr (es, m2, seen2, [])"
      "readable fac m2" using collect_more_goes [OF n(2) refl] by blast
    have "event_key e \<le> event_key x" if "Inr x \<in># pending fac m1" for x using nx(4) [OF ok(1)] p1 that by simp
    note grp = collect_more_group [OF c(1) ok(2) this]
    have p: "pending fac m = mset (map Inr (e # es)) + pending fac m2" using p1 grp by simp
    have sub: "set (e # es) \<subseteq> {e. Inr e \<in># pending fac m}" unfolding p by auto
    have key: "\<forall>x \<in> set (e # es). event_key x = event_key e" using grp by simp
    have "unat (pr_ordinal (ru_roller s)) < u32_max" using less.prems(4) p by simp
    from write_key_group_goes [OF lim well_formed_group(1) [OF less.prems(3) sub] key
        well_formed_group(2) [OF less.prems(3) sub] this, of tr]
    obtain s1 tr1 where w: "write_key_group cfg (e # es) s tr [] = Inr (s1, tr1, [])"
      "unat (pr_ordinal (ru_roller s1)) \<le> Suc (unat (pr_ordinal (ru_roller s)))" by blast
    have "well_formed {e. Inr e \<in># pending fac m2}"
      by (rule well_formed_mono [OF less.prems(3)]) (auto simp: p)
    moreover have "unat (pr_ordinal (ru_roller s1)) + size (pending fac m2) \<le> u32_max"
      using less.prems(4) w(2) unfolding p by simp
    moreover have "size (pending fac m2) < size (pending fac m)" unfolding p by simp
    ultimately obtain s' where "partition_loop fac cfg m2 seen2 s1 tr1 [] = Inr (s', [])"
      using less.hyps [OF _ c(2) refl] by blast
    then show ?thesis using n(1) Some c(1) w(1) less.prems(2)
      by (simp add: partition_loop.simps [of fac cfg m] collect_same_key_events_def)
  qed
qed

lemma finish_partitioned_goes:
  assumes "pc_output_size_limit cfg = None"
  shows "\<exists>outs. finish_partitioned_outputs cfg s [] = Inr (outs, [])"
proof -
  obtain finished where "finish_current cfg (ru_roller s) (ru_tombstones s) None [] = Inr (finished, [])"
    using finish_current_goes [OF assms] by blast
  then show ?thesis
    by (cases finished) (simp_all add: finish_partitioned_outputs_def record_finished_partition_def)
qed

lemma boundary_cursor_goes:
  "\<exists>bs. boundary_cursor g [] = Inr (bs, []) \<and> clean (concat (map (cursor_items fac) bs)) \<and>
     length (concat (map (cursor_items fac) bs)) \<le> length (go_starts g)"
proof (cases "go_max_bytes g = 0 \<or> go_starts g = []")
  case False
  have "length (remdups_adj (sort (map fst (go_starts g)))) \<le> length (go_starts g)"
    using remdups_adj_length [of "sort (map fst (go_starts g))"] by simp
  then show ?thesis using False by (auto simp: boundary_cursor_def clean_def list_all_iff)
qed (simp add: boundary_cursor_def)

text \<open>C8. Compaction runs to completion: over inputs that can be read, whose target tables are in key
  order, whose versions agree at equal sequences and whose tombstones are nonempty ranges, a
  run that nothing interrupts returns its outputs, unless a staging limit is set or more
  events than output ordinals come in.\<close>

theorem compaction_goes_through:
  assumes cs: "collect_compaction_stream_inputs fac src tgt lvl rep t = Inr (cs, t1)"
    and asc: "\<forall>f \<in> set src. versions_ascend fac f"
    and cl: "clean (concat (map (cursor_items fac) cs))" "concat (map (cursor_items fac) cs) \<noteq> []"
    and con: "consistent (input_versions fac (src @ tgt))"
    and rts: "\<forall>rt \<in> set (input_tombstones fac (src @ tgt)). rt_start rt < rt_end rt"
    and lim: "pc_output_size_limit cfg = None"
    and few: "length (concat (map (cursor_items fac) cs)) + length (go_starts (pc_grandparent_overlap cfg)) \<le> u32_max"
  shows "\<exists>outs. write_partitioned_compaction_outputs fac cfg cs [] = Inr (outs, [])"
proof -
  obtain bs where bs: "boundary_cursor (pc_grandparent_overlap cfg) [] = Inr (bs, [])"
    "clean (concat (map (cursor_items fac) bs))"
    "length (concat (map (cursor_items fac) bs)) \<le> length (go_starts (pc_grandparent_overlap cfg))"
    using boundary_cursor_goes by blast
  let ?items = "concat (map (cursor_items fac) (cs @ bs))"
  have clean: "clean ?items" using cl(1) bs(2) by (simp add: clean_def)
  then obtain m where m: "merge_new fac (cs @ bs) [] = Inr (m, [])"
    using merge_new_goes [of "cs @ bs" fac] by (auto simp: clean_concat)
  have ord: "key_ordered (cursor_items fac c)" if "c \<in> set (cs @ bs)" for c
    using that collect_inputs_ordered [OF cs] asc boundary_cursor_items(2) [OF bs(1)] by auto
  note new = merge_new_ok [OF m ord]
  have readable: "readable fac m" using new clean by (simp add: readable_def clean_def list_all_iff)
  obtain ks where ks: "oks (concat (map (cursor_items fac) bs)) = map Boundary ks"
    using boundary_cursor_items(1) [OF bs(1)] by blast
  have "\<forall>c \<in> set bs. key_ordered (cursor_items fac c)" using ord by simp
  note ev = run_events(2) [OF cs asc this ks m]
  have p: "pending fac m = mset (map Inr (oks ?items))" using new clean_oks [OF clean] by simp
  note es = input_events_paired [OF ev [OF p]]
  have mem: "Inr e \<in># pending fac m \<longleftrightarrow> e \<in> set (oks ?items)" for e unfolding p by auto
  have vs: "set (event_versions (oks ?items)) = set (input_versions fac (src @ tgt))"
    using mset_eq_setD [OF es(3)] by (simp add: input_versions_def)
  have "well_formed {e. Inr e \<in># pending fac m}"
    using con rts es(2) vs unfolding well_formed_def mem consistent_def input_tombstones_def starts_of_def
    by (auto simp: set_eq_iff)
  moreover have "size (pending fac m) \<le> u32_max" using new few bs(3) by simp
  ultimately obtain s where s: "partition_loop fac cfg m 0 new_run new_tracker [] = Inr (s, [])"
    using partition_loop_goes [OF lim readable refl, of new_run 0 new_tracker]
    by (auto simp: new_run_def new_roller_def)
  have "pending fac m \<noteq> {#}" using new cl(2) by simp
  then have "peek_event m \<noteq> None" using peek_event_None new by blast
  then show ?thesis using bs(1) m s finish_partitioned_goes [OF lim, of s]
    by (auto simp: write_partitioned_compaction_outputs_def require_compaction_input_def)
qed

lemma sample_conditions:
  "clean (concat (map (cursor_items sample_tables) sample_cursors))"
  "concat (map (cursor_items sample_tables) sample_cursors) \<noteq> []"
  "consistent (input_versions sample_tables ([''new''] @ [''old'']))"
  "\<forall>rt \<in> set (input_tombstones sample_tables ([''new''] @ [''old''])). rt_start rt < rt_end rt"
  "pc_output_size_limit sample_config = None"
  "length (concat (map (cursor_items sample_tables) sample_cursors)) +
     length (go_starts (pc_grandparent_overlap sample_config)) \<le> u32_max"
  by code_simp+

theorem compaction_goes_through_witness:
  "\<exists>outs. write_partitioned_compaction_outputs sample_tables sample_config sample_cursors [] = Inr (outs, [])"
  by (rule compaction_goes_through [OF sample_inputs sample_source_ascends sample_conditions])

end
