(* ===== verification/Range_Cover.thy ===== *)
theory Range_Cover
  imports Versions
begin

text \<open>
  Covering range tombstones of a key: the linear scan and the memtable that caches an index
  (\<^verbatim>\<open>src/src/memtable/mod.rs\<close>), the index of disjoint fragments
  (\<^verbatim>\<open>src/src/memtable/range_tombstone_index.rs\<close>), and the sweep that scans use
  (\<^verbatim>\<open>src/src/runtime/range_cover.rs\<close>). Index, cache and sweep are proved to give the answer of
  the linear scan.
\<close>

section \<open>The linear scan\<close>

fun newest_of :: "u64 list \<Rightarrow> u64 option" where
  "newest_of [] = None"
| "newest_of (x # xs) = (case newest_of xs of None \<Rightarrow> Some x | Some y \<Rightarrow> Some (max x y))"

definition max_covering_seq :: "range_tombstone list \<Rightarrow> bytes \<Rightarrow> u64 \<Rightarrow> u64 option" where
  "max_covering_seq tombstones key snapshot_seq =
     newest_of (map rt_seq (filter (\<lambda>rt. visible_at rt snapshot_seq \<and> covers rt key) tombstones))"

text \<open>\<open>is_max S r\<close>: \<open>r\<close> is the greatest element of \<open>S\<close>, if there is one.\<close>

definition is_max :: "u64 set \<Rightarrow> u64 option \<Rightarrow> bool" where
  "is_max S r = (case r of None \<Rightarrow> S = {} | Some x \<Rightarrow> x \<in> S \<and> (\<forall>y \<in> S. y \<le> x))"

lemma is_max_unique: "is_max S a \<Longrightarrow> is_max S b \<Longrightarrow> a = b"
  by (cases a; cases b) (auto simp: is_max_def intro: antisym)

lemma newest_of_is_max: "is_max (set xs) (newest_of xs)"
  by (induction xs) (auto simp: is_max_def max_def split: option.splits)

lemma newest_of_eq: "is_max (set xs) r \<Longrightarrow> newest_of xs = r"
  using is_max_unique newest_of_is_max by blast

section \<open>Fragments\<close>

record fragment =
  fr_start :: bytes
  fr_end :: bytes
  fr_seqs :: "u64 list"

definition max_seq_entries_per_tombstone :: nat where
  "max_seq_entries_per_tombstone = 8"

definition min_seq_entry_allowance :: nat where
  "min_seq_entry_allowance = 4096"

text \<open>
  The loop over adjacent bounds: tombstones that start at or before the fragment become active,
  those that end at or before it are dropped.
\<close>

definition activated :: "bytes \<Rightarrow> range_tombstone list \<Rightarrow> (bytes \<times> u64) list \<Rightarrow> (bytes \<times> u64) list" where
  "activated lo waiting active = filter (\<lambda>(ending, _). lo < ending)
     (active @ map (\<lambda>rt. (rt_end rt, rt_seq rt)) (takeWhile (\<lambda>rt. rt_start rt \<le> lo) waiting))"

fun build_fragments :: "nat \<Rightarrow> bytes list \<Rightarrow> range_tombstone list \<Rightarrow> (bytes \<times> u64) list \<Rightarrow> nat \<Rightarrow>
    fragment list option" where
  "build_fragments allowance (lo # hi # bounds) waiting active seq_entries =
     (let active = activated lo waiting active;
          waiting = dropWhile (\<lambda>rt. rt_start rt \<le> lo) waiting
      in if active = [] then build_fragments allowance (hi # bounds) waiting active seq_entries
         else if allowance < seq_entries + length active then None
         else map_option (Cons \<lparr>fr_start = lo, fr_end = hi, fr_seqs = rev (sort (map snd active))\<rparr>)
           (build_fragments allowance (hi # bounds) waiting active (seq_entries + length active)))"
| "build_fragments allowance _ waiting active seq_entries = Some []"

definition by_start :: "range_tombstone list \<Rightarrow> range_tombstone list" where
  "by_start tombstones = sort_key rt_start (filter (\<lambda>rt. rt_start rt < rt_end rt) tombstones)"

definition fragment_bounds :: "range_tombstone list \<Rightarrow> bytes list" where
  "fragment_bounds rts = remdups_adj (sort (concat (map (\<lambda>rt. [rt_start rt, rt_end rt]) rts)))"

definition build_index :: "range_tombstone list \<Rightarrow> fragment list option" where
  "build_index tombstones =
     (let rts = by_start tombstones
      in build_fragments (max (length rts * max_seq_entries_per_tombstone) min_seq_entry_allowance)
        (fragment_bounds rts) rts [] 0)"

text \<open>
  \<^verbatim>\<open>partition_point\<close> counts the leading entries that satisfy its predicate; on the sorted
  fragments and sequences those are all that do.
\<close>

definition fragment_lookup :: "fragment list \<Rightarrow> bytes \<Rightarrow> u64 \<Rightarrow> u64 option" where
  "fragment_lookup fragments key snapshot_seq =
     (case rev (takeWhile (\<lambda>f. fr_start f \<le> key) fragments) of
        [] \<Rightarrow> None
      | f # _ \<Rightarrow>
          if fr_end f \<le> key then None
          else (case dropWhile (\<lambda>s. snapshot_seq \<noteq> - 1 \<and> snapshot_seq < s) (fr_seqs f) of
              [] \<Rightarrow> None | s # _ \<Rightarrow> Some s))"

section \<open>The index answers like the scan\<close>

definition visible_seq :: "u64 \<Rightarrow> u64 \<Rightarrow> bool" where
  "visible_seq snapshot_seq s \<longleftrightarrow> snapshot_seq = - 1 \<or> s \<le> snapshot_seq"

lemma first_visible_is_max:
  "sorted (rev seqs) \<Longrightarrow>
   is_max {s \<in> set seqs. visible_seq snap s}
     (case dropWhile (\<lambda>s. snap \<noteq> - 1 \<and> snap < s) seqs of [] \<Rightarrow> None | s # _ \<Rightarrow> Some s)"
proof (induction seqs)
  case (Cons s seqs)
  show ?case
  proof (cases "visible_seq snap s")
    case True
    then have "\<not> (snap \<noteq> - 1 \<and> snap < s)" by (auto simp: visible_seq_def)
    moreover have "\<forall>y \<in> set seqs. y \<le> s" using Cons.prems by (auto simp: sorted_append)
    ultimately show ?thesis using True by (auto simp: is_max_def)
  next
    case False
    then have "snap \<noteq> - 1 \<and> snap < s" by (auto simp: visible_seq_def)
    moreover have "{x \<in> set (s # seqs). visible_seq snap x} = {x \<in> set seqs. visible_seq snap x}" using False by auto
    ultimately show ?thesis using Cons by (simp add: sorted_append)
  qed
qed (simp add: is_max_def)

lemma lookup_past: "fr_start f \<le> key \<Longrightarrow> fr_end f \<le> key \<Longrightarrow> fragment_lookup (f # fs) key snap = fragment_lookup fs key snap"
  by (cases "rev (takeWhile (\<lambda>f. fr_start f \<le> key) fs)") (auto simp: fragment_lookup_def)

lemma lookup_within:
  assumes "fr_start f \<le> key" "key < fr_end f" "\<forall>g \<in> set fs. key < fr_start g"
  shows "fragment_lookup (f # fs) key snap =
    (case dropWhile (\<lambda>s. snap \<noteq> - 1 \<and> snap < s) (fr_seqs f) of [] \<Rightarrow> None | s # _ \<Rightarrow> Some s)"
proof -
  have "takeWhile (\<lambda>f. fr_start f \<le> key) fs = []" using assms(3) by (cases fs) auto
  moreover have "\<not> fr_end f \<le> key" using assms(2) by simp
  ultimately show ?thesis using assms(1) by (simp add: fragment_lookup_def)
qed

lemma lookup_before: "\<forall>g \<in> set fs. key < fr_start g \<Longrightarrow> fragment_lookup fs key snap = None"
  by (cases fs) (auto simp: fragment_lookup_def)

text \<open>
  What the loop maintains at the bound \<open>lo\<close>: the bounds ascend, the waiting tombstones ascend by
  start and have their ends among the bounds, and an active one that reaches past \<open>lo\<close> ends
  at a bound.
\<close>

definition sweep_state :: "bytes list \<Rightarrow> range_tombstone list \<Rightarrow> (bytes \<times> u64) list \<Rightarrow> bool" where
  "sweep_state bounds waiting active \<longleftrightarrow> sorted_wrt (<) bounds \<and> sorted (map rt_start waiting) \<and>
     (\<forall>rt \<in> set waiting. rt_start rt \<in> set bounds \<and> rt_end rt \<in> set bounds \<and> rt_start rt < rt_end rt) \<and>
     (\<forall>(e, _) \<in> set active. e \<in> set bounds \<or> (\<forall>b \<in> set bounds. e \<le> b))"

definition cover_at :: "range_tombstone list \<Rightarrow> (bytes \<times> u64) list \<Rightarrow> bytes \<Rightarrow> u64 set" where
  "cover_at waiting active key =
     snd ` {a \<in> set active. key < fst a} \<union> rt_seq ` {rt \<in> set waiting. covers rt key}"

lemma build_starts:
  "build_fragments n bounds waiting active m = Some fs \<Longrightarrow> f \<in> set fs \<Longrightarrow> fr_start f \<in> set bounds"
  by (induction n bounds waiting active m arbitrary: fs rule: build_fragments.induct)
    (auto simp: Let_def split: if_splits)

lemma sorted_waiting:
  assumes "sorted (map rt_start waiting)"
  shows "set (takeWhile (\<lambda>rt. rt_start rt \<le> lo) waiting) = {rt \<in> set waiting. rt_start rt \<le> lo}"
    "set (dropWhile (\<lambda>rt. rt_start rt \<le> lo) waiting) = {rt \<in> set waiting. lo < rt_start rt}"
proof -
  have "set (takeWhile (\<lambda>rt. rt_start rt \<le> lo) waiting) = {rt \<in> set waiting. rt_start rt \<le> lo} \<and>
    set (dropWhile (\<lambda>rt. rt_start rt \<le> lo) waiting) = {rt \<in> set waiting. lo < rt_start rt}"
    using assms
  proof (induction waiting)
    case (Cons w ws)
    then have "\<forall>rt \<in> set ws. rt_start w \<le> rt_start rt" by simp
    then show ?case using Cons by (cases "rt_start w \<le> lo") (auto dest: order_less_le_trans)
  qed simp
  then show "set (takeWhile (\<lambda>rt. rt_start rt \<le> lo) waiting) = {rt \<in> set waiting. rt_start rt \<le> lo}"
    "set (dropWhile (\<lambda>rt. rt_start rt \<le> lo) waiting) = {rt \<in> set waiting. lo < rt_start rt}" by auto
qed

lemma activated_iff:
  assumes "sorted (map rt_start waiting)"
  shows "(e, q) \<in> set (activated lo waiting active) \<longleftrightarrow> lo < e \<and>
    ((e, q) \<in> set active \<or> (\<exists>rt \<in> set waiting. rt_start rt \<le> lo \<and> e = rt_end rt \<and> q = rt_seq rt))"
  using sorted_waiting(1) [OF assms, of lo] unfolding activated_def by auto

lemma sweep_state_step:
  assumes "sweep_state (lo # hi # bounds) waiting active"
  shows "sweep_state (hi # bounds) (dropWhile (\<lambda>rt. rt_start rt \<le> lo) waiting) (activated lo waiting active)"
    and "(e, q) \<in> set (activated lo waiting active) \<Longrightarrow> e \<in> set (hi # bounds)"
proof -
  have w: "sorted (map rt_start waiting)" "sorted_wrt (<) (lo # hi # bounds)"
    "\<forall>rt \<in> set waiting. rt_start rt \<in> set (lo # hi # bounds) \<and> rt_end rt \<in> set (lo # hi # bounds) \<and>
      rt_start rt < rt_end rt"
    "\<forall>(e, _) \<in> set active. e \<in> set (lo # hi # bounds) \<or> (\<forall>b \<in> set (lo # hi # bounds). e \<le> b)"
    using assms by (auto simp: sweep_state_def)
  have s: "sorted (map rt_start (dropWhile (\<lambda>rt. rt_start rt \<le> lo) waiting))"
    using w(1) by (metis drop_map dropWhile_eq_drop sorted_wrt_drop)
  have d: "rt_start rt \<in> set (hi # bounds) \<and> rt_end rt \<in> set (hi # bounds) \<and> rt_start rt < rt_end rt"
    if "rt \<in> set (dropWhile (\<lambda>rt. rt_start rt \<le> lo) waiting)" for rt
    using that w(3) unfolding sorted_waiting(2) [OF w(1)] by auto
  have e: "e \<in> set (hi # bounds)" if mem: "(e, q) \<in> set (activated lo waiting active)" for e q
  proof -
    have lo: "lo < e" and src: "(e, q) \<in> set active \<or>
        (\<exists>rt \<in> set waiting. rt_start rt \<le> lo \<and> e = rt_end rt \<and> q = rt_seq rt)"
      using mem unfolding activated_iff [OF w(1)] by auto
    from src have "e \<in> set (lo # hi # bounds) \<or> e \<le> lo" using w(3,4) by fastforce
    then show ?thesis using lo by auto
  qed
  then show "(e, q) \<in> set (activated lo waiting active) \<Longrightarrow> e \<in> set (hi # bounds)" .
  show "sweep_state (hi # bounds) (dropWhile (\<lambda>rt. rt_start rt \<le> lo) waiting) (activated lo waiting active)"
  proof -
    have "case x of (e, _) \<Rightarrow> e \<in> set (hi # bounds) \<or> (\<forall>b \<in> set (hi # bounds). e \<le> b)"
      if "x \<in> set (activated lo waiting active)" for x
      using that e by (metis (no_types, lifting) case_prodI2)
    moreover have "sorted_wrt (<) (hi # bounds)" using w(2) by simp
    ultimately show ?thesis unfolding sweep_state_def using s d by blast
  qed
qed

lemma cover_at_step:
  assumes "sweep_state (lo # hi # bounds) waiting active" "lo \<le> key"
  shows "cover_at waiting active key =
    cover_at (dropWhile (\<lambda>rt. rt_start rt \<le> lo) waiting) (activated lo waiting active) key"
proof -
  have w: "sorted (map rt_start waiting)" using assms by (simp add: sweep_state_def)
  have "q \<in> cover_at waiting active key \<longleftrightarrow>
      q \<in> cover_at (dropWhile (\<lambda>rt. rt_start rt \<le> lo) waiting) (activated lo waiting active) key" for q
  proof -
    have 1: "q \<in> cover_at ws as key \<longleftrightarrow> (\<exists>e. (e, q) \<in> set as \<and> key < e) \<or>
        (\<exists>rt \<in> set ws. rt_seq rt = q \<and> rt_start rt \<le> key \<and> key < rt_end rt)" for ws as
      by (force simp: cover_at_def covers_def image_iff)
    have "lo < e" if "key < e" for e using assms(2) that by simp
    moreover have "rt_start rt \<le> key" if "rt_start rt \<le> lo" for rt using assms(2) that by simp
    moreover have "rt_start rt \<le> lo \<or> lo < rt_start rt" for rt by auto
    ultimately show ?thesis unfolding 1 activated_iff [OF w] sorted_waiting(2) [OF w] mem_Collect_eq by blast
  qed
  then show ?thesis by blast
qed

lemma cover_at_lo:
  assumes "sweep_state (lo # hi # bounds) waiting active" "lo \<le> key" "key < hi"
  shows "cover_at waiting active key = snd ` set (activated lo waiting active)"
proof -
  note st = sweep_state_step [OF assms(1)]
  have b: "key < b" if "b \<in> set (hi # bounds)" for b using assms(1,3) that by (auto simp: sweep_state_def)
  have "key < fst x" if "x \<in> set (activated lo waiting active)" for x
    using that st(2) [of "fst x" "snd x"] b by (simp only: prod.collapse)
  then have "{a \<in> set (activated lo waiting active). key < fst a} = set (activated lo waiting active)" by blast
  moreover have "\<not> covers rt key" if "rt \<in> set (dropWhile (\<lambda>rt. rt_start rt \<le> lo) waiting)" for rt
  proof -
    have "rt_start rt \<in> set (hi # bounds)" using st(1) that unfolding sweep_state_def by blast
    then show ?thesis using b by (auto simp: covers_def not_le)
  qed
  ultimately have "cover_at (dropWhile (\<lambda>rt. rt_start rt \<le> lo) waiting) (activated lo waiting active) key =
      snd ` set (activated lo waiting active)" unfolding cover_at_def by auto
  then show ?thesis using cover_at_step [OF assms(1,2)] by simp
qed

lemma cover_at_last: "sweep_state [b] waiting active \<Longrightarrow> b \<le> key \<Longrightarrow> cover_at waiting active key = {}"
  by (force simp: sweep_state_def cover_at_def)

lemma build_fragments_exact:
  "build_fragments n bounds waiting active m = Some fs \<Longrightarrow> sweep_state bounds waiting active \<Longrightarrow>
   bounds = lo # rest \<Longrightarrow> lo \<le> key \<Longrightarrow>
   is_max {q \<in> cover_at waiting active key. visible_seq snap q} (fragment_lookup fs key snap)"
proof (induction n bounds waiting active m arbitrary: fs lo rest rule: build_fragments.induct)
  case (1 n lo' hi bounds waiting active m)
  have lo: "lo' = lo" "rest = hi # bounds" using "1.prems"(3) by auto
  define a where "a = activated lo waiting active"
  define w where "w = dropWhile (\<lambda>rt. rt_start rt \<le> lo) waiting"
  note st = "1.prems"(2) [unfolded lo(1)]
  have st': "sweep_state (hi # bounds) w a" using sweep_state_step(1) [OF st] by (simp add: a_def w_def)
  have cov: "cover_at waiting active key = cover_at w a key"
    using cover_at_step [OF st "1.prems"(4)] by (simp add: a_def w_def)
  have hi: "\<forall>b \<in> set (hi # bounds). hi \<le> b" "lo < hi" using st by (auto simp: sweep_state_def)
  note ih = "1.IH" [unfolded lo(1), OF refl refl, folded a_def w_def]
  note run = "1.prems"(1) [unfolded lo(1) build_fragments.simps Let_def, folded a_def w_def]
  show ?case
  proof (cases "a = []")
    case True
    then have fs: "build_fragments n (hi # bounds) w a m = Some fs" using run by simp
    show ?thesis
    proof (cases "hi \<le> key")
      case True
      then show ?thesis using ih(1) [OF \<open>a = []\<close> fs st' refl] cov by simp
    next
      case False
      then have "cover_at waiting active key = {}" using cover_at_lo [OF st "1.prems"(4)] \<open>a = []\<close> by (simp add: a_def)
      moreover have "\<forall>g \<in> set fs. key < fr_start g" using build_starts [OF fs] hi(1) False by fastforce
      ultimately show ?thesis using lookup_before by (simp add: is_max_def)
    qed
  next
    case False
    then obtain gs where n: "\<not> n < m + length a" and gs: "build_fragments n (hi # bounds) w a (m + length a) = Some gs"
      and fs: "fs = \<lparr>fr_start = lo, fr_end = hi, fr_seqs = rev (sort (map snd a))\<rparr> # gs"
      using run by (auto split: if_splits)
    show ?thesis
    proof (cases "hi \<le> key")
      case True
      then show ?thesis using ih(2) [OF False n gs st' refl] cov "1.prems"(4) by (simp add: fs lookup_past)
    next
      case k: False
      have "\<forall>g \<in> set gs. key < fr_start g" using build_starts [OF gs] hi(1) k by fastforce
      then have "fragment_lookup fs key snap = (case dropWhile (\<lambda>s. snap \<noteq> - 1 \<and> snap < s) (rev (sort (map snd a))) of
          [] \<Rightarrow> None | s # _ \<Rightarrow> Some s)"
        using lookup_within [of _ key gs snap] "1.prems"(4) k by (simp add: fs)
      moreover have "cover_at waiting active key = set (rev (sort (map snd a)))"
        using cover_at_lo [OF st "1.prems"(4)] k by (simp add: a_def)
      ultimately show ?thesis using first_visible_is_max [of "rev (sort (map snd a))" snap] by simp
    qed
  qed
qed (auto simp: cover_at_last is_max_def fragment_lookup_def)

lemma strict_remdups_adj: "sorted xs \<Longrightarrow> sorted_wrt (<) (remdups_adj (xs :: bytes list))"
proof (induction xs rule: remdups_adj.induct)
  case (3 x y xs)
  show ?case
  proof (cases "x = y")
    case False
    then have "x < y" using "3.prems" by (simp add: order_less_le)
    moreover have "\<forall>z \<in> set (y # xs). y \<le> z" using "3.prems" by simp
    ultimately have "\<forall>z \<in> set (y # xs). x < z" by (meson order_less_le_trans)
    moreover have "remdups_adj (x # y # xs) = x # remdups_adj (y # xs)" using False by simp
    ultimately show ?thesis using "3.IH"(2) [OF False] "3.prems" by simp
  qed (use 3 in simp)
qed simp_all

lemma fragment_bounds_state: "sweep_state (fragment_bounds (by_start rts)) (by_start rts) []"
proof -
  have "sorted (map rt_start (by_start rts))" by (simp add: by_start_def)
  moreover have "sorted_wrt (<) (fragment_bounds (by_start rts))"
    unfolding fragment_bounds_def by (rule strict_remdups_adj) simp
  moreover have "\<forall>rt \<in> set (by_start rts). rt_start rt \<in> set (fragment_bounds (by_start rts)) \<and>
      rt_end rt \<in> set (fragment_bounds (by_start rts)) \<and> rt_start rt < rt_end rt"
    by (auto simp: fragment_bounds_def by_start_def)
  ultimately show ?thesis by (simp add: sweep_state_def)
qed

lemma covering_seqs:
  "set (map rt_seq (filter (\<lambda>rt. visible_at rt snap \<and> covers rt key) rts)) =
     {q \<in> cover_at (by_start rts) [] key. visible_seq snap q}"
  by (auto simp: cover_at_def by_start_def visible_at_def visible_seq_def covers_def)

text \<open>
  The index of fragments answers like the linear scan: whenever it is built, it returns the
  greatest visible sequence among all tombstones that cover the key.
\<close>

lemma fragment_index_exact:
  assumes "build_index rts = Some fragments"
  shows "fragment_lookup fragments key snap = max_covering_seq rts key snap"
proof -
  let ?b = "fragment_bounds (by_start rts)"
  obtain n where run: "build_fragments n ?b (by_start rts) [] 0 = Some fragments"
    using assms by (auto simp: build_index_def Let_def)
  have "is_max {q \<in> cover_at (by_start rts) [] key. visible_seq snap q} (fragment_lookup fragments key snap)"
  proof (cases "?b = [] \<or> key < hd ?b")
    case True
    have st: "sweep_state ?b (by_start rts) []" by (rule fragment_bounds_state)
    have "\<not> covers rt key" if "rt \<in> set (by_start rts)" for rt
    proof -
      have "rt_start rt \<in> set ?b" using st that by (simp add: sweep_state_def)
      then have "key < rt_start rt" using st True by (cases ?b) (auto simp: sweep_state_def)
      then show ?thesis by (auto simp: covers_def)
    qed
    moreover have "\<forall>g \<in> set fragments. key < fr_start g"
      using build_starts [OF run] st True by (cases ?b) (fastforce simp: sweep_state_def)+
    ultimately show ?thesis using lookup_before by (auto simp: cover_at_def is_max_def)
  next
    case False
    then have "?b = hd ?b # tl ?b" "hd ?b \<le> key" by auto
    then show ?thesis using build_fragments_exact [OF run fragment_bounds_state] by blast
  qed
  then show ?thesis unfolding max_covering_seq_def by (intro newest_of_eq [symmetric]) (simp only: covering_seqs)
qed

section \<open>The memtable's cache\<close>

text \<open>
  The tombstones of a memtable are only appended to, and the index built for a number of them is
  reused as long as that number is current. The rest of the memtable, its skiplist of points, does
  not take part. A deletion also charges two counters: the resident bytes, which depend on the
  capacity \<open>capacity n\<close> a vector has after \<open>n\<close> pushes and on the size \<open>entry\<close> of a tombstone
  in memory, and the bound on the encoded table (\<^verbatim>\<open>src/src/memtable/size_bound.rs\<close>). The first
  wraps like the atomic it is, the second saturates.
\<close>

definition fixed_sst_bytes :: nat where
  "fixed_sst_bytes = 16 * 1024"

definition range_bytes :: "nat \<Rightarrow> nat \<Rightarrow> nat" where
  "range_bytes start_len end_len =
     saturating_add_usize 128 (saturating_mul_usize (saturating_add_usize start_len end_len) 6)"

record tombstone_table =
  tt_size_bytes :: nat
  tt_encoded_size_bound :: nat
  tt_count :: nat
  tt_tombstones :: "range_tombstone list"
  tt_index :: "(nat \<times> fragment list option) option"

definition new_table :: tombstone_table where
  "new_table = \<lparr>tt_size_bytes = 0, tt_encoded_size_bound = fixed_sst_bytes, tt_count = 0,
     tt_tombstones = [], tt_index = None\<rparr>"

definition add_encoded_size_bound :: "nat \<Rightarrow> tombstone_table \<Rightarrow> tombstone_table" where
  "add_encoded_size_bound n m =
     m\<lparr>tt_encoded_size_bound := saturating_add_usize (tt_encoded_size_bound m) n\<rparr>"

definition delete_range_with_seq :: "(nat \<Rightarrow> nat) \<Rightarrow> nat \<Rightarrow> bytes \<Rightarrow> bytes \<Rightarrow> u64 \<Rightarrow> tombstone_table \<Rightarrow> tombstone_table" where
  "delete_range_with_seq capacity entry start_key end_key seq m =
     (if end_key \<le> start_key then m
      else
        let old_capacity = capacity (length (tt_tombstones m));
            tombstones = tt_tombstones m @ [\<lparr>rt_start = start_key, rt_end = end_key, rt_seq = seq\<rparr>];
            capacity_bytes = saturating_mul_usize (capacity (length tombstones) - old_capacity) entry;
            size_delta = saturating_add_usize (saturating_add_usize capacity_bytes (length start_key)) (length end_key)
        in add_encoded_size_bound (range_bytes (length start_key) (length end_key))
          (m\<lparr>tt_tombstones := tombstones,
             tt_size_bytes := (tt_size_bytes m + size_delta) mod (usize_max + 1),
             tt_count := tt_count m + 1\<rparr>))"

lemma delete_range_keeps_index:
  "tt_index (delete_range_with_seq capacity entry s e q m) = tt_index m"
  "tt_tombstones (delete_range_with_seq capacity entry s e q m) =
     (if s < e then tt_tombstones m @ [\<lparr>rt_start = s, rt_end = e, rt_seq = q\<rparr>] else tt_tombstones m)"
  "tt_count (delete_range_with_seq capacity entry s e q m) = (if s < e then tt_count m + 1 else tt_count m)"
  by (auto simp: delete_range_with_seq_def add_encoded_size_bound_def Let_def)

definition rebuild_tombstone_index :: "tombstone_table \<Rightarrow> (nat \<times> fragment list option) \<times> tombstone_table" where
  "rebuild_tombstone_index m =
     (let cache = (length (tt_tombstones m), build_index (tt_tombstones m))
      in (cache, m\<lparr>tt_index := Some cache\<rparr>))"

definition max_covering_tombstone_seq :: "bytes \<Rightarrow> u64 \<Rightarrow> tombstone_table \<Rightarrow> u64 option \<times> tombstone_table" where
  "max_covering_tombstone_seq key snapshot_seq m =
     (if tt_count m = 0 then (None, m)
      else
        let (cache, m) = (case tt_index m of
            Some cache \<Rightarrow> if fst cache = tt_count m then (cache, m) else rebuild_tombstone_index m
          | None \<Rightarrow> rebuild_tombstone_index m)
        in (case snd cache of
            Some fragments \<Rightarrow> fragment_lookup fragments key snapshot_seq
          | None \<Rightarrow> max_covering_seq (tt_tombstones m) key snapshot_seq, m))"

datatype table_op = DeleteRange bytes bytes u64 | Lookup bytes u64

fun run_table :: "(nat \<Rightarrow> nat) \<Rightarrow> nat \<Rightarrow> tombstone_table \<Rightarrow> table_op list \<Rightarrow> u64 option list" where
  "run_table capacity entry m [] = []"
| "run_table capacity entry m (DeleteRange s e q # ops) =
     run_table capacity entry (delete_range_with_seq capacity entry s e q m) ops"
| "run_table capacity entry m (Lookup k snap # ops) =
     (case max_covering_tombstone_seq k snap m of (r, m) \<Rightarrow> r # run_table capacity entry m ops)"

fun scan_table :: "range_tombstone list \<Rightarrow> table_op list \<Rightarrow> u64 option list" where
  "scan_table rts [] = []"
| "scan_table rts (DeleteRange s e q # ops) = scan_table (rts @ [\<lparr>rt_start = s, rt_end = e, rt_seq = q\<rparr>]) ops"
| "scan_table rts (Lookup k snap # ops) = max_covering_seq rts k snap # scan_table rts ops"

definition table_ok :: "tombstone_table \<Rightarrow> bool" where
  "table_ok m \<longleftrightarrow> tt_count m = length (tt_tombstones m) \<and>
     (case tt_index m of None \<Rightarrow> True
      | Some (n, index) \<Rightarrow> n \<le> length (tt_tombstones m) \<and> index = build_index (take n (tt_tombstones m)))"

lemma table_ok_delete: "table_ok m \<Longrightarrow> table_ok (delete_range_with_seq capacity entry s e q m)"
  by (auto simp: table_ok_def delete_range_keeps_index split: option.splits)

lemma table_lookup:
  assumes "table_ok m" "max_covering_tombstone_seq key snap m = (r, m')"
  shows "r = max_covering_seq (tt_tombstones m) key snap \<and> table_ok m' \<and> tt_tombstones m' = tt_tombstones m"
proof (cases "tt_count m = 0")
  case True
  then show ?thesis using assms by (auto simp: max_covering_tombstone_seq_def table_ok_def max_covering_seq_def)
next
  case False
  define cm where "cm = (case tt_index m of
      Some cache \<Rightarrow> if fst cache = tt_count m then (cache, m) else rebuild_tombstone_index m
    | None \<Rightarrow> rebuild_tombstone_index m)"
  have m': "m' = snd cm" and r: "r = (case snd (fst cm) of
      Some fragments \<Rightarrow> fragment_lookup fragments key snap | None \<Rightarrow> max_covering_seq (tt_tombstones m') key snap)"
    using assms(2) False by (auto simp: max_covering_tombstone_seq_def cm_def split: prod.splits)
  have cm: "snd (fst cm) = build_index (tt_tombstones m)" "table_ok (snd cm)"
      "tt_tombstones (snd cm) = tt_tombstones m"
    using assms(1) by (auto simp: cm_def rebuild_tombstone_index_def table_ok_def Let_def split: option.splits)
  then show ?thesis using fragment_index_exact r m' by (auto split: option.splits)
qed

lemma scan_ignores_empty:
  "max_covering_seq (filter (\<lambda>rt. rt_start rt < rt_end rt) rts) key snap = max_covering_seq rts key snap"
proof -
  have "filter (\<lambda>rt. visible_at rt snap \<and> covers rt key) (filter (\<lambda>rt. rt_start rt < rt_end rt) rts) =
      filter (\<lambda>rt. visible_at rt snap \<and> covers rt key) rts"
    by (auto simp: covers_def intro!: filter_cong dest: order_le_less_trans)
  then show ?thesis by (simp add: max_covering_seq_def)
qed

text \<open>C14. The memtable's covering lookups are exact: through every history of range deletions and
  lookups, whether answered from a cached index, a rebuilt one or by scanning, each lookup
  returns the greatest visible sequence of the range deletions so far that cover its key.\<close>

theorem memtable_cover_exact:
  "run_table capacity entry new_table ops = scan_table [] ops"
proof -
  have "table_ok m \<Longrightarrow> tt_tombstones m = filter (\<lambda>rt. rt_start rt < rt_end rt) rts \<Longrightarrow>
      run_table capacity entry m ops = scan_table rts ops" for m rts
  proof (induction ops arbitrary: m rts)
    case (Cons op ops)
    show ?case
    proof (cases op)
      case (DeleteRange s e q)
      have "tt_tombstones (delete_range_with_seq capacity entry s e q m) =
          filter (\<lambda>rt. rt_start rt < rt_end rt) (rts @ [\<lparr>rt_start = s, rt_end = e, rt_seq = q\<rparr>])"
        using Cons.prems(2) by (simp add: delete_range_keeps_index)
      from Cons.IH [OF table_ok_delete [OF Cons.prems(1)] this] DeleteRange show ?thesis by simp
    next
      case (Lookup k snap)
      obtain r m' where r: "max_covering_tombstone_seq k snap m = (r, m')" by fastforce
      then show ?thesis using Lookup Cons table_lookup [OF Cons.prems(1) r] by (simp add: scan_ignores_empty)
    qed
  qed simp
  then show ?thesis by (simp add: new_table_def table_ok_def)
qed

section \<open>The sweep of a scan\<close>

text \<open>
  A pending range waits for the scan to reach it, an active one waits for the scan to pass it.
  The heaps are lists; \<^verbatim>\<open>peek\<close> and \<^verbatim>\<open>pop\<close> take a greatest element of the order the code defines, by
  position for pending ranges and by sequence for active ones. The field \<^verbatim>\<open>work\<close>, a count of heap
  operations that only tests read, is left out, and \<^verbatim>\<open>position\<close> with its flag \<^verbatim>\<open>positioned\<close> is an option.
\<close>

record pending_range =
  pd_activation :: bytes
  pd_retirement :: bytes
  pd_seq :: u64

record active_range =
  ac_seq :: u64
  ac_retirement :: bytes

record range_cover_sweep =
  rs_reverse :: bool
  rs_pending :: "pending_range list"
  rs_active :: "active_range list"
  rs_position :: "bytes option"

definition new_sweep :: "bool \<Rightarrow> range_cover_sweep" where
  "new_sweep reverse = \<lparr>rs_reverse = reverse, rs_pending = [], rs_active = [], rs_position = None\<rparr>"

definition retired :: "bool \<Rightarrow> bytes \<Rightarrow> bytes \<Rightarrow> bool" where
  "retired reverse retirement key \<longleftrightarrow> (if reverse then key < retirement else retirement \<le> key)"

definition reached :: "bool \<Rightarrow> bytes \<Rightarrow> bytes \<Rightarrow> bool" where
  "reached reverse activation key \<longleftrightarrow> (if reverse then key < activation else activation \<le> key)"

definition sweep_insert :: "bytes \<Rightarrow> bytes \<Rightarrow> u64 \<Rightarrow> range_cover_sweep \<Rightarrow> range_cover_sweep" where
  "sweep_insert start ending seq s =
     (if ending \<le> start then s
      else
        let (activation, retirement) = (if rs_reverse s then (ending, start) else (start, ending))
        in case rs_position s of
            Some position \<Rightarrow>
              if reached (rs_reverse s) activation position
              then if retired (rs_reverse s) retirement position then s
                else s\<lparr>rs_active := \<lparr>ac_seq = seq, ac_retirement = retirement\<rparr> # rs_active s\<rparr>
              else s\<lparr>rs_pending := \<lparr>pd_activation = activation, pd_retirement = retirement, pd_seq = seq\<rparr> # rs_pending s\<rparr>
          | None \<Rightarrow>
              s\<lparr>rs_pending := \<lparr>pd_activation = activation, pd_retirement = retirement, pd_seq = seq\<rparr> # rs_pending s\<rparr>)"

text \<open>The head of a heap and the rest of it.\<close>

fun heap_head :: "('a \<Rightarrow> 'a \<Rightarrow> bool) \<Rightarrow> 'a list \<Rightarrow> ('a \<times> 'a list) option" where
  "heap_head ge [] = None"
| "heap_head ge (x # xs) = (case heap_head ge xs of
     None \<Rightarrow> Some (x, [])
   | Some (y, ys) \<Rightarrow> if ge x y then Some (x, xs) else Some (y, x # ys))"

definition pending_first :: "bool \<Rightarrow> pending_range \<Rightarrow> pending_range \<Rightarrow> bool" where
  "pending_first reverse a b \<longleftrightarrow>
     (if reverse then pd_activation b \<le> pd_activation a else pd_activation a \<le> pd_activation b)"

definition active_first :: "active_range \<Rightarrow> active_range \<Rightarrow> bool" where
  "active_first a b \<longleftrightarrow> ac_seq b \<le> ac_seq a"

lemma heap_head_None [simp]: "heap_head ge xs = None \<longleftrightarrow> xs = []"
  by (cases xs) (auto split: option.splits if_splits)

lemma heap_head_perm: "heap_head ge xs = Some (y, ys) \<Longrightarrow> y \<in> set xs \<and> set xs = insert y (set ys) \<and> length xs = Suc (length ys)"
  by (induction xs arbitrary: y ys) (auto split: option.splits if_splits)

text \<open>What the two heaps ask of their orders: with it, the head comes before every other element.\<close>

locale heap_order =
  fixes ge :: "'a \<Rightarrow> 'a \<Rightarrow> bool"
  assumes total: "ge x y \<or> ge y x"
    and trans: "ge x y \<Longrightarrow> ge y z \<Longrightarrow> ge x z"
begin

lemma head_first:
  "heap_head ge xs = Some (y, ys) \<Longrightarrow> x \<in> set xs \<Longrightarrow> ge y x"
proof (induction xs arbitrary: y ys)
  case (Cons a xs)
  show ?case
  proof (cases "heap_head ge xs")
    case None
    then show ?thesis using Cons.prems total by auto
  next
    case (Some p)
    obtain z zs where p: "p = (z, zs)" by (cases p)
    have z: "x \<in> set xs \<Longrightarrow> ge z x" by (rule Cons.IH [OF Some [unfolded p]])
    show ?thesis
    proof (cases "ge a z")
      case True
      then have "y = a" using Cons.prems(1) Some p by simp
      then show ?thesis using z Cons.prems(2) total True by (auto intro: trans)
    next
      case False
      then have "y = z" using Cons.prems(1) Some p by simp
      then show ?thesis using z Cons.prems(2) total False by auto
    qed
  qed
qed simp

end

interpretation pending_order: heap_order "pending_first reverse" for reverse
  by unfold_locales (auto simp: pending_first_def split: if_splits)

interpretation active_order: heap_order active_first
  by unfold_locales (auto simp: active_first_def)

lemma pending_head:
  assumes "heap_head (pending_first reverse) xs = Some (y, ys)" "x \<in> set xs" "reached reverse (pd_activation x) key"
  shows "reached reverse (pd_activation y) key"
proof -
  have "pending_first reverse y x" by (rule pending_order.head_first [OF assms(1,2)])
  then show ?thesis using assms(3) by (auto simp: pending_first_def reached_def split: if_splits)
qed

lemma active_head: "heap_head active_first xs = Some (y, ys) \<Longrightarrow> x \<in> set xs \<Longrightarrow> ac_seq x \<le> ac_seq y"
  using active_order.head_first [of xs y ys x] by (simp add: active_first_def)

function activate_reached :: "bool \<Rightarrow> bytes \<Rightarrow> pending_range list \<Rightarrow> active_range list \<Rightarrow>
    pending_range list \<times> active_range list" where
  "activate_reached reverse key waiting active = (case heap_head (pending_first reverse) waiting of
     None \<Rightarrow> (waiting, active)
   | Some (reach, rest) \<Rightarrow>
       if reached reverse (pd_activation reach) key
       then activate_reached reverse key rest
         (if retired reverse (pd_retirement reach) key then active
          else \<lparr>ac_seq = pd_seq reach, ac_retirement = pd_retirement reach\<rparr> # active)
       else (waiting, active))"
  by pat_completeness auto
termination by (relation "measure (\<lambda>(_, _, w, _). length w)") (auto dest: heap_head_perm)

function drop_retired :: "bool \<Rightarrow> bytes \<Rightarrow> active_range list \<Rightarrow> active_range list" where
  "drop_retired reverse key active = (case heap_head active_first active of
     None \<Rightarrow> active
   | Some (head, rest) \<Rightarrow> if retired reverse (ac_retirement head) key then drop_retired reverse key rest else active)"
  by pat_completeness auto
termination by (relation "measure (\<lambda>(_, _, a). length a)") (auto dest: heap_head_perm)

declare activate_reached.simps [simp del] drop_retired.simps [simp del]

definition max_cover_seq :: "bytes \<Rightarrow> range_cover_sweep \<Rightarrow> u64 option \<times> range_cover_sweep" where
  "max_cover_seq key s =
     (let (waiting, active) = activate_reached (rs_reverse s) key (rs_pending s) (rs_active s);
          active = drop_retired (rs_reverse s) key active
      in (map_option (\<lambda>(head, _). ac_seq head) (heap_head active_first active),
          s\<lparr>rs_pending := waiting, rs_active := active, rs_position := Some key\<rparr>))"

text \<open>What a query does to the heaps, as sets.\<close>

definition activation_of :: "pending_range \<Rightarrow> active_range" where
  "activation_of p = \<lparr>ac_seq = pd_seq p, ac_retirement = pd_retirement p\<rparr>"

lemma activate_reached_sets:
  "activate_reached dir key w a = (w', a') \<Longrightarrow>
   set w' = {p \<in> set w. \<not> reached dir (pd_activation p) key} \<and>
   set a' = set a \<union> activation_of ` {p \<in> set w. reached dir (pd_activation p) key \<and> \<not> retired dir (pd_retirement p) key}"
proof (induction dir key w a rule: activate_reached.induct)
  case (1 dir key w a)
  note run = "1.prems" [unfolded activate_reached.simps [of dir key w a]]
  show ?case
  proof (cases "heap_head (pending_first dir) w")
    case (Some p)
    obtain y ys where p: "p = (y, ys)" by (cases p)
    note h = Some [unfolded p]
    have set: "set w = insert y (set ys)" using heap_head_perm [OF h] by simp
    show ?thesis
    proof (cases "reached dir (pd_activation y) key")
      case True
      then show ?thesis using "1.IH" [OF h refl True] run h set
        by (auto simp: activation_of_def split: if_splits)
    next
      case False
      then have "\<not> reached dir (pd_activation x) key" if "x \<in> set w" for x using pending_head [OF h that] by blast
      then show ?thesis using run h False by auto
    qed
  qed (use run in auto)
qed

lemma drop_retired_sets:
  "set (drop_retired dir key a) \<subseteq> set a \<and>
   (\<forall>x \<in> set a. \<not> retired dir (ac_retirement x) key \<longrightarrow> x \<in> set (drop_retired dir key a)) \<and>
   (\<forall>y ys. heap_head active_first (drop_retired dir key a) = Some (y, ys) \<longrightarrow> \<not> retired dir (ac_retirement y) key)"
proof (induction dir key a rule: drop_retired.induct)
  case (1 dir key a)
  show ?case
  proof (cases "heap_head active_first a")
    case (Some p)
    obtain y ys where p: "p = (y, ys)" by (cases p)
    note h = Some [unfolded p]
    have set: "set a = insert y (set ys)" using heap_head_perm [OF h] by simp
    show ?thesis
    proof (cases "retired dir (ac_retirement y) key")
      case True
      then have "drop_retired dir key a = drop_retired dir key ys" using h by (simp add: drop_retired.simps [of dir key a])
      then show ?thesis using "1.IH" [OF h refl True] True set by auto
    next
      case False
      then have "drop_retired dir key a = a" using h by (simp add: drop_retired.simps [of dir key a])
      then show ?thesis using h False by auto
    qed
  next
    case None
    then have "a = []" "drop_retired dir key a = []" by (simp_all add: drop_retired.simps [of dir key "[]"])
    then show ?thesis by simp
  qed
qed

text \<open>
  \<open>sweep_inv\<close>: every inserted range that the scan has not reached is pending, every one it has
  reached and not passed is active, and the heaps hold nothing else but passed active ranges.
\<close>

type_synonym key_range = "bytes \<times> bytes \<times> u64"

definition to_pending :: "bool \<Rightarrow> key_range \<Rightarrow> pending_range" where
  "to_pending dir r = (case r of (s, e, q) \<Rightarrow>
     \<lparr>pd_activation = (if dir then e else s), pd_retirement = (if dir then s else e), pd_seq = q\<rparr>)"

definition range_covers :: "bytes \<Rightarrow> key_range \<Rightarrow> bool" where
  "range_covers key r = (case r of (s, e, q) \<Rightarrow> s \<le> key \<and> key < e)"

definition reached_at :: "bool \<Rightarrow> bytes option \<Rightarrow> pending_range \<Rightarrow> bool" where
  "reached_at dir pos p = (case pos of None \<Rightarrow> False | Some k \<Rightarrow> reached dir (pd_activation p) k)"

definition retired_at :: "bool \<Rightarrow> bytes option \<Rightarrow> pending_range \<Rightarrow> bool" where
  "retired_at dir pos p = (case pos of None \<Rightarrow> False | Some k \<Rightarrow> retired dir (pd_retirement p) k)"

definition sweep_inv :: "bool \<Rightarrow> key_range set \<Rightarrow> range_cover_sweep \<Rightarrow> bool" where
  "sweep_inv dir R s \<longleftrightarrow> rs_reverse s = dir \<and> (\<forall>(a, e, q) \<in> R. a < e) \<and>
     set (rs_pending s) = {p \<in> to_pending dir ` R. \<not> reached_at dir (rs_position s) p} \<and>
     activation_of ` {p \<in> to_pending dir ` R. reached_at dir (rs_position s) p \<and> \<not> retired_at dir (rs_position s) p}
       \<subseteq> set (rs_active s) \<and>
     set (rs_active s) \<subseteq> activation_of ` {p \<in> to_pending dir ` R. reached_at dir (rs_position s) p}"

definition onward :: "bool \<Rightarrow> bytes option \<Rightarrow> bytes \<Rightarrow> bool" where
  "onward dir pos key = (case pos of None \<Rightarrow> True | Some k \<Rightarrow> if dir then key \<le> k else k \<le> key)"

lemma covers_reached:
  "range_covers key r \<longleftrightarrow> reached dir (pd_activation (to_pending dir r)) key \<and>
     \<not> retired dir (pd_retirement (to_pending dir r)) key"
  by (cases r) (auto simp: range_covers_def to_pending_def reached_def retired_def)

lemma onward_mono:
  assumes "onward dir pos key"
  shows "reached_at dir pos p \<Longrightarrow> reached dir (pd_activation p) key"
    "retired_at dir pos p \<Longrightarrow> retired dir (pd_retirement p) key"
  using assms by (auto simp: onward_def reached_at_def retired_at_def reached_def retired_def
      split: option.splits if_splits)

lemma sweep_insert_cases:
  assumes "rs_reverse s = dir" "a < e" and p_def: "p = to_pending dir (a, e, q)"
  shows "sweep_insert a e q s = (if reached_at dir (rs_position s) p then
      if retired_at dir (rs_position s) p then s else s\<lparr>rs_active := activation_of p # rs_active s\<rparr>
    else s\<lparr>rs_pending := p # rs_pending s\<rparr>)"
proof -
  have "\<not> e \<le> a" using assms(2) by simp
  then show ?thesis using assms(1)
    by (cases "rs_position s"; cases dir)
      (simp_all add: sweep_insert_def p_def to_pending_def activation_of_def reached_at_def retired_at_def)
qed

lemma sweep_insert_inv:
  assumes inv: "sweep_inv dir R s"
  shows "sweep_inv dir (if a < e then insert (a, e, q) R else R) (sweep_insert a e q s)"
proof (cases "a < e")
  case True
  let ?p = "to_pending dir (a, e, q)" and ?k = "rs_position s"
  have d: "rs_reverse s = dir" using inv by (simp add: sweep_inv_def)
  note ins = sweep_insert_cases [OF d True refl, of q]
  consider "\<not> reached_at dir ?k ?p" | "reached_at dir ?k ?p" "retired_at dir ?k ?p"
    | "reached_at dir ?k ?p" "\<not> retired_at dir ?k ?p" by blast
  then show ?thesis
  proof cases
    case 1
    then show ?thesis using inv True unfolding ins sweep_inv_def by (simp add: Collect_disj_eq conj_disj_distribR) blast
  next
    case 2
    then show ?thesis using inv True unfolding ins sweep_inv_def by simp blast
  next
    case 3
    then show ?thesis using inv True unfolding ins sweep_inv_def by simp blast
  qed
next
  case False
  then have "e \<le> a" by simp
  then show ?thesis using inv False by (simp add: sweep_insert_def)
qed

lemma max_cover_seq_exact:
  assumes inv: "sweep_inv dir R s" and on: "onward dir (rs_position s) key"
    and run: "max_cover_seq key s = (r, s')"
  shows "is_max ((\<lambda>(_, _, q). q) ` {x \<in> R. range_covers key x}) r \<and> sweep_inv dir R s'"
proof -
  obtain w a where act: "activate_reached dir key (rs_pending s) (rs_active s) = (w, a)" by fastforce
  define a' where "a' = drop_retired dir key a"
  have r: "r = map_option (\<lambda>(head, _). ac_seq head) (heap_head active_first a')"
    and s': "s' = s\<lparr>rs_pending := w, rs_active := a', rs_position := Some key\<rparr>"
    using run act inv by (auto simp: max_cover_seq_def sweep_inv_def a'_def Let_def)
  let ?P = "to_pending dir ` R"
  note sets = activate_reached_sets [OF act] and drop = drop_retired_sets [of dir key a, folded a'_def]
  have w: "set w = {p \<in> ?P. \<not> reached dir (pd_activation p) key}"
    using sets inv onward_mono [OF on] by (auto simp: sweep_inv_def)
  have live: "activation_of p \<in> set a"
    if p: "p \<in> ?P" "reached dir (pd_activation p) key" "\<not> retired dir (pd_retirement p) key" for p
  proof (cases "reached_at dir (rs_position s) p")
    case True
    have "\<not> retired_at dir (rs_position s) p" using onward_mono(2) [OF on, of p] p(3) by blast
    then have "activation_of p \<in> set (rs_active s)" using inv True p(1) unfolding sweep_inv_def by blast
    then show ?thesis using sets by simp
  next
    case False
    then have "p \<in> set (rs_pending s)" using inv p(1) unfolding sweep_inv_def by blast
    then show ?thesis using sets p(2,3) by simp
  qed
  have sub: "set a \<subseteq> activation_of ` {p \<in> ?P. reached dir (pd_activation p) key}"
    using sets inv onward_mono(1) [OF on] by (auto simp: sweep_inv_def)
  have live': "activation_of p \<in> set a'" if "p \<in> ?P" "reached dir (pd_activation p) key" "\<not> retired dir (pd_retirement p) key" for p
    using live [OF that] drop that(3) by (simp add: activation_of_def)
  have "sweep_inv dir R s'" using inv w live' sub drop
    by (auto simp: sweep_inv_def s' reached_at_def retired_at_def)
  moreover have "is_max ((\<lambda>(_, _, q). q) ` {x \<in> R. range_covers key x}) r"
  proof (cases "heap_head active_first a'")
    case None
    then have "a' = []" by simp
    then have "{x \<in> R. range_covers key x} = {}" using live' unfolding covers_reached [of key _ dir] by auto
    then show ?thesis using None by (simp add: r is_max_def)
  next
    case (Some p)
    obtain y ys where y: "heap_head active_first a' = Some (y, ys)" using Some by (cases p) auto
    have top: "y \<in> set a'" using heap_head_perm [OF y] by simp
    then obtain x where x: "x \<in> R" "y = activation_of (to_pending dir x)" "reached dir (pd_activation (to_pending dir x)) key"
      using drop sub by blast
    moreover have "\<not> retired dir (ac_retirement y) key" using drop y by blast
    ultimately have cov: "range_covers key x" by (simp add: covers_reached [of key x dir] activation_of_def)
    have seq: "ac_seq (activation_of (to_pending dir z)) = (\<lambda>(_, _, q). q) z" for z
      by (simp add: activation_of_def to_pending_def split: prod.splits)
    have "(\<lambda>(_, _, q). q) z \<le> ac_seq y" if "z \<in> R" "range_covers key z" for z
      using active_head [OF y live' [of "to_pending dir z"]] that by (simp add: covers_reached [of key z dir] seq)
    then show ?thesis using x cov y seq [of x] by (auto simp: r is_max_def intro!: image_eqI [of _ _ x])
  qed
  ultimately show ?thesis by simp
qed

datatype sweep_op = CoverRange bytes bytes u64 | Query bytes

fun run_sweep :: "range_cover_sweep \<Rightarrow> sweep_op list \<Rightarrow> u64 option list" where
  "run_sweep s [] = []"
| "run_sweep s (CoverRange a e q # ops) = run_sweep (sweep_insert a e q s) ops"
| "run_sweep s (Query key # ops) = (case max_cover_seq key s of (r, s) \<Rightarrow> r # run_sweep s ops)"

fun scan_ranges :: "key_range list \<Rightarrow> sweep_op list \<Rightarrow> u64 option list" where
  "scan_ranges rs [] = []"
| "scan_ranges rs (CoverRange a e q # ops) = scan_ranges ((a, e, q) # rs) ops"
| "scan_ranges rs (Query key # ops) =
     newest_of (map (\<lambda>(_, _, q). q) (filter (range_covers key) rs)) # scan_ranges rs ops"

fun in_order :: "bool \<Rightarrow> bytes option \<Rightarrow> sweep_op list \<Rightarrow> bool" where
  "in_order dir pos [] \<longleftrightarrow> True"
| "in_order dir pos (CoverRange a e q # ops) \<longleftrightarrow> in_order dir pos ops"
| "in_order dir pos (Query key # ops) \<longleftrightarrow> onward dir pos key \<and> in_order dir (Some key) ops"

lemma sweep_insert_position: "rs_position (sweep_insert a e q s) = rs_position s"
  by (simp add: sweep_insert_def split: prod.split option.split)

text \<open>C15. The sweep of a scan is exact: for keys queried in scan order, forward or reverse, and ranges
  inserted at any time, each query returns the greatest sequence of the ranges inserted so far
  that cover its key.\<close>

theorem sweep_exact:
  assumes "in_order dir None ops"
  shows "run_sweep (new_sweep dir) ops = scan_ranges [] ops"
proof -
  have "run_sweep s ops = scan_ranges rs ops"
    if "sweep_inv dir {r \<in> set rs. \<exists>key. range_covers key r} s" "in_order dir (rs_position s) ops" for s rs ops
    using that
  proof (induction ops arbitrary: s rs)
    case (Cons op ops)
    show ?case
    proof (cases op)
      case (CoverRange a e q)
      have "(\<exists>key. range_covers key (a, e, q)) \<longleftrightarrow> a < e"
        by (auto simp: range_covers_def intro: order_le_less_trans)
      then have "{r \<in> set ((a, e, q) # rs). \<exists>key. range_covers key r} =
          (if a < e then insert (a, e, q) {r \<in> set rs. \<exists>key. range_covers key r}
           else {r \<in> set rs. \<exists>key. range_covers key r})" by auto
      with sweep_insert_inv [OF Cons.prems(1), of a e q]
      have "sweep_inv dir {r \<in> set ((a, e, q) # rs). \<exists>key. range_covers key r} (sweep_insert a e q s)" by (simp only:)
      from Cons.IH [OF this] Cons.prems(2) CoverRange show ?thesis by (simp add: sweep_insert_position)
    next
      case (Query key)
      obtain r s' where r: "max_cover_seq key s = (r, s')" by fastforce
      have on: "onward dir (rs_position s) key" "in_order dir (Some key) ops" using Cons.prems(2) Query by auto
      note ex = max_cover_seq_exact [OF Cons.prems(1) on(1) r]
      have "{x \<in> {r \<in> set rs. \<exists>key. range_covers key r}. range_covers key x} = set (filter (range_covers key) rs)" by auto
      with ex have "newest_of (map (\<lambda>(_, _, q). q) (filter (range_covers key) rs)) = r"
        by (intro newest_of_eq) (simp only: set_map)
      moreover have "rs_position s' = Some key" using r by (auto simp: max_cover_seq_def Let_def split: prod.splits)
      ultimately show ?thesis using Cons.IH [of rs s'] ex on(2) r Query by simp
    qed
  qed simp
  moreover have "sweep_inv dir {} (new_sweep dir)" by (simp add: sweep_inv_def new_sweep_def)
  ultimately show ?thesis using assms by (simp add: new_sweep_def)
qed

theorem sweep_exact_witness:
  "run_sweep (new_sweep False) [CoverRange [1] [9] 4, Query [2], CoverRange [2] [3] 7, Query [2], Query [5]] =
     [Some 4, Some 7, Some 4]"
proof -
  let ?ops = "[CoverRange [1] [9] 4, Query [2], CoverRange [2] [3] 7, Query [2], Query [5]]"
  have "in_order False None ?ops" by (simp add: onward_def)
  from sweep_exact [OF this] show ?thesis by (simp add: range_covers_def)
qed

end
