(* ===== verification/Spec2Isabelle.thy ===== *)
theory Spec2Isabelle
  imports Codec Wal_Planner Compaction_Fragment Compaction_Progress Range_Cover
begin

text \<open>
  A verification library for the midge storage engine, an embedded log-structured key-value store.
  Writes go to a write-ahead log and a memtable; a memtable is flushed to a sorted table; compaction
  merges tables into the level below; in cloud mode the segments of the log are uploaded and
  published in a catalog, from which another process can recover. The library covers the
  write-ahead log end to end, from bytes to recovery plans, the compaction executor, and the range
  tombstones of reads. Paths below are relative to \<^verbatim>\<open>src/src\<close>.

  \<^bold>\<open>Foundations.\<close>
  \<^item> \<open>Midge_Prelude\<close>: machine integers as words, byte strings, the errors of \<^verbatim>\<open>common/error.rs\<close>,
    the \<^verbatim>\<open>?\<close> operator as \<open>try_with\<close>, saturating and checked arithmetic, little-endian fields, and
    the interfaces \<open>wire\<close> and \<open>exact_wire\<close> (codecs that read back, or read back exactly) and
    \<open>edit_machine\<close> and \<open>monotone_machine\<close> (states under accepted edits).
  \<^item> \<open>Btree\<close>: the ordered map of the standard library as a sorted association list, with
    the interface \<open>map_store\<close>.
  \<^item> \<open>Versions\<close>: entry types, tombstones and versions of \<^verbatim>\<open>types.rs\<close> and \<^verbatim>\<open>sst/traits.rs\<close>.
  \<^item> \<open>File_Meta\<close>, \<open>Wal_Names\<close>, \<open>Sst_Names\<close>: the manifest's description of a table and the
    names of segments, objects and tables (\<^verbatim>\<open>metadata/manifest.rs\<close>, \<^verbatim>\<open>wal/mod.rs\<close>,
    \<^verbatim>\<open>cloud_layout.rs\<close>). Names parse exactly when they are formatted ones.

  \<^bold>\<open>The write-ahead log.\<close>
  \<^item> \<open>Codec\<close> (\<^verbatim>\<open>codec.rs\<close>): compression of blocks and values; round trips and the bound of a
    decode by its reservation.
  \<^item> \<open>Wal_Encoding\<close>, \<open>Wal_Batch\<close> (\<^verbatim>\<open>wal/encoding.rs\<close>): records and transaction batches; round
    trips, and that a decoded batch is one transaction.
  \<^item> \<open>Wal_Frame\<close>, \<open>Wal_Walk\<close> (\<^verbatim>\<open>wal/frame.rs\<close>): frames, the walk over them, how a torn end is told
    from corruption, the read-ahead window and the bounded suffix scan.
  \<^item> \<open>Wal_Segment\<close>, \<open>Wal_Validate\<close> (\<^verbatim>\<open>wal/format\<close>, \<^verbatim>\<open>wal/cloud_segment.rs\<close>): headers, footers, the
    chain rule and whole-segment validation, which accepts exactly the well-formed segments.
  \<^item> \<open>Wal_Ledger\<close> (\<^verbatim>\<open>wal/ledger.rs\<close>): the history of local segments. Every accepted history reads
    back, and no id or sequence is handed out twice.
  \<^item> \<open>Wal_Publish\<close>, \<open>Wal_Catalog\<close> (\<^verbatim>\<open>wal/cloud_catalog.rs\<close> and its neighbours): entries,
    acknowledgements and the published chain. Reachable catalogs validate, publication adds exactly
    what is owed, and retirement goes through.
  \<^item> \<open>Wal_Planner\<close> (\<^verbatim>\<open>wal/planner.rs\<close>): recovery over ledger and catalog. A plan replays one chain,
    a strict one replays everything, and what is left out stays below the reported floors.

  \<^bold>\<open>Compaction\<close> (\<^verbatim>\<open>compaction/executor.rs\<close> and \<^verbatim>\<open>compaction/executor\<close>).
  \<^item> \<open>Compaction_Merge\<close>: cursors and the k-way merge, with the interface \<open>event_source\<close> that table,
    chained and general cursors implement, and the repair run.
  \<^item> \<open>Compaction_Overlap\<close>: the prefix sums that bound the overlap with the level below.
  \<^item> \<open>Compaction_Partition\<close>: tombstone tracking, version selection, output cuts and the runs.
  \<^item> \<open>Compaction_Retention\<close>: what a run keeps. Its outputs show a reader of the latest state what
    the inputs showed, and they are disjoint, ascending and consecutively named.
  \<^item> \<open>Compaction_Fragment\<close>: fragmentation keeps the whole history and cuts at the planned key.
  \<^item> \<open>Compaction_Progress\<close>: an uninterrupted run over readable inputs returns its outputs.

  \<^bold>\<open>Reads.\<close>
  \<^item> \<open>Range_Cover\<close> (\<^verbatim>\<open>memtable/mod.rs\<close>, \<^verbatim>\<open>memtable/range_tombstone_index.rs\<close>,
    \<^verbatim>\<open>runtime/range_cover.rs\<close>): the newest tombstone over a key, by linear scan, by cached
    index and by a sweep. Index and sweep answer like the scan.

  \<^bold>\<open>Conventions.\<close> A struct is a record whose fields carry a prefix, an enum a datatype, a fallible
  operation returns an error or a value, and a method that changes its receiver returns it changed.
  Lengths, counts and offsets of type \<^verbatim>\<open>usize\<close> are natural numbers, checked or saturated where the
  code does so; sequences, ids and epochs are 64-bit words. Error texts keep the fixed part of the
  message. Loops recur over their data or over a decreasing measure, so all definitions are
  total; none uses fuel. What compaction meets outside the code under study, that is byte
  reservations, cancellation and file operations, is a tape of interrupts consumed at checkpoints:
  theorems about results hold for every tape, and the empty tape is the run that nothing
  interrupts.

  \<^bold>\<open>Parameters.\<close> Compressors, checksums, digests, the JSON library, table readers, the size
  estimates of the table writer and the capacities of vectors are arguments. What the proofs need of
  them, such as that decompression inverts compression, is a named hypothesis, and each theorem that
  has one is applied to a concrete instance.

  \<^bold>\<open>Not modelled.\<close> Threads, channels and actors (\<^verbatim>\<open>runtime\<close>, \<^verbatim>\<open>engine\<close>), the lock-free skiplist
  (\<^verbatim>\<open>memtable/skiplist.rs\<close>), the encoding of tables and their caches (\<^verbatim>\<open>sst\<close>), storage providers,
  leases and the file system. Interleavings of concurrent readers and writers are therefore outside
  the theorems: each component is a sequence of its operations.
\<close>

end
